(* ===== verification/Kprelude.thy ===== *)
theory Kprelude
  imports Main "HOL-Library.Word" "HOL-Library.Monad_Syntax" "HOL-Library.Multiset"
begin

unbundle bit_operations_syntax

text \<open>
  Shared vocabulary of the kernel model: the machine integers of libs/defs.h, the error codes of
  libs/error.h, the rounding macros, and assertions.  A kernel function that can hit an
  assertion or a panic returns an \<open>option\<close>: \<open>None\<close> means that the kernel stopped there
  (kern/debug/panic.c never returns).  An error that the function reports to its caller is an
  ordinary integer result, negative as in the source.
\<close>

named_theorems kbind \<open>unfolding of assertions and of the panic monad\<close>
named_theorems kround \<open>arithmetic of the rounding macros\<close>

type_synonym u8 = "8 word"
type_synonym u16 = "16 word"
type_synonym u32 = "32 word"
type_synonym u64 = "64 word"

section \<open>Error codes\<close>

datatype errno =
    E_UNSPECIFIED | E_BAD_PROC | E_INVAL | E_NO_MEM | E_NO_FREE_PROC | E_FAULT | E_SWAP_FAULT
  | E_INVAL_ELF | E_KILLED | E_PANIC | E_TIMEOUT | E_TOO_BIG | E_NO_DEV | E_NA_DEV | E_BUSY
  | E_NOENT | E_ISDIR | E_NOTDIR | E_XDEV | E_UNIMP | E_SEEK | E_MAX_OPEN | E_EXISTS | E_NOTEMPTY

fun errno_code :: "errno \<Rightarrow> int" where
  "errno_code E_UNSPECIFIED = 1"
| "errno_code E_BAD_PROC = 2"
| "errno_code E_INVAL = 3"
| "errno_code E_NO_MEM = 4"
| "errno_code E_NO_FREE_PROC = 5"
| "errno_code E_FAULT = 6"
| "errno_code E_SWAP_FAULT = 7"
| "errno_code E_INVAL_ELF = 8"
| "errno_code E_KILLED = 9"
| "errno_code E_PANIC = 10"
| "errno_code E_TIMEOUT = 11"
| "errno_code E_TOO_BIG = 12"
| "errno_code E_NO_DEV = 13"
| "errno_code E_NA_DEV = 14"
| "errno_code E_BUSY = 15"
| "errno_code E_NOENT = 16"
| "errno_code E_ISDIR = 17"
| "errno_code E_NOTDIR = 18"
| "errno_code E_XDEV = 19"
| "errno_code E_UNIMP = 20"
| "errno_code E_SEEK = 21"
| "errno_code E_MAX_OPEN = 22"
| "errno_code E_EXISTS = 23"
| "errno_code E_NOTEMPTY = 24"

definition MAXERROR :: int where
  "MAXERROR = 24"

abbreviation err :: "errno \<Rightarrow> int" where
  "err e \<equiv> - errno_code e"

lemma errno_code_range: "0 < errno_code e \<and> errno_code e \<le> MAXERROR"
  by (cases e) (simp_all add: MAXERROR_def)

lemma errno_code_nonzero [simp]: "errno_code e \<noteq> 0"
  using errno_code_range [of e] by simp

lemma errno_code_inj: "errno_code a = errno_code b \<Longrightarrow> a = b"
  by (cases a; cases b) simp_all

section \<open>Assertions and panics\<close>

definition kassert :: "bool \<Rightarrow> unit option" where
  "kassert b = (if b then Some () else None)"

definition kpanic :: "'a option" where
  "kpanic = None"

lemma kassert_eq_Some [simp]: "kassert b = Some u \<longleftrightarrow> b"
  by (simp add: kassert_def)

lemma kassert_True [simp]: "kassert True = Some ()"
  by (simp add: kassert_def)

lemma kassert_bind_True [simp, kbind]: "b \<Longrightarrow> Option.bind (kassert b) f = f ()"
  by (simp add: kassert_def)

lemma kassert_bind_False [simp, kbind]: "\<not> b \<Longrightarrow> Option.bind (kassert b) f = None"
  by (simp add: kassert_def)

lemma kassert_bind_eq_Some [kbind]:
  "Option.bind (kassert b) f = Some x \<longleftrightarrow> b \<and> f () = Some x"
  by (simp add: kassert_def)

lemma kassert_bind_eq_None [kbind]:
  "Option.bind (kassert b) f = None \<longleftrightarrow> (b \<longrightarrow> f () = None)"
  by (simp add: kassert_def)

lemma bind_eq_SomeE:
  assumes "Option.bind m f = Some y"
  obtains x where "m = Some x" "f x = Some y"
  using assms by (auto simp: bind_eq_Some_conv)

section \<open>Rounding macros of libs/defs.h\<close>

definition ROUNDDOWN :: "u32 \<Rightarrow> u32 \<Rightarrow> u32" where
  "ROUNDDOWN a n = a - a mod n"

definition ROUNDUP :: "u32 \<Rightarrow> u32 \<Rightarrow> u32" where
  "ROUNDUP a n = ROUNDDOWN (a + n - 1) n"

definition ROUNDUP_DIV :: "u32 \<Rightarrow> u32 \<Rightarrow> u32" where
  "ROUNDUP_DIV a n = (a + n - 1) div n"

lemma unat_ROUNDDOWN [kround]: "unat (ROUNDDOWN a n) = unat a - unat a mod unat n"
proof -
  have "a mod n \<le> a"
    by (simp add: word_le_nat_alt unat_mod_distrib)
  then show ?thesis
    by (simp add: ROUNDDOWN_def unat_sub unat_mod_distrib)
qed

lemma ROUNDDOWN_le: "ROUNDDOWN a n \<le> a"
  by (simp add: word_le_nat_alt unat_ROUNDDOWN)

lemma ROUNDDOWN_dvd: "unat n dvd unat (ROUNDDOWN a n)"
  by (simp add: unat_ROUNDDOWN dvd_minus_mod)

lemma ROUNDDOWN_gt: "0 < n \<Longrightarrow> unat a < unat (ROUNDDOWN a n) + unat n"
proof -
  assume "0 < n"
  then have "unat a mod unat n < unat n"
    by (simp add: unat_gt_0)
  moreover have "unat a mod unat n \<le> unat a"
    by simp
  ultimately show ?thesis
    unfolding unat_ROUNDDOWN by linarith
qed

section \<open>Ranges of machine words\<close>

lemma unat_lt2p: "unat (w :: 'a::len word) < 2 ^ LENGTH('a)"
  by (rule unsigned_less)

lemma unat_u32_less: "unat (w :: u32) < 2 ^ 32"
  using unat_lt2p [of w] by simp

lemma unat_u64_less: "unat (w :: u64) < 2 ^ 64"
  using unat_lt2p [of w] by simp

lemma unat_u8_less: "unat (w :: u8) < 256"
  using unat_lt2p [of w] by simp

end
