(* ===== verification/Kstring.thy ===== *)
theory Kstring
  imports Kprelude
begin

text \<open>
  The string and memory routines of libs/string.c, the assembly versions of libs/x86.h that it uses on
  x86.  A NUL-terminated string that is
  only read is the list of its bytes before the NUL; reading at the end of the list gives the NUL.
  Routines that write work on a memory, a function from addresses to bytes; addresses do not wrap.
\<close>

section \<open>Reading strings\<close>

type_synonym cstring = "u8 list"
type_synonym memory = "nat \<Rightarrow> u8"

definition at0 :: "cstring \<Rightarrow> u8" where
  "at0 s = (case s of [] \<Rightarrow> 0 | c # _ \<Rightarrow> c)"

definition cstring_ok :: "cstring \<Rightarrow> bool" where
  "cstring_ok s \<longleftrightarrow> 0 \<notin> set s"

lemma at0_simps [simp]: "at0 [] = 0" "at0 (c # s) = c"
  by (simp_all add: at0_def)

lemma cstring_ok_simps [simp]: "cstring_ok []" "cstring_ok (c # s) \<longleftrightarrow> c \<noteq> 0 \<and> cstring_ok s"
  by (auto simp: cstring_ok_def)

fun strlen_loop :: "cstring \<Rightarrow> nat \<Rightarrow> nat" where
  "strlen_loop [] cnt = cnt"
| "strlen_loop (c # s) cnt = (if c \<noteq> 0 then strlen_loop s (cnt + 1) else cnt)"

definition strlen :: "cstring \<Rightarrow> nat" where
  "strlen s = strlen_loop s 0"

fun strnlen_loop :: "cstring \<Rightarrow> nat \<Rightarrow> nat \<Rightarrow> nat" where
  "strnlen_loop [] len cnt = cnt"
| "strnlen_loop (c # s) len cnt = (if cnt < len \<and> c \<noteq> 0 then strnlen_loop s len (cnt + 1) else cnt)"

definition strnlen :: "cstring \<Rightarrow> nat \<Rightarrow> nat" where
  "strnlen s len = strnlen_loop s len 0"

fun strcmp :: "cstring \<Rightarrow> cstring \<Rightarrow> int" where
  "strcmp (a # s1) (b # s2) =
     (if a \<noteq> 0 \<and> a = b then strcmp s1 s2 else uint a - uint b)"
| "strcmp s1 s2 = uint (at0 s1) - uint (at0 s2)"

text \<open>
  The assembly: \<open>lodsb; scasb\<close> compare and advance, \<open>sbbl; orb\<close> turn the borrow into -1 or 1.
\<close>

fun arch_strcmp :: "cstring \<Rightarrow> cstring \<Rightarrow> int" where
  "arch_strcmp s1 s2 =
     (let al = at0 s1; m = at0 s2
      in if al \<noteq> m then (if al < m then -1 else 1)
         else if al \<noteq> 0 \<and> s1 \<noteq> [] then arch_strcmp (tl s1) (tl s2) else 0)"

declare arch_strcmp.simps [simp del]

fun strncmp :: "cstring \<Rightarrow> cstring \<Rightarrow> nat \<Rightarrow> int" where
  "strncmp s1 s2 0 = 0"
| "strncmp (a # s1) (b # s2) (Suc n) =
     (if a \<noteq> 0 \<and> a = b then strncmp s1 s2 n else uint a - uint b)"
| "strncmp s1 s2 (Suc n) = uint (at0 s1) - uint (at0 s2)"

text \<open>\<open>strchr\<close> and \<open>strfind\<close> return a pointer into the string: the rest of the list.\<close>

fun strchr :: "cstring \<Rightarrow> u8 \<Rightarrow> cstring option" where
  "strchr [] c = None"
| "strchr (a # s) c = (if a \<noteq> 0 then if a = c then Some (a # s) else strchr s c else None)"

fun strfind :: "cstring \<Rightarrow> u8 \<Rightarrow> cstring" where
  "strfind [] c = []"
| "strfind (a # s) c = (if a \<noteq> 0 then if a = c then a # s else strfind s c else a # s)"

lemma uint_diff_zero [simp]: "uint (a :: u8) = uint b \<longleftrightarrow> a = b"
  by (simp add: word_uint_eq_iff)

lemma uint_at0_zero [simp]: "cstring_ok s \<Longrightarrow> uint (at0 s) = 0 \<longleftrightarrow> s = []"
  by (cases s) (auto simp: uint_0_iff)

lemma sgn_uint_diff:
  "sgn (uint (a :: u8) - uint b) = (if a = b then 0 else if a < b then -1 else 1)"
  using uint_diff_zero [of a b] by (auto simp: word_less_def sgn_if simp del: uint_diff_zero)

lemma strlen_loop_length: "cstring_ok s \<Longrightarrow> strlen_loop s cnt = cnt + length s"
  by (induction s arbitrary: cnt) auto

lemma strlen_length: "cstring_ok s \<Longrightarrow> strlen s = length s"
  by (simp add: strlen_def strlen_loop_length)

lemma strnlen_loop_min: "cstring_ok s \<Longrightarrow> cnt \<le> len \<Longrightarrow> strnlen_loop s len cnt = min len (cnt + length s)"
  by (induction s arbitrary: cnt) auto

lemma strnlen_min: "cstring_ok s \<Longrightarrow> strnlen s len = min len (length s)"
  by (simp add: strnlen_def strnlen_loop_min)

lemma strcmp_eq_iff: "cstring_ok s1 \<Longrightarrow> cstring_ok s2 \<Longrightarrow> strcmp s1 s2 = 0 \<longleftrightarrow> s1 = s2"
  by (induction s1 s2 rule: strcmp.induct) auto

lemma strncmp_take:
  "cstring_ok s1 \<Longrightarrow> cstring_ok s2 \<Longrightarrow> strncmp s1 s2 n = 0 \<longleftrightarrow> take n s1 = take n s2"
  by (induction s1 s2 n rule: strncmp.induct) auto

lemma arch_strcmp_sgn:
  "cstring_ok s1 \<Longrightarrow> cstring_ok s2 \<Longrightarrow> sgn (arch_strcmp s1 s2) = sgn (strcmp s1 s2)"
  by (induction s1 s2 rule: strcmp.induct; subst arch_strcmp.simps)
    (auto simp: Let_def sgn_uint_diff word_gt_0 split: list.splits)

lemma strchr_none: "cstring_ok s \<Longrightarrow> strchr s c = None \<longleftrightarrow> c \<notin> set s"
  by (induction s) auto

lemma strchr_some:
  "strchr s c = Some r \<Longrightarrow> \<exists>pre. s = pre @ r \<and> c \<notin> set pre \<and> at0 r = c \<and> r \<noteq> []"
proof (induction s)
  case (Cons a s)
  show ?case
  proof (cases "a = c")
    case True
    with Cons.prems show ?thesis by (intro exI [of _ "[]"]) (auto split: if_splits)
  next
    case False
    with Cons obtain pre where "s = pre @ r" "c \<notin> set pre" "at0 r = c" "r \<noteq> []"
      by (auto split: if_splits)
    with False show ?thesis by (intro exI [of _ "a # pre"]) auto
  qed
qed simp

section \<open>Writing memory\<close>

partial_function (option) strcpy_loop :: "nat \<Rightarrow> nat \<Rightarrow> memory \<Rightarrow> memory option" where
  "strcpy_loop p src m =
     (let c = m src; m = m(p := c)
      in if c \<noteq> 0 then strcpy_loop (p + 1) (src + 1) m else Some m)"

definition strcpy :: "nat \<Rightarrow> nat \<Rightarrow> memory \<Rightarrow> memory option" where
  "strcpy dst src m = strcpy_loop dst src m"

fun strncpy_loop :: "nat \<Rightarrow> nat \<Rightarrow> nat \<Rightarrow> memory \<Rightarrow> memory" where
  "strncpy_loop p src 0 m = m"
| "strncpy_loop p src (Suc len) m =
     (let m' = m(p := m src)
      in strncpy_loop (p + 1) (if m src \<noteq> 0 then src + 1 else src) len m')"

definition strncpy :: "nat \<Rightarrow> nat \<Rightarrow> nat \<Rightarrow> memory \<Rightarrow> memory" where
  "strncpy dst src len m = strncpy_loop dst src len m"

fun memset :: "nat \<Rightarrow> u8 \<Rightarrow> nat \<Rightarrow> memory \<Rightarrow> memory" where
  "memset p c 0 m = m"
| "memset p c (Suc n) m = memset (p + 1) c n (m(p := c))"

text \<open>The two copying directions: \<open>rep movsb\<close> upwards, and downwards with the direction flag set.\<close>

fun copy_up :: "nat \<Rightarrow> nat \<Rightarrow> nat \<Rightarrow> memory \<Rightarrow> memory" where
  "copy_up d s 0 m = m"
| "copy_up d s (Suc n) m = copy_up (d + 1) (s + 1) n (m(d := m s))"

fun copy_down :: "nat \<Rightarrow> nat \<Rightarrow> nat \<Rightarrow> memory \<Rightarrow> memory" where
  "copy_down d s 0 m = m"
| "copy_down d s (Suc n) m = copy_down d s n (m(d + n := m (s + n)))"

definition memmove :: "nat \<Rightarrow> nat \<Rightarrow> nat \<Rightarrow> memory \<Rightarrow> memory" where
  "memmove dst src n m =
     (if src < dst \<and> src + n > dst then copy_down dst src n m else copy_up dst src n m)"

definition memcpy :: "nat \<Rightarrow> nat \<Rightarrow> nat \<Rightarrow> memory \<Rightarrow> memory" where
  "memcpy dst src n m = copy_up dst src n m"

text \<open>\<open>rep movsl\<close>: four bytes are read before four bytes are written.\<close>

fun copy_up4 :: "nat \<Rightarrow> nat \<Rightarrow> nat \<Rightarrow> memory \<Rightarrow> memory" where
  "copy_up4 d s 0 m = m"
| "copy_up4 d s (Suc n) m =
     copy_up4 (d + 4) (s + 4) n
       (m(d := m s, d + 1 := m (s + 1), d + 2 := m (s + 2), d + 3 := m (s + 3)))"

definition arch_memcpy :: "nat \<Rightarrow> nat \<Rightarrow> nat \<Rightarrow> memory \<Rightarrow> memory" where
  "arch_memcpy dst src n m =
     (let k = n div 4; r = n mod 4; m = copy_up4 dst src k m
      in if r = 0 then m else copy_up (dst + 4 * k) (src + 4 * k) r m)"

definition arch_memmove :: "nat \<Rightarrow> nat \<Rightarrow> nat \<Rightarrow> memory \<Rightarrow> memory" where
  "arch_memmove dst src n m =
     (if dst < src then arch_memcpy dst src n m else copy_down dst src n m)"

fun memcmp :: "nat \<Rightarrow> nat \<Rightarrow> nat \<Rightarrow> memory \<Rightarrow> int" where
  "memcmp s1 s2 0 m = 0"
| "memcmp s1 s2 (Suc n) m =
     (if m s1 \<noteq> m s2 then uint (m s1) - uint (m s2) else memcmp (s1 + 1) (s2 + 1) n m)"

text \<open>What a copy of \<open>n\<close> bytes has to do, whether or not the two regions overlap.\<close>

definition moved :: "nat \<Rightarrow> nat \<Rightarrow> nat \<Rightarrow> memory \<Rightarrow> memory" where
  "moved dst src n m = (\<lambda>a. if dst \<le> a \<and> a < dst + n then m (src + (a - dst)) else m a)"

lemma copy_up_moved: "d \<le> s \<or> s + n \<le> d \<Longrightarrow> copy_up d s n m = moved d s n m"
proof (induction n arbitrary: d s m)
  case (Suc n)
  then have "copy_up (Suc d) (Suc s) n (m(d := m s)) = moved (Suc d) (Suc s) n (m(d := m s))"
    by (intro Suc.IH) auto
  then have "copy_up d s (Suc n) m = moved (Suc d) (Suc s) n (m(d := m s))" by simp
  also have "\<dots> = moved d s (Suc n) m"
    using Suc.prems by (auto simp: moved_def fun_eq_iff Suc_diff_Suc trans_less_add2 Suc_le_eq)
  finally show ?case .
qed (auto simp: moved_def fun_eq_iff)

lemma copy_down_moved: "s \<le> d \<or> d + n \<le> s \<Longrightarrow> copy_down d s n m = moved d s n m"
proof (induction n arbitrary: m)
  case (Suc n)
  then have "copy_down d s n (m(d + n := m (s + n))) = moved d s n (m(d + n := m (s + n)))"
    by (intro Suc.IH) auto
  also have "\<dots> = moved d s (Suc n) m"
    using Suc.prems by (auto simp: moved_def fun_eq_iff less_Suc_eq)
  finally show ?case by simp
qed (auto simp: moved_def fun_eq_iff)

lemma moved_add:
  assumes "d \<le> s \<or> s + (k + n) \<le> d"
  shows "moved (d + k) (s + k) n (moved d s k m) = moved d s (k + n) m"
proof
  fix a
  consider "a < d + k" | "d + k \<le> a" "a < d + k + n" | "d + k + n \<le> a" by linarith
  then show "moved (d + k) (s + k) n (moved d s k m) a = moved d s (k + n) m a"
  proof cases
    case 2
    then have e: "s + k + (a - (d + k)) = s + (a - d)" by simp
    have "\<not> (d \<le> s + (a - d) \<and> s + (a - d) < d + k)" using assms 2 by auto
    with 2 show ?thesis unfolding moved_def e by auto
  qed (auto simp: moved_def)
qed

lemma copy_up4_moved: "d \<le> s \<or> s + 4 * n \<le> d \<Longrightarrow> copy_up4 d s n m = moved d s (4 * n) m"
proof (induction n arbitrary: d s m)
  case (Suc n)
  let ?m = "m(d := m s, d + 1 := m (s + 1), d + 2 := m (s + 2), d + 3 := m (s + 3))"
  have "?m = moved d s 4 m"
  proof
    fix a
    consider "a < d" | "a = d" | "a = d + 1" | "a = d + 2" | "a = d + 3" | "a \<ge> d + 4" by linarith
    then show "?m a = moved d s 4 m a" by cases (auto simp: moved_def)
  qed
  moreover have "copy_up4 (d + 4) (s + 4) n ?m = moved (d + 4) (s + 4) (4 * n) ?m"
    using Suc.prems by (intro Suc.IH) auto
  moreover have "moved (d + 4) (s + 4) (4 * n) (moved d s 4 m) = moved d s (4 + 4 * n) m"
    using Suc.prems by (intro moved_add) auto
  ultimately show ?case by simp
qed (auto simp: moved_def fun_eq_iff)

lemma arch_memcpy_moved:
  assumes "dst \<le> src \<or> src + n \<le> dst"
  shows "arch_memcpy dst src n m = moved dst src n m"
proof -
  let ?k = "n div 4" and ?r = "n mod 4"
  have n: "4 * ?k + ?r = n" by simp
  have c: "dst \<le> src \<or> src + (4 * ?k + ?r) \<le> dst" using assms n by simp
  then have "copy_up4 dst src ?k m = moved dst src (4 * ?k) m"
    by (intro copy_up4_moved) auto
  moreover have "copy_up (dst + 4 * ?k) (src + 4 * ?k) ?r (moved dst src (4 * ?k) m) =
      moved (dst + 4 * ?k) (src + 4 * ?k) ?r (moved dst src (4 * ?k) m)"
    using c by (intro copy_up_moved) auto
  ultimately show ?thesis
    using moved_add [OF c, of m] n by (auto simp: arch_memcpy_def Let_def)
qed

lemma memmove_moved: "memmove dst src n m = moved dst src n m"
  unfolding memmove_def by (simp add: copy_up_moved copy_down_moved not_less)

lemma arch_memmove_moved: "arch_memmove dst src n m = moved dst src n m"
  unfolding arch_memmove_def by (simp add: arch_memcpy_moved copy_down_moved)

lemma memset_eq: "memset p c n m = (\<lambda>a. if p \<le> a \<and> a < p + n then c else m a)"
  by (induction n arbitrary: p m) (auto simp: fun_eq_iff)

text \<open>A NUL-terminated string in memory.\<close>

definition cstr_at :: "memory \<Rightarrow> nat \<Rightarrow> cstring \<Rightarrow> bool" where
  "cstr_at m p s \<longleftrightarrow> cstring_ok s \<and> (\<forall>i < length s. m (p + i) = s ! i) \<and> m (p + length s) = 0"

lemma cstr_at_Cons: "cstr_at m p (c # s) \<longleftrightarrow> c \<noteq> 0 \<and> m p = c \<and> cstr_at m (Suc p) s"
  by (auto simp: cstr_at_def less_Suc_eq_0_disj)

lemma strcpy_loop_returns:
  assumes "cstr_at m src s" "dst < src \<or> src + length s < dst"
  shows "strcpy_loop dst src m = Some (moved dst src (length s + 1) m)"
  using assms
proof (induction s arbitrary: dst src m)
  case Nil
  then have z: "m src = 0" by (simp add: cstr_at_def)
  have "moved dst src 1 m = m(dst := 0)" using z by (auto simp: moved_def fun_eq_iff)
  then show ?case using z by (subst strcpy_loop.simps) simp
next
  case (Cons c s)
  let ?m = "m(dst := c)"
  have c: "c \<noteq> 0" "m src = c" "cstr_at m (Suc src) s" using Cons.prems(1) by (auto simp: cstr_at_Cons)
  have "cstr_at ?m (Suc src) s"
    using c(3) Cons.prems(2) by (auto simp: cstr_at_def)
  moreover have "Suc dst < Suc src \<or> Suc src + length s < Suc dst" using Cons.prems(2) by auto
  ultimately have "strcpy_loop (Suc dst) (Suc src) ?m = Some (moved (Suc dst) (Suc src) (length s + 1) ?m)"
    by (rule Cons.IH)
  moreover have "?m = moved dst src 1 m" using c(2) by (auto simp: moved_def fun_eq_iff)
  moreover have "moved (dst + 1) (src + 1) (length s + 1) (moved dst src 1 m) = moved dst src (1 + (length s + 1)) m"
    using Cons.prems(2) by (intro moved_add) auto
  ultimately show ?case using c by (subst strcpy_loop.simps) simp
qed

section \<open>Properties\<close>

text \<open>
  C11: Both versions of \<open>memmove\<close>, the portable one and the assembly one (which copies double words
  upwards or bytes downwards), move the bytes correctly for every overlap of source and destination and
  change nothing else; in particular they agree.
\<close>

theorem memmove_overlap:
  "memmove dst src n m = moved dst src n m \<and> arch_memmove dst src n m = moved dst src n m"
  by (simp add: memmove_moved arch_memmove_moved)

text \<open>
  C12: String comparison returns 0 exactly for equal strings, and the assembly version has the same sign
  as the portable one.
\<close>

theorem strcmp_correct:
  assumes "cstring_ok s1" "cstring_ok s2"
  shows "(strcmp s1 s2 = 0 \<longleftrightarrow> s1 = s2) \<and> sgn (arch_strcmp s1 s2) = sgn (strcmp s1 s2)"
  using strcmp_eq_iff [OF assms] arch_strcmp_sgn [OF assms] by simp

theorem strcmp_correct_witness: "strcmp [1, 2] [1, 3] \<noteq> 0 \<and> sgn (arch_strcmp [1, 2] [1, 3]) = - 1"
  using strcmp_correct [of "[1, 2]" "[1, 3]"] by simp

end
