(* ===== verification/Kdiv.thy ===== *)
theory Kdiv
  imports Kprelude
begin

text \<open>
  Arithmetic helpers of libs: the 64-by-32-bit division \<open>do_div\<close> of libs/x86.h, the hash of
  libs/hash.c and the generator of libs/rand.c.
\<close>

section \<open>Division\<close>

text \<open>The \<open>divl\<close> instruction faults when the quotient does not fit in 32 bits.\<close>

definition divl :: "u32 \<Rightarrow> u32 \<Rightarrow> u32 \<Rightarrow> (u32 \<times> u32) option" where
  "divl upper low base =
     (let n = unat upper * 2 ^ 32 + unat low; b = unat base
      in if b = 0 \<or> n div b \<ge> 2 ^ 32 then None
         else Some (word_of_nat (n div b), word_of_nat (n mod b)))"

definition do_div :: "u64 \<Rightarrow> u32 \<Rightarrow> (u64 \<times> u32) option" where
  "do_div n base =
     (let low = ucast n; high = ucast (drop_bit 32 n);
          (upper, high) = (if high \<noteq> 0 then (high mod base, high div base) else (high, high))
      in case divl upper low base of
           None \<Rightarrow> None
         | Some (low, md) \<Rightarrow> Some (push_bit 32 (ucast high) OR ucast low, md))"

lemma split_div:
  fixes h l b M :: nat
  assumes "0 < b"
  shows "(h * M + l) div b = h div b * M + (h mod b * M + l) div b"
    and "(h * M + l) mod b = (h mod b * M + l) mod b"
proof -
  have "h * M + l = (h mod b * M + l) + b * (h div b * M)"
    by (subst (1) mult_div_mod_eq [of b h, symmetric]) (simp only: algebra_simps)
  then show "(h * M + l) div b = h div b * M + (h mod b * M + l) div b"
    "(h * M + l) mod b = (h mod b * M + l) mod b"
    using assms by (simp_all only: div_mult_self2 mod_mult_self2 neq0_conv)
qed

lemma divl_upper:
  assumes "0 < unat base" "upper < base"
  shows "divl upper low base =
    Some (word_of_nat ((unat upper * 2 ^ 32 + unat low) div unat base),
          word_of_nat ((unat upper * 2 ^ 32 + unat low) mod unat base))"
proof -
  have "Suc (unat upper) * 2 ^ 32 \<le> unat base * 2 ^ 32"
    using assms(2) by (intro mult_right_mono) (simp_all add: word_less_nat_alt)
  then have "unat upper * 2 ^ 32 + unat low < unat base * 2 ^ 32"
    using unat_u32_less [of low] by simp
  then have "(unat upper * 2 ^ 32 + unat low) div unat base < 2 ^ 32"
    by (simp only: less_mult_imp_div_less mult.commute)
  with assms show ?thesis by (simp add: divl_def Let_def not_le)
qed

lemma unat_halves:
  "unat (n :: u64) = unat (ucast (drop_bit 32 n) :: u32) * 2 ^ 32 + unat (ucast n :: u32)"
proof -
  have "unat n < 2 ^ 64" by (rule unat_u64_less)
  then have "unat n div 2 ^ 32 < 2 ^ 32" by (intro less_mult_imp_div_less) simp
  then have "unat (ucast (drop_bit 32 n) :: u32) = unat n div 2 ^ 32"
    by (simp add: unsigned_ucast_eq unsigned_drop_bit_eq drop_bit_eq_div take_bit_eq_mod unat_div)
  moreover have "unat (ucast n :: u32) = unat n mod 2 ^ 32"
    by (simp add: unsigned_ucast_eq take_bit_eq_mod)
  ultimately show ?thesis by simp
qed

lemma unat_join: "unat (push_bit 32 (ucast x) OR ucast y :: u64) = unat (x :: u32) * 2 ^ 32 + unat (y :: u32)"
proof -
  let ?n = "push_bit 32 (ucast x) OR ucast y :: u64"
  have "(ucast ?n :: u32) = y" by (rule bit_eqI) (auto simp: bit_simps)
  moreover have "(ucast (drop_bit 32 ?n) :: u32) = x"
    by (rule bit_eqI) (auto simp: bit_simps dest: bit_imp_le_length)
  ultimately show ?thesis using unat_halves [of ?n] by simp
qed

lemma unat_ucast_u64: "unat (ucast (w :: u32) :: u64) = unat w"
  using unat_u32_less [of w] by (simp add: unsigned_ucast_eq take_bit_eq_mod)

lemma unat_ucast_u32: "unat (ucast (w :: u64) :: u32) = unat w mod 2 ^ 32"
  by (simp add: unsigned_ucast_eq take_bit_eq_mod)

lemma do_div_correct:
  assumes "base \<noteq> 0"
  shows "do_div n base = Some (n div ucast base, ucast (n mod ucast base))"
proof -
  define h l where "h = (ucast (drop_bit 32 n) :: u32)" and "l = (ucast n :: u32)"
  have b: "0 < unat base" using assms by (simp add: unat_gt_0)
  have "h mod base < base" using assms by (simp add: word_mod_less_divisor word_gt_0)
  then have d: "divl (h mod base) l base =
      Some (word_of_nat ((unat (h mod base) * 2 ^ 32 + unat l) div unat base),
            word_of_nat ((unat (h mod base) * 2 ^ 32 + unat l) mod unat base))" (is "_ = Some (?q, ?r)")
    by (rule divl_upper [OF b])
  have hi: "(if h \<noteq> 0 then (h mod base, h div base) else (h, h)) = (h mod base, h div base)" by auto
  have r: "do_div n base = Some (push_bit 32 (ucast (h div base)) OR ucast ?q, ?r)"
    unfolding do_div_def Let_def h_def [symmetric] l_def [symmetric] hi using d by simp
  have n: "unat n = unat h * 2 ^ 32 + unat l" unfolding h_def l_def by (rule unat_halves)
  have q: "(unat (h mod base) * 2 ^ 32 + unat l) div unat base < 2 ^ 32"
    using d by (auto simp: divl_def Let_def split: if_splits)
  have ub: "unat (ucast base :: u64) = unat base" by (rule unat_ucast_u64)
  have "unat (push_bit 32 (ucast (h div base)) OR ucast ?q :: u64) = unat (n div ucast base)"
    unfolding unat_join unat_div ub n using q split_div(1) [OF b, of "unat h" "2 ^ 32" "unat l"]
    by (simp add: unat_div unat_mod unat_of_nat)
  moreover have "unat ?r = unat (ucast (n mod ucast base) :: u32)"
  proof -
    have "unat n mod unat base < 2 ^ 32"
      using mod_less_divisor [OF b, of "unat n"] unat_u32_less [of base] by linarith
    then have "unat (ucast (n mod ucast base) :: u32) = unat n mod unat base"
      by (simp only: unat_ucast_u32 unat_mod ub mod_less)
    moreover have "unat ?r = unat n mod unat base"
      using split_div(2) [OF b, of "unat h" "2 ^ 32" "unat l"] n unat_u32_less [of base]
        mod_less_divisor [OF b, of "unat (h mod base) * 2 ^ 32 + unat l"]
      by (simp add: unat_of_nat unat_mod)
    ultimately show ?thesis by simp
  qed
  ultimately show ?thesis unfolding r by (simp add: word_unat_eq_iff)
qed

section \<open>Hashing and random numbers\<close>

definition GOLDEN_RATIO_PRIME_32 :: u32 where "GOLDEN_RATIO_PRIME_32 = 0x9e370001"

definition hash32 :: "u32 \<Rightarrow> nat \<Rightarrow> u32" where
  "hash32 val bits = drop_bit (32 - bits) (val * GOLDEN_RATIO_PRIME_32)"

lemma hash32_range: "bits \<le> 32 \<Longrightarrow> unat (hash32 val bits) < 2 ^ bits"
proof -
  assume "bits \<le> 32"
  then have "(2::nat) ^ 32 = 2 ^ bits * 2 ^ (32 - bits)" by (simp flip: power_add)
  then have "unat (val * GOLDEN_RATIO_PRIME_32) < 2 ^ bits * 2 ^ (32 - bits)"
    using unat_u32_less [of "val * GOLDEN_RATIO_PRIME_32"] by simp
  then show ?thesis
    unfolding hash32_def unat_drop_bit_eq by (simp add: drop_bit_eq_div less_mult_imp_div_less)
qed

text \<open>The state of the generator is its seed; \<open>RAND_MAX + 1\<close> is a power of two.\<close>

definition RAND_MAX :: u32 where "RAND_MAX = 2147483647"

definition rand :: "u64 \<Rightarrow> (int \<times> u64) option" where
  "rand nxt =
     (let nxt = (nxt * 0x5DEECE66D + 0xB) AND (push_bit 48 1 - 1);
          result = drop_bit 12 nxt
      in case do_div result (RAND_MAX + 1) of None \<Rightarrow> None | Some (_, md) \<Rightarrow> Some (sint md, nxt))"

definition srand :: "u32 \<Rightarrow> u64" where
  "srand seed = ucast seed"

text \<open>
  C13: The 64-by-32-bit division \<open>do_div\<close>, built from two 32-bit divisions, never raises a divide fault
  for a non-zero divisor and yields the true quotient and remainder.
\<close>

theorem do_div_exact:
  assumes "base \<noteq> 0"
  shows "do_div n base = Some (n div ucast base, ucast (n mod ucast base))"
  by (rule do_div_correct [OF assms])

theorem do_div_exact_witness: "do_div 0xFFFFFFFFFFFFFFFF 10 = Some (1844674407370955161, 5)"
  using do_div_exact [of 10 "0xFFFFFFFFFFFFFFFF"] by simp

text \<open>C14: \<open>rand\<close> always returns, with a value between 0 and \<open>RAND_MAX\<close>.\<close>

theorem rand_range:
  "\<exists>v nxt'. rand nxt = Some (v, nxt') \<and> 0 \<le> v \<and> v \<le> uint RAND_MAX \<and> nxt' < push_bit 48 1"
proof -
  define m where "m = (nxt * 0x5DEECE66D + 0xB) AND (push_bit 48 1 - 1)"
  define w where "w = (ucast (drop_bit 12 m mod (0x80000000 :: u64)) :: u32)"
  have "rand nxt = Some (sint w, m)"
    unfolding rand_def Let_def m_def [symmetric] by (simp add: do_div_correct RAND_MAX_def w_def)
  moreover have "unat (drop_bit 12 m mod 0x80000000) < 0x80000000"
    by (simp add: unat_mod)
  then have "unat w < 0x80000000" by (simp add: w_def unat_ucast_u32)
  then have "w < 0x80000000" by (simp add: word_less_nat_alt)
  then have "uint w < 0x80000000" by (simp add: word_less_def)
  then have "sint w = uint w" "uint w \<le> uint RAND_MAX"
    using signed_take_bit_int_eq_self [of 31 "uint w"] order_trans [of "- (2 ^ 31)" 0 "uint w"]
    by (simp_all add: sint_uint RAND_MAX_def)
  moreover have "m \<le> push_bit 48 1 - 1" unfolding m_def by (rule word_and_le1)
  then have "m < push_bit 48 1" by (rule le_less_trans) simp
  ultimately show ?thesis by simp
qed

end
