(* ===== verification/Printfmt.thy ===== *)
theory Printfmt
  imports Kstring Kdiv
begin

text \<open>
  Number parsing of libs/string.c and formatted output of libs/printfmt.c.  The output of a formatting
  function is the list of the bytes it passes to \<open>putch\<close>.  Arguments are typed values; taking an
  argument of another type or past the end is \<open>None\<close>, as is an index outside a table.
\<close>

definition bytes :: "string \<Rightarrow> cstring" where
  "bytes s = map of_char s"

section \<open>Reading numbers\<close>

text \<open>\<open>long\<close> is a 32-bit word and wraps.  The result is the value and the rest of the string.\<close>

fun skip_blanks :: "cstring \<Rightarrow> cstring" where
  "skip_blanks [] = []"
| "skip_blanks (c # s) = (if c = 0x20 \<or> c = 0x09 then skip_blanks s else c # s)"

definition digit_val :: "u8 \<Rightarrow> int option" where
  "digit_val c =
     (if 0x30 \<le> c \<and> c \<le> 0x39 then Some (uint c - 0x30)
      else if 0x61 \<le> c \<and> c \<le> 0x7A then Some (uint c - 0x61 + 10)
      else if 0x41 \<le> c \<and> c \<le> 0x5A then Some (uint c - 0x41 + 10)
      else None)"

fun strtol_digits :: "int \<Rightarrow> cstring \<Rightarrow> u32 \<Rightarrow> u32 \<times> cstring" where
  "strtol_digits base [] val = (val, [])"
| "strtol_digits base (c # s) val =
     (case digit_val c of
        None \<Rightarrow> (val, c # s)
      | Some dig \<Rightarrow>
          if dig \<ge> base then (val, c # s)
          else strtol_digits base s (val * word_of_int base + word_of_int dig))"

definition strtol :: "cstring \<Rightarrow> int \<Rightarrow> int \<times> cstring" where
  "strtol s base =
     (let s = skip_blanks s;
          (neg, s) = (if at0 s = 0x2B then (False, tl s) else if at0 s = 0x2D then (True, tl s) else (False, s));
          (s, base) =
            (if (base = 0 \<or> base = 16) \<and> at0 s = 0x30 \<and> at0 (tl s) = 0x78 then (tl (tl s), 16)
             else if base = 0 \<and> at0 s = 0x30 then (tl s, 8)
             else if base = 0 then (s, 10) else (s, base));
          (val, s) = strtol_digits base s 0
      in (sint (if neg then - val else val), s))"

section \<open>Printing numbers\<close>

definition hexdigit :: "nat \<Rightarrow> u8 option" where
  "hexdigit i = (if i < 16 then Some (bytes ''0123456789abcdef'' ! i) else None)"

partial_function (option) printnum :: "u64 \<Rightarrow> u32 \<Rightarrow> int \<Rightarrow> u8 \<Rightarrow> cstring option" where
  "printnum num base width padc =
     do { (result, md) \<leftarrow> do_div num base;
          pre \<leftarrow> (if num \<ge> ucast base then printnum result base (width - 1) padc
                 else Some (replicate (nat (width - 1)) padc));
          d \<leftarrow> hexdigit (unat md);
          Some (pre @ [d]) }"

section \<open>The formatter\<close>

datatype va_arg = VA_int u32 | VA_ll u64 | VA_str "cstring option"

definition va_int :: "va_arg list \<Rightarrow> (u32 \<times> va_arg list) option" where
  "va_int ap = (case ap of VA_int v # ap \<Rightarrow> Some (v, ap) | _ \<Rightarrow> None)"

definition va_ll :: "va_arg list \<Rightarrow> (u64 \<times> va_arg list) option" where
  "va_ll ap = (case ap of VA_ll v # ap \<Rightarrow> Some (v, ap) | _ \<Rightarrow> None)"

definition va_str :: "va_arg list \<Rightarrow> (cstring option \<times> va_arg list) option" where
  "va_str ap = (case ap of VA_str v # ap \<Rightarrow> Some (v, ap) | _ \<Rightarrow> None)"

definition getuint :: "va_arg list \<Rightarrow> nat \<Rightarrow> (u64 \<times> va_arg list) option" where
  "getuint ap lflag =
     (if lflag \<ge> 2 then va_ll ap else do { (v, ap) \<leftarrow> va_int ap; Some (ucast v, ap) })"

definition getint :: "va_arg list \<Rightarrow> nat \<Rightarrow> (u64 \<times> va_arg list) option" where
  "getint ap lflag =
     (if lflag \<ge> 2 then va_ll ap else do { (v, ap) \<leftarrow> va_int ap; Some (scast v, ap) })"

definition error_string :: "int \<Rightarrow> string option" where
  "error_string i = map_of
     [(errno_code E_UNSPECIFIED, ''unspecified error''), (errno_code E_BAD_PROC, ''bad process''),
      (errno_code E_INVAL, ''invalid parameter''), (errno_code E_NO_MEM, ''out of memory''),
      (errno_code E_NO_FREE_PROC, ''out of processes''), (errno_code E_FAULT, ''segmentation fault''),
      (errno_code E_INVAL_ELF, ''invalid elf file''), (errno_code E_KILLED, ''process is killed''),
      (errno_code E_PANIC, ''panic failure''), (errno_code E_NO_DEV, ''no such device''),
      (errno_code E_NA_DEV, ''device not available''), (errno_code E_BUSY, ''device/file is busy''),
      (errno_code E_NOENT, ''no such file or directory''), (errno_code E_ISDIR, ''is a directory''),
      (errno_code E_NOTDIR, ''not a directory''), (errno_code E_XDEV, ''cross device link''),
      (errno_code E_UNIMP, ''unimplemented feature''), (errno_code E_SEEK, ''illegal seek''),
      (errno_code E_MAX_OPEN, ''too many files are open''),
      (errno_code E_EXISTS, ''file or directory already exists''),
      (errno_code E_NOTEMPTY, ''directory is not empty'')] i"

record fmt_spec =
  padc :: u8
  width :: int
  precision :: int
  lflag :: nat
  altflag :: bool

definition fmt_spec0 :: fmt_spec where
  "fmt_spec0 = \<lparr>padc = 0x20, width = -1, precision = -1, lflag = 0, altflag = False\<rparr>"

definition process_precision :: "int \<Rightarrow> fmt_spec \<Rightarrow> fmt_spec" where
  "process_precision p st =
     (let st = st\<lparr>precision := p\<rparr>
      in if width st < 0 then st\<lparr>width := p, precision := -1\<rparr> else st)"

fun read_width :: "int \<Rightarrow> cstring \<Rightarrow> int \<times> cstring" where
  "read_width p [] = (p, [])"
| "read_width p (c # s) =
     (if c < 0x30 \<or> c > 0x39 then (p, c # s) else read_width (p * 10 + uint c - 0x30) s)"

lemma length_read_width: "length (snd (read_width p s)) \<le> length s"
  by (induction p s rule: read_width.induct) auto

text \<open>
  The flags of an escape sequence: \<open>fmt_flag\<close> is one round of the switch for the cases that jump back
  to \<open>reswitch\<close> (\<open>Some None\<close> for any other character), \<open>fmt_flags\<close> the loop up to the conversion
  character.
\<close>

definition fmt_flag ::
  "fmt_spec \<Rightarrow> u8 \<Rightarrow> cstring \<Rightarrow> va_arg list \<Rightarrow> (fmt_spec \<times> cstring \<times> va_arg list) option option"
where
  "fmt_flag st c s ap =
     (if c = 0x2D then Some (Some (st\<lparr>padc := 0x2D\<rparr>, s, ap))
      else if c = 0x30 then Some (Some (st\<lparr>padc := 0x30\<rparr>, s, ap))
      else if 0x31 \<le> c \<and> c \<le> 0x39 then
        (let (p, s) = read_width (uint c - 0x30) s in Some (Some (process_precision p st, s, ap)))
      else if c = 0x2A then
        do { (v, ap) \<leftarrow> va_int ap; Some (Some (process_precision (sint v) st, s, ap)) }
      else if c = 0x2E then Some (Some (if width st < 0 then st\<lparr>width := 0\<rparr> else st, s, ap))
      else if c = 0x23 then Some (Some (st\<lparr>altflag := True\<rparr>, s, ap))
      else if c = 0x6C then Some (Some (st\<lparr>lflag := lflag st + 1\<rparr>, s, ap))
      else Some None)"

lemma fmt_flag_length: "fmt_flag st c s ap = Some (Some (st', s', ap')) \<Longrightarrow> length s' \<le> length s"
  using length_read_width [of "uint c - 0x30" s]
  by (auto simp: fmt_flag_def Option.bind_eq_Some_conv split: if_splits prod.splits)

function fmt_flags ::
  "fmt_spec \<Rightarrow> cstring \<Rightarrow> va_arg list \<Rightarrow> (fmt_spec \<times> u8 \<times> cstring \<times> va_arg list) option"
where
  "fmt_flags st [] ap = Some (st, 0, [], ap)"
| "fmt_flags st (c # s) ap =
     (case fmt_flag st c s ap of
        None \<Rightarrow> None
      | Some None \<Rightarrow> Some (st, c, s, ap)
      | Some (Some (st', s', ap')) \<Rightarrow> fmt_flags st' s' ap')"
  by pat_completeness auto
termination
  by (relation "measure (\<lambda>(st, s, ap). length s)") (auto dest: fmt_flag_length)

lemma fmt_flags_length: "fmt_flags st s ap = Some (st', c, s', ap') \<Longrightarrow> length s' \<le> length s"
  by (induction st s ap rule: fmt_flags.induct)
    (fastforce split: option.splits prod.splits dest: fmt_flag_length)+

text \<open>The conversions.  \<open>None\<close> in the second component of \<open>fmt_conv\<close> is the default case.\<close>

definition fmt_number :: "fmt_spec \<Rightarrow> u64 \<Rightarrow> u32 \<Rightarrow> cstring option" where
  "fmt_number st num base = printnum num base (width st) (padc st)"

definition fmt_decimal :: "fmt_spec \<Rightarrow> u64 \<Rightarrow> cstring option" where
  "fmt_decimal st num =
     (if sint num < 0 then do { ds \<leftarrow> fmt_number st (- num) 10; Some (0x2D # ds) }
      else fmt_number st num 10)"

text \<open>
  Strings: pad on the left unless \<open>-\<close> was given, print at most \<open>precision\<close> characters, pad on the
  right.  A negative precision is no limit, both for \<open>strnlen\<close> (a huge \<open>size_t\<close>) and for the loop.
\<close>

definition fmt_string :: "fmt_spec \<Rightarrow> cstring \<Rightarrow> cstring" where
  "fmt_string st p =
     (let limit = (if precision st < 0 then length p else nat (precision st));
          lpad = width st > 0 \<and> padc st \<noteq> 0x2D;
          w = (if lpad then width st - int (strnlen p limit) else width st);
          left = (if lpad then replicate (nat w) (padc st) else []);
          w = (if lpad \<and> w > 0 then 0 else w);
          out = take limit (take (strlen p) p);
          w = w - int (length out)
      in left @ map (\<lambda>ch. if altflag st \<and> (ch < 0x20 \<or> ch > 0x7E) then 0x3F else ch) out @
         replicate (nat w) 0x20)"

definition fmt_error :: "u32 \<Rightarrow> cstring option" where
  "fmt_error v =
     (let err = (if sint v < 0 then - v else v)
      in if sint err > MAXERROR \<or> error_string (sint err) = None
         then do { ds \<leftarrow> fmt_decimal fmt_spec0 (scast err); Some (bytes ''error '' @ ds) }
         else Some (fmt_string fmt_spec0 (bytes (the (error_string (sint err))))))"

definition fmt_conv ::
  "fmt_spec \<Rightarrow> u8 \<Rightarrow> va_arg list \<Rightarrow> (cstring option \<times> va_arg list) option"
where
  "fmt_conv st c ap =
     (if c = 0x63 then do { (v, ap) \<leftarrow> va_int ap; Some (Some [ucast v], ap) }
      else if c = 0x65 then do { (v, ap) \<leftarrow> va_int ap; out \<leftarrow> fmt_error v; Some (Some out, ap) }
      else if c = 0x73 then
        do { (v, ap) \<leftarrow> va_str ap;
             Some (Some (fmt_string st (case v of None \<Rightarrow> bytes ''(null)'' | Some p \<Rightarrow> p)), ap) }
      else if c = 0x64 then
        do { (v, ap) \<leftarrow> getint ap (lflag st); out \<leftarrow> fmt_decimal st v; Some (Some out, ap) }
      else if c = 0x75 then
        do { (v, ap) \<leftarrow> getuint ap (lflag st); out \<leftarrow> fmt_number st v 10; Some (Some out, ap) }
      else if c = 0x6F then
        do { (v, ap) \<leftarrow> getuint ap (lflag st); out \<leftarrow> fmt_number st v 8; Some (Some out, ap) }
      else if c = 0x70 then
        do { (v, ap) \<leftarrow> va_int ap; out \<leftarrow> fmt_number st (ucast v) 16; Some (Some (bytes ''0x'' @ out), ap) }
      else if c = 0x78 then
        do { (v, ap) \<leftarrow> getuint ap (lflag st); out \<leftarrow> fmt_number st v 16; Some (Some out, ap) }
      else if c = 0x25 then Some (Some [c], ap)
      else Some (None, ap))"

text \<open>
  An unknown conversion prints the \<open>%\<close> and goes on right after it, so the rest of the escape sequence
  is printed as it stands.
\<close>

function vprintfmt :: "cstring \<Rightarrow> va_arg list \<Rightarrow> cstring option" where
  "vprintfmt [] ap = Some []"
| "vprintfmt (ch # fmt) ap =
     (if ch = 0 then Some []
      else if ch \<noteq> 0x25 then do { out \<leftarrow> vprintfmt fmt ap; Some (ch # out) }
      else
        (case fmt_flags fmt_spec0 fmt ap of
           None \<Rightarrow> None
         | Some (st, c, rest, ap) \<Rightarrow>
             (case fmt_conv st c ap of
                None \<Rightarrow> None
              | Some (None, ap) \<Rightarrow> do { out \<leftarrow> vprintfmt fmt ap; Some (0x25 # out) }
              | Some (Some s, ap) \<Rightarrow> do { out \<leftarrow> vprintfmt rest ap; Some (s @ out) })))"
  by pat_completeness auto
termination
  by (relation "measure (\<lambda>(fmt, ap). length fmt)") (auto dest: fmt_flags_length)

section \<open>Formatting into a buffer\<close>

text \<open>
  \<open>snprintf\<close> counts every character but stores only those before \<open>ebuf\<close>, the last byte of the
  buffer.  Pointers are integers here because \<open>ebuf\<close> lies before the buffer when the size is 0.
\<close>

record sprintbuf =
  sp_buf :: int
  sp_ebuf :: int
  sp_cnt :: int

definition sprintputch :: "u8 \<Rightarrow> sprintbuf \<times> memory \<Rightarrow> sprintbuf \<times> memory" where
  "sprintputch ch = (\<lambda>(b, m).
     let b = b\<lparr>sp_cnt := sp_cnt b + 1\<rparr>
     in if sp_buf b < sp_ebuf b then (b\<lparr>sp_buf := sp_buf b + 1\<rparr>, m(nat (sp_buf b) := ch)) else (b, m))"

definition vsnprintf :: "nat \<Rightarrow> nat \<Rightarrow> cstring \<Rightarrow> va_arg list \<Rightarrow> memory \<Rightarrow> (int \<times> memory) option" where
  "vsnprintf str sz fmt ap m =
     (let b = \<lparr>sp_buf = int str, sp_ebuf = int str + int sz - 1, sp_cnt = 0\<rparr>
      in if str = 0 \<or> sp_buf b > sp_ebuf b then Some (err E_INVAL, m)
         else do { out \<leftarrow> vprintfmt fmt ap;
                   let (b, m) = fold sprintputch out (b, m);
                   Some (sp_cnt b, m(nat (sp_buf b) := 0)) })"

lemma fold_sprintputch:
  assumes "sp_buf b = int p" "sp_ebuf b = int p + int k"
  shows "fold sprintputch out (b, m) =
    (b\<lparr>sp_buf := int p + int (min k (length out)), sp_cnt := sp_cnt b + int (length out)\<rparr>,
     \<lambda>a. if p \<le> a \<and> a < p + min k (length out) then out ! (a - p) else m a)"
  using assms
proof (induction out arbitrary: b m p k)
  case Nil
  then show ?case by (cases b) (auto simp: fun_eq_iff)
next
  case (Cons c out)
  show ?case
  proof (cases k)
    case 0
    then have "sprintputch c (b, m) = (b\<lparr>sp_cnt := sp_cnt b + 1\<rparr>, m)"
      using Cons.prems by (simp add: sprintputch_def Let_def)
    then show ?thesis
      using Cons.IH [of "b\<lparr>sp_cnt := sp_cnt b + 1\<rparr>" p 0 m] Cons.prems 0 by (auto simp: fun_eq_iff)
  next
    case (Suc j)
    let ?b = "b\<lparr>sp_buf := int (Suc p), sp_cnt := sp_cnt b + 1\<rparr>"
    have "sprintputch c (b, m) = (?b, m(p := c))"
      using Cons.prems Suc by (simp add: sprintputch_def Let_def)
    moreover have "fold sprintputch out (?b, m(p := c)) =
        (?b\<lparr>sp_buf := int (Suc p) + int (min j (length out)), sp_cnt := sp_cnt ?b + int (length out)\<rparr>,
         \<lambda>a. if Suc p \<le> a \<and> a < Suc p + min j (length out) then out ! (a - Suc p) else (m(p := c)) a)"
      using Cons.prems Suc by (intro Cons.IH) simp_all
    ultimately show ?thesis
      using Suc by (auto simp: fun_eq_iff nth_Cons' Suc_le_eq)
  qed
qed

text \<open>
  C16: \<open>vsnprintf\<close> never writes outside the buffer it is given.  For a non-null buffer of positive size
  it stores the formatted text cut to \<open>sz - 1\<close> bytes followed by a NUL, leaves all other memory as it
  was, and returns the length of the uncut text.
\<close>

theorem vsnprintf_bounded:
  assumes "str \<noteq> 0" "0 < sz" "vprintfmt fmt ap = Some out"
  shows "\<exists>m'. vsnprintf str sz fmt ap m = Some (int (length out), m') \<and>
    (\<forall>a. m' a = (let k = min (sz - 1) (length out)
                 in if a < str \<or> a > str + k then m a else if a = str + k then 0 else out ! (a - str)))"
proof -
  let ?b = "\<lparr>sp_buf = int str, sp_ebuf = int str + int sz - 1, sp_cnt = 0\<rparr>"
  have f: "fold sprintputch out (?b, m) =
    (?b\<lparr>sp_buf := int str + int (min (sz - 1) (length out)), sp_cnt := sp_cnt ?b + int (length out)\<rparr>,
     \<lambda>a. if str \<le> a \<and> a < str + min (sz - 1) (length out) then out ! (a - str) else m a)"
    using assms(2) by (intro fold_sprintputch) (simp_all add: of_nat_diff)
  have "nat (int str + int (min (sz - 1) (length out))) = str + min (sz - 1) (length out)" by simp
  then show ?thesis
    using assms f by (simp add: vsnprintf_def Let_def)
qed

theorem vsnprintf_bounded_witness:
  "\<exists>m'. vsnprintf 100 4 (bytes ''abcdef'') [] (\<lambda>_. 0xFF) = Some (6, m') \<and> m' 102 = 0x63 \<and> m' 103 = 0 \<and> m' 104 = 0xFF"
proof -
  have "vprintfmt (bytes ''abcdef'') [] = Some (bytes ''abcdef'')"
    by (simp add: bytes_def)
  from vsnprintf_bounded [OF _ _ this, of 100 4 "\<lambda>_. 0xFF"] show ?thesis
    by (auto simp: bytes_def)
qed

section \<open>Printing and reading back\<close>

text \<open>The digits of a number, most significant first.\<close>

fun digits :: "nat \<Rightarrow> nat \<Rightarrow> nat list" where
  "digits b n = (if b < 2 \<or> n < b then [n] else digits b (n div b) @ [n mod b])"

declare digits.simps [simp del]

definition hexbyte :: "nat \<Rightarrow> u8" where
  "hexbyte d = bytes ''0123456789abcdef'' ! d"

lemma digits_less: "2 \<le> b \<Longrightarrow> d \<in> set (digits b n) \<Longrightarrow> d < b"
  by (induction b n rule: digits.induct) (subst (asm) (2) digits.simps, auto split: if_splits)

lemma digits_nonempty: "digits b n \<noteq> []"
  by (subst digits.simps) simp

lemma digits_value: "2 \<le> b \<Longrightarrow> foldl (\<lambda>v d. v * b + d) 0 (digits b n) = n"
  by (induction b n rule: digits.induct) (subst digits.simps, auto)

lemma printnum_digits:
  assumes "2 \<le> unat base" "unat base \<le> 16"
  shows "printnum num base w pad =
    Some (replicate (nat (w - int (length (digits (unat base) (unat num))))) pad @
          map hexbyte (digits (unat base) (unat num)))"
proof (induction "unat num" arbitrary: num w rule: less_induct)
  case less
  have b0: "base \<noteq> 0" using assms(1) by auto
  have ub: "unat (ucast base :: u64) = unat base" by (rule unat_ucast_u64)
  have le: "num \<ge> ucast base \<longleftrightarrow> unat base \<le> unat num" by (simp add: word_le_nat_alt ub)
  have mlt: "unat num mod unat base < unat base" using assms by simp
  moreover have "unat base < 2 ^ 32" using assms by simp
  ultimately have "unat num mod unat base < 2 ^ 32" by (rule less_trans)
  then have md: "unat (ucast (num mod ucast base) :: u32) = unat num mod unat base"
    by (simp only: unat_ucast_u32 unat_mod ub mod_less)
  have hd: "hexdigit (unat num mod unat base) = Some (hexbyte (unat num mod unat base))"
    using less_le_trans [OF mlt assms(2)] by (simp add: hexdigit_def hexbyte_def)
  have q: "unat (num div ucast base) = unat num div unat base" by (simp add: unat_div ub)
  show ?case
  proof (cases "unat base \<le> unat num")
    case True
    have "unat (num div ucast base) < unat num"
      unfolding q using True assms by (intro div_less_dividend) auto
    note IH = less [OF this, of "w - 1"]
    have dg: "digits (unat base) (unat num) =
        digits (unat base) (unat num div unat base) @ [unat num mod unat base]"
      using True assms by (subst digits.simps) simp
    show ?thesis
      unfolding dg using True IH
      by (subst printnum.simps) (simp add: do_div_correct [OF b0] le md hd q diff_diff_eq)
  next
    case False
    then have "digits (unat base) (unat num) = [unat num]" by (simp add: digits.simps)
    with False hd show ?thesis
      by (subst printnum.simps) (simp add: do_div_correct [OF b0] le md)
  qed
qed

lemma digit_val_hexbyte: "d < 16 \<Longrightarrow> digit_val (hexbyte d) = Some (int d)"
proof -
  have "\<forall>d \<in> set [0..<16]. digit_val (hexbyte d) = Some (int d)" by code_simp
  then show "d < 16 \<Longrightarrow> digit_val (hexbyte d) = Some (int d)" by simp
qed

lemma hexbyte_not_special:
  "d < 16 \<Longrightarrow> hexbyte d \<notin> {0x20, 0x09, 0x2B, 0x2D, 0x78}"
proof -
  have "\<forall>d \<in> set [0..<16]. hexbyte d \<notin> {0x20, 0x09, 0x2B, 0x2D, 0x78}" by code_simp
  then show "d < 16 \<Longrightarrow> hexbyte d \<notin> {0x20, 0x09, 0x2B, 0x2D, 0x78}" by simp
qed

lemma strtol_digits_map:
  assumes "b \<le> 16" "\<And>d. d \<in> set ds \<Longrightarrow> d < b"
  shows "strtol_digits (int b) (map hexbyte ds) (word_of_nat v) =
    (word_of_nat (foldl (\<lambda>v d. v * b + d) v ds), [])"
  using assms(2)
proof (induction ds arbitrary: v)
  case (Cons d ds)
  have "d < b" "d < 16" using Cons.prems [of d] assms(1) by auto
  then have "strtol_digits (int b) (map hexbyte (d # ds)) (word_of_nat v) =
      strtol_digits (int b) (map hexbyte ds) (word_of_nat (v * b + d))"
    by (simp add: digit_val_hexbyte)
  also have "\<dots> = (word_of_nat (foldl (\<lambda>v d. v * b + d) (v * b + d) ds), [])"
    using Cons.prems by (intro Cons.IH) auto
  finally show ?case by simp
qed simp

lemma skip_blanks_replicate: "skip_blanks (replicate n 0x20 @ s) = skip_blanks s"
  by (induction n) auto

lemma sint_small: "n < 2 ^ 31 \<Longrightarrow> sint (word_of_nat n :: u32) = int n"
  by (simp add: signed_of_nat signed_take_bit_int_eq_self)

text \<open>
  C15: Printing and parsing are inverse.  A number below \<open>2 ^ 31\<close> printed by \<open>printnum\<close> in base 8, 10
  or 16 with any field width and blank padding is read back by \<open>strtol\<close> in the same base, with nothing
  left over.
\<close>

theorem strtol_printnum:
  assumes "b \<in> {8, 10, 16}" "unat num < 2 ^ 31"
  shows "\<exists>s. printnum num (word_of_nat b) w 0x20 = Some s \<and> strtol s (int b) = (int (unat num), [])"
proof -
  let ?ds = "digits b (unat num)"
  have b: "2 \<le> b" "b \<le> 16" "unat (word_of_nat b :: u32) = b" using assms(1) by auto
  have dl: "d < 16" if "d \<in> set ?ds" for d using digits_less [OF b(1) that] b(2) by simp
  obtain d ds where ds: "?ds = d # ds" using digits_nonempty [of b "unat num"] by (cases ?ds) auto
  have h: "hexbyte d \<notin> {0x20, 0x09, 0x2B, 0x2D, 0x78}" using dl ds by (intro hexbyte_not_special) simp
  have x: "at0 (map hexbyte ds) \<noteq> 0x78"
    using dl ds hexbyte_not_special by (cases ds) auto
  let ?s = "replicate (nat (w - int (length ?ds))) 0x20 @ map hexbyte ?ds"
  have "skip_blanks ?s = map hexbyte ?ds"
    using h ds by (simp add: skip_blanks_replicate)
  moreover have "strtol_digits (int b) (map hexbyte ?ds) 0 = (word_of_nat (unat num), [])"
    using strtol_digits_map [OF b(2) digits_less [OF b(1)], where v = 0] digits_value [OF b(1)] by simp
  ultimately have "strtol ?s (int b) = (sint (word_of_nat (unat num) :: u32), [])"
    using h x ds assms(1) unfolding strtol_def Let_def by auto
  then show ?thesis
    using printnum_digits [of "word_of_nat b" num w "0x20"] b sint_small [OF assms(2)] by simp
qed

theorem strtol_printnum_witness:
  "\<exists>s. printnum 48879 16 8 0x20 = Some s \<and> strtol s 16 = (48879, [])"
  using strtol_printnum [of 16 48879 8] by simp

end
