(* ===== verification/Klist.thy ===== *)
theory Klist
  imports Kprelude
begin

text \<open>
  The intrusive doubly linked lists of libs/list.h.  A store maps the address of a list entry to
  its two pointers; every function of the header is a store transformer.  The second half relates
  a store to the sequence of entries that hang off a list head (\<open>ring\<close>) and shows that each
  pointer operation implements the sequence operation that the rest of the development uses
  (\<open>seq_add_before\<close> and its kin, where \<open>None\<close> names the list head itself).
\<close>

section \<open>The pointer operations\<close>

record 'a list_entry =
  le_prev :: 'a
  le_next :: 'a

type_synonym 'a lstore = "'a \<Rightarrow> 'a list_entry"

definition set_le_prev :: "'a \<Rightarrow> 'a \<Rightarrow> 'a lstore \<Rightarrow> 'a lstore" where
  "set_le_prev p v h = h(p := (h p)\<lparr>le_prev := v\<rparr>)"

definition set_le_next :: "'a \<Rightarrow> 'a \<Rightarrow> 'a lstore \<Rightarrow> 'a lstore" where
  "set_le_next p v h = h(p := (h p)\<lparr>le_next := v\<rparr>)"

definition list_init :: "'a \<Rightarrow> 'a lstore \<Rightarrow> 'a lstore" where
  "list_init elm h = set_le_prev elm elm (set_le_next elm elm h)"

definition list_next :: "'a lstore \<Rightarrow> 'a \<Rightarrow> 'a" where
  "list_next h listelm = le_next (h listelm)"

definition list_prev :: "'a lstore \<Rightarrow> 'a \<Rightarrow> 'a" where
  "list_prev h listelm = le_prev (h listelm)"

definition list_empty :: "'a lstore \<Rightarrow> 'a \<Rightarrow> bool" where
  "list_empty h list \<longleftrightarrow> le_next (h list) = list"

definition list_add_between :: "'a \<Rightarrow> 'a \<Rightarrow> 'a \<Rightarrow> 'a lstore \<Rightarrow> 'a lstore" where
  "list_add_between elm prv nxt h =
     (let h = set_le_prev nxt elm h;
          h = set_le_next prv elm h;
          h = set_le_next elm nxt h
      in set_le_prev elm prv h)"

definition list_del_between :: "'a \<Rightarrow> 'a \<Rightarrow> 'a lstore \<Rightarrow> 'a lstore" where
  "list_del_between prv nxt h = set_le_prev nxt prv (set_le_next prv nxt h)"

definition list_add_after :: "'a \<Rightarrow> 'a \<Rightarrow> 'a lstore \<Rightarrow> 'a lstore" where
  "list_add_after listelm elm h = list_add_between elm listelm (le_next (h listelm)) h"

definition list_add_before :: "'a \<Rightarrow> 'a \<Rightarrow> 'a lstore \<Rightarrow> 'a lstore" where
  "list_add_before listelm elm h = list_add_between elm (le_prev (h listelm)) listelm h"

definition list_add :: "'a \<Rightarrow> 'a \<Rightarrow> 'a lstore \<Rightarrow> 'a lstore" where
  "list_add listelm elm h = list_add_after listelm elm h"

definition list_del :: "'a \<Rightarrow> 'a lstore \<Rightarrow> 'a lstore" where
  "list_del listelm h = list_del_between (le_prev (h listelm)) (le_next (h listelm)) h"

definition list_del_init :: "'a \<Rightarrow> 'a lstore \<Rightarrow> 'a lstore" where
  "list_del_init listelm h = list_init listelm (list_del listelm h)"

lemmas klist_defs = list_init_def list_next_def list_prev_def list_empty_def
  list_add_between_def list_del_between_def list_add_after_def list_add_before_def list_add_def
  list_del_def list_del_init_def set_le_prev_def set_le_next_def Let_def

section \<open>Stores that hold a ring\<close>

definition linked :: "'a lstore \<Rightarrow> 'a \<Rightarrow> 'a \<Rightarrow> bool" where
  "linked h a b \<longleftrightarrow> le_next (h a) = b \<and> le_prev (h b) = a"

fun links :: "'a lstore \<Rightarrow> 'a list \<Rightarrow> bool" where
  "links h (x # y # zs) \<longleftrightarrow> linked h x y \<and> links h (y # zs)"
| "links h _ \<longleftrightarrow> True"

definition ring :: "'a lstore \<Rightarrow> 'a \<Rightarrow> 'a list \<Rightarrow> bool" where
  "ring h head xs \<longleftrightarrow> distinct (head # xs) \<and> links h (head # xs @ [head])"

lemma links_append:
  assumes "as \<noteq> []" "bs \<noteq> []"
  shows "links h (as @ bs) \<longleftrightarrow> links h as \<and> linked h (last as) (hd bs) \<and> links h bs"
  using assms by (induction h as rule: links.induct) (auto simp: neq_Nil_conv)

lemma links_cong:
  assumes "\<And>u. u \<in> set (butlast zs) \<Longrightarrow> le_next (h' u) = le_next (h u)"
    and "\<And>v. v \<in> set (tl zs) \<Longrightarrow> le_prev (h' v) = le_prev (h v)"
  shows "links h' zs = links h zs"
  using assms by (induction h zs rule: links.induct) (auto simp: linked_def)

lemma ring_split:
  "ring h head (xs @ ys) \<longleftrightarrow>
     distinct (head # xs @ ys) \<and> links h (head # xs) \<and>
     linked h (last (head # xs)) (hd (ys @ [head])) \<and> links h (ys @ [head])"
  using links_append [of "head # xs" "ys @ [head]" h] by (auto simp: ring_def)

lemma ring_first: "ring h head xs \<Longrightarrow> le_next (h head) = hd (xs @ [head])"
  using ring_split [of h head "[]" xs] by (simp add: linked_def)

lemma ring_last: "ring h head xs \<Longrightarrow> le_prev (h head) = last (head # xs)"
  using ring_split [of h head xs "[]"] by (simp add: linked_def)

lemma ring_next:
  "ring h head (xs @ x # ys) \<Longrightarrow> le_next (h x) = hd (ys @ [head])"
  using ring_split [of h head "xs @ [x]" ys] by (simp add: linked_def)

lemma ring_prev:
  "ring h head (xs @ x # ys) \<Longrightarrow> le_prev (h x) = last (head # xs)"
  using ring_split [of h head xs "x # ys"] by (simp add: linked_def)

section \<open>The sequence operations they implement\<close>

fun seq_add_after :: "'a option \<Rightarrow> 'a \<Rightarrow> 'a list \<Rightarrow> 'a list" where
  "seq_add_after None x xs = x # xs"
| "seq_add_after (Some y) x [] = [x]"
| "seq_add_after (Some y) x (z # zs) = (if z = y then z # x # zs else z # seq_add_after (Some y) x zs)"

fun seq_add_before :: "'a option \<Rightarrow> 'a \<Rightarrow> 'a list \<Rightarrow> 'a list" where
  "seq_add_before None x xs = xs @ [x]"
| "seq_add_before (Some y) x [] = [x]"
| "seq_add_before (Some y) x (z # zs) = (if z = y then x # z # zs else z # seq_add_before (Some y) x zs)"

definition seq_del :: "'a \<Rightarrow> 'a list \<Rightarrow> 'a list" where
  "seq_del x xs = remove1 x xs"

definition entry_ptr :: "'a \<Rightarrow> 'a option \<Rightarrow> 'a" where
  "entry_ptr head le = (case le of None \<Rightarrow> head | Some y \<Rightarrow> y)"

definition seq_pos :: "'a option \<Rightarrow> 'a list \<Rightarrow> bool" where
  "seq_pos le xs \<longleftrightarrow> (case le of None \<Rightarrow> True | Some y \<Rightarrow> y \<in> set xs)"

lemma seq_add_after_split: "y \<notin> set xs \<Longrightarrow> seq_add_after (Some y) x (xs @ y # ys) = xs @ y # x # ys"
  by (induction xs) auto

lemma seq_add_before_split: "y \<notin> set xs \<Longrightarrow> seq_add_before (Some y) x (xs @ y # ys) = xs @ x # y # ys"
  by (induction xs) auto

lemma set_seq_add_after [simp]: "set (seq_add_after le x xs) = insert x (set xs)"
  by (induction le x xs rule: seq_add_after.induct) auto

lemma set_seq_add_before [simp]: "set (seq_add_before le x xs) = insert x (set xs)"
  by (induction le x xs rule: seq_add_before.induct) auto

lemma length_seq_add_after [simp]: "length (seq_add_after le x xs) = Suc (length xs)"
  by (induction le x xs rule: seq_add_after.induct) auto

lemma length_seq_add_before [simp]: "length (seq_add_before le x xs) = Suc (length xs)"
  by (induction le x xs rule: seq_add_before.induct) auto

lemma set_seq_del [simp]: "distinct xs \<Longrightarrow> set (seq_del x xs) = set xs - {x}"
  by (simp add: seq_del_def)

section \<open>Refinement\<close>

lemma list_add_between_sel:
  assumes "x \<noteq> a" "x \<noteq> b"
  shows "le_next (list_add_between x a b h z) =
           (if z = x then b else if z = a then x else le_next (h z))"
    and "le_prev (list_add_between x a b h z) =
           (if z = x then a else if z = b then x else le_prev (h z))"
  using assms by (auto simp: list_add_between_def set_le_prev_def set_le_next_def)

lemma list_del_between_sel:
  "le_next (list_del_between a b h z) = (if z = a then b else le_next (h z))"
  "le_prev (list_del_between a b h z) = (if z = b then a else le_prev (h z))"
  by (auto simp: list_del_between_def set_le_prev_def set_le_next_def)

lemma ring_ends:
  assumes "distinct (head # xs @ ys)"
  shows "last (head # xs) \<notin> set (butlast (head # xs))" "hd (ys @ [head]) \<notin> set xs"
    and "last (head # xs) \<notin> set ys" "hd (ys @ [head]) \<notin> set (tl (ys @ [head]))"
proof -
  have "distinct (butlast (head # xs) @ [last (head # xs)])"
    using assms by (subst append_butlast_last_id) auto
  then show "last (head # xs) \<notin> set (butlast (head # xs))"
    by simp
  show "hd (ys @ [head]) \<notin> set xs" "hd (ys @ [head]) \<notin> set (tl (ys @ [head]))"
    using assms by (cases ys; auto)+
  have "last (head # xs) \<in> set (head # xs)"
    by (rule last_in_set) simp
  with assms show "last (head # xs) \<notin> set ys"
    by (auto simp del: last.simps)
qed

lemma ring_add_between:
  assumes r: "ring h head (xs @ ys)" and x: "x \<notin> set (head # xs @ ys)"
    and a: "a = last (head # xs)" and b: "b = hd (ys @ [head])"
  shows "ring (list_add_between x a b h) head (xs @ x # ys)" (is "ring ?h _ _")
proof -
  have d: "distinct (head # xs @ ys)"
    using r by (simp add: ring_split)
  note ends = ring_ends [OF d, folded a b]
  have "a \<in> set (head # xs)" "b \<in> set (ys @ [head])"
    unfolding a b by (rule last_in_set, simp) (rule hd_in_set, simp)
  with x have ne: "x \<noteq> a" "x \<noteq> b" by auto
  note sel = list_add_between_sel [OF ne]
  have "links ?h (head # xs) = links h (head # xs)"
    by (rule links_cong) (use ends x in \<open>auto simp: sel dest: in_set_butlastD split: if_splits\<close>)
  moreover have "links ?h (ys @ [head]) = links h (ys @ [head])"
    by (rule links_cong) (use ends x in \<open>auto simp: sel butlast_append dest: list.set_sel(2) [rotated]\<close>)
  moreover have "linked ?h a x" "linked ?h x b"
    using ne by (auto simp: linked_def sel)
  ultimately show ?thesis
    using r x d links_append [of "[x]" "ys @ [head]" ?h]
    by (simp only: ring_split a [symmetric] b [symmetric]) (auto simp: b)
qed

lemma ring_del_between:
  assumes r: "ring h head (xs @ x # ys)"
    and a: "a = last (head # xs)" and b: "b = hd (ys @ [head])"
  shows "ring (list_del_between a b h) head (xs @ ys)" (is "ring ?h _ _")
proof -
  have d: "distinct (head # xs @ ys)" and l: "links h (head # xs)" "links h ([x] @ (ys @ [head]))"
    using r by (auto simp: ring_split [of h head xs "x # ys"])
  note ends = ring_ends [OF d, folded a b] and sel = list_del_between_sel
  have "links ?h (head # xs) = links h (head # xs)"
    by (rule links_cong) (use ends in \<open>auto simp: sel\<close>)
  moreover have "links ?h (ys @ [head]) = links h (ys @ [head])"
    by (rule links_cong) (use ends in \<open>auto simp: sel butlast_append\<close>)
  moreover have "links h (ys @ [head])"
    using l(2) by (subst (asm) links_append) auto
  moreover have "linked ?h a b"
    by (simp add: linked_def sel)
  ultimately show ?thesis
    using d l by (simp only: ring_split a [symmetric] b [symmetric])
qed

lemma ring_list_init: "ring (list_init a h) a []"
  by (simp add: ring_def linked_def klist_defs)

lemma ring_list_empty: "ring h head xs \<Longrightarrow> list_empty h head \<longleftrightarrow> xs = []"
  using ring_first [of h head xs] by (cases xs) (auto simp: list_empty_def ring_def)

lemma ring_list_add_after:
  assumes "ring h head (xs @ ys)" "x \<notin> set (head # xs @ ys)" "a = last (head # xs)"
  shows "ring (list_add_after a x h) head (xs @ x # ys)"
proof -
  have "le_next (h a) = hd (ys @ [head])"
    using assms(1,3) by (simp only: ring_split linked_def)
  then show ?thesis
    unfolding list_add_after_def by (rule ring_add_between [OF assms])
qed

lemma ring_list_add_before:
  assumes "ring h head (xs @ ys)" "x \<notin> set (head # xs @ ys)" "b = hd (ys @ [head])"
  shows "ring (list_add_before b x h) head (xs @ x # ys)"
proof -
  have "le_prev (h b) = last (head # xs)"
    using assms(1,3) by (simp only: ring_split linked_def)
  then show ?thesis
    unfolding list_add_before_def by (rule ring_add_between [OF assms(1,2) _ assms(3)])
qed

lemma ring_list_del: "ring h head (xs @ x # ys) \<Longrightarrow> ring (list_del x h) head (xs @ ys)"
  unfolding list_del_def
  by (rule ring_del_between) (simp_all add: ring_next ring_prev del: last.simps)

lemma ring_frame:
  assumes "\<And>z. z \<in> set (head # xs) \<Longrightarrow> h' z = h z"
  shows "ring h' head xs = ring h head xs"
proof -
  have "links h' (head # xs @ [head]) = links h (head # xs @ [head])"
    by (rule links_cong) (use assms in \<open>auto simp: butlast_append split: if_splits\<close>)
  then show ?thesis by (simp add: ring_def)
qed

lemma list_del_frame:
  assumes "ring h head (xs @ x # ys)" "z \<notin> set (head # xs @ ys)"
  shows "list_del x h z = h z"
proof -
  have "last (head # xs) \<in> set (head # xs)" "hd (ys @ [head]) \<in> set (ys @ [head])"
    by (rule last_in_set, simp) (rule hd_in_set, simp)
  with assms have "z \<noteq> last (head # xs)" "z \<noteq> hd (ys @ [head])"
    by (auto simp del: last.simps)
  then show ?thesis
    using ring_next [OF assms(1)] ring_prev [OF assms(1)]
    by (simp add: list_del_def list_del_between_def set_le_prev_def set_le_next_def del: last.simps)
qed

text \<open>
  The same facts by position: \<open>le\<close> names the list head (\<open>None\<close>) or an entry of the list.
\<close>

lemma ring_seq_add_after:
  assumes "ring h head xs" "x \<notin> set (head # xs)" "seq_pos le xs"
  shows "ring (list_add_after (entry_ptr head le) x h) head (seq_add_after le x xs)"
proof (cases le)
  case None
  then show ?thesis
    using ring_list_add_after [of h head "[]" xs x head] assms by (simp add: entry_ptr_def)
next
  case (Some y)
  with assms(3) obtain as bs where xs: "xs = as @ y # bs" "y \<notin> set as"
    by (auto simp: seq_pos_def dest: split_list_first)
  then show ?thesis
    using ring_list_add_after [of h head "as @ [y]" bs x y] assms Some
    by (simp add: entry_ptr_def seq_add_after_split)
qed

lemma ring_seq_add_before:
  assumes "ring h head xs" "x \<notin> set (head # xs)" "seq_pos le xs"
  shows "ring (list_add_before (entry_ptr head le) x h) head (seq_add_before le x xs)"
proof (cases le)
  case None
  then show ?thesis
    using ring_list_add_before [of h head xs "[]" x head] assms by (simp add: entry_ptr_def)
next
  case (Some y)
  with assms(3) obtain as bs where xs: "xs = as @ y # bs" "y \<notin> set as"
    by (auto simp: seq_pos_def dest: split_list_first)
  then show ?thesis
    using ring_list_add_before [of h head as "y # bs" x y] assms Some
    by (simp add: entry_ptr_def seq_add_before_split)
qed

lemma ring_seq_del:
  assumes "ring h head xs" "x \<in> set xs"
  shows "ring (list_del x h) head (seq_del x xs)"
proof -
  obtain as bs where "xs = as @ x # bs" "x \<notin> set as"
    using assms(2) by (auto dest: split_list_first)
  then show ?thesis
    using ring_list_del [of h head as x bs] assms(1) by (simp add: seq_del_def remove1_append)
qed

lemma ring_seq_del_init:
  assumes "ring h head xs" "x \<in> set xs"
  shows "ring (list_del_init x h) head (seq_del x xs)" "ring (list_del_init x h) x []"
proof -
  have "x \<notin> set (head # seq_del x xs)"
    using assms by (auto simp: ring_def seq_del_def)
  then have "ring (list_init x (list_del x h)) head (seq_del x xs) = ring (list_del x h) head (seq_del x xs)"
    by (intro ring_frame) (auto simp: list_init_def set_le_prev_def set_le_next_def)
  with ring_seq_del [OF assms] show "ring (list_del_init x h) head (seq_del x xs)"
    by (simp add: list_del_init_def)
qed (simp add: list_del_init_def ring_list_init)

section \<open>The list as a queue\<close>

text \<open>
  What the users of a list head rely on when they keep a queue in it: new entries go to the tail, any
  entry can be taken out, and an entry that is on no list is its own successor.
\<close>

locale linked_queue =
  fixes rep :: "'s \<Rightarrow> 'n \<Rightarrow> 'n list \<Rightarrow> bool"
    and init :: "'n \<Rightarrow> 's \<Rightarrow> 's"
    and put :: "'n \<Rightarrow> 'n \<Rightarrow> 's \<Rightarrow> 's"
    and take_out :: "'n \<Rightarrow> 's \<Rightarrow> 's"
    and alone :: "'s \<Rightarrow> 'n \<Rightarrow> bool"
    and after :: "'s \<Rightarrow> 'n \<Rightarrow> 'n"
  assumes rep_distinct: "rep s head xs \<Longrightarrow> distinct (head # xs)"
    and init_law: "rep (init head s) head []"
    and put_law: "rep s head xs \<Longrightarrow> x \<notin> set (head # xs) \<Longrightarrow> rep (put head x s) head (xs @ [x])"
    and put_frame: "rep s head xs \<Longrightarrow> z \<notin> set (x # head # xs) \<Longrightarrow> alone (put head x s) z = alone s z"
    and take_out_law: "rep s head xs \<Longrightarrow> x \<in> set xs \<Longrightarrow> rep (take_out x s) head (remove1 x xs)"
    and take_out_alone: "rep s head xs \<Longrightarrow> x \<in> set xs \<Longrightarrow> alone (take_out x s) x"
    and take_out_frame: "rep s head xs \<Longrightarrow> x \<in> set xs \<Longrightarrow> z \<notin> set (head # xs) \<Longrightarrow>
      alone (take_out x s) z = alone s z"
    and alone_head: "rep s head xs \<Longrightarrow> alone s head \<longleftrightarrow> xs = []"
    and alone_entry: "rep s head xs \<Longrightarrow> x \<in> set xs \<Longrightarrow> \<not> alone s x"
    and after_head: "rep s head xs \<Longrightarrow> after s head = (if xs = [] then head else hd xs)"
begin

lemma put_all:
  "rep s head xs \<Longrightarrow> distinct (head # xs @ ys) \<Longrightarrow> rep (fold (put head) ys s) head (xs @ ys)"
proof (induction ys arbitrary: s xs)
  case (Cons y ys)
  then have "rep (put head y s) head (xs @ [y])" by (intro put_law) auto
  with Cons.IH [of "put head y s" "xs @ [y]"] Cons.prems show ?case by simp
qed simp

lemma take_first:
  assumes "rep s head (x # xs)"
  shows "after s head = x" "rep (take_out x s) head xs"
  using after_head [OF assms] take_out_law [OF assms, of x] by simp_all

end

lemma list_empty_add_before:
  assumes "ring h head xs" "z \<notin> set (x # head # xs)"
  shows "list_empty (list_add_before head x h) z = list_empty h z"
proof -
  have "le_prev (h head) \<in> set (head # xs)"
    using ring_last [OF assms(1)] last_in_set [of "head # xs"] by simp
  with assms show ?thesis
    by (auto simp: klist_defs)
qed

lemma list_empty_del_init:
  assumes "ring h head xs" "x \<in> set xs" "z \<notin> set (head # xs)"
  shows "list_empty (list_del_init x h) z = list_empty h z"
proof -
  obtain as bs where xs: "xs = as @ x # bs" using assms(2) by (auto dest: split_list)
  have "list_del x h z = h z"
    using list_del_frame [of h head as x bs z] assms xs by auto
  moreover have "z \<noteq> x" using assms by auto
  ultimately show ?thesis by (simp add: list_del_init_def list_empty_def list_init_def
        set_le_prev_def set_le_next_def)
qed

lemma list_empty_entry:
  assumes "ring h head xs" "x \<in> set xs"
  shows "\<not> list_empty h x"
proof -
  obtain as bs where xs: "xs = as @ x # bs" using assms(2) by (auto dest: split_list)
  have "hd (bs @ [head]) \<noteq> x"
    using assms(1) unfolding xs ring_def by (cases bs) auto
  then show ?thesis using ring_next [of h head as x bs] assms xs by (simp add: list_empty_def)
qed

interpretation klist: linked_queue ring list_init list_add_before list_del_init list_empty list_next
proof unfold_locales
  show "ring s head xs \<Longrightarrow> distinct (head # xs)" for s :: "'a lstore" and head xs
    by (simp add: ring_def)
  show "ring s head xs \<Longrightarrow> x \<notin> set (head # xs) \<Longrightarrow> ring (list_add_before head x s) head (xs @ [x])"
    for s :: "'a lstore" and head xs x
    using ring_seq_add_before [of s head xs x None] by (simp add: entry_ptr_def seq_pos_def)
  show "ring s head xs \<Longrightarrow> x \<in> set xs \<Longrightarrow> list_empty (list_del_init x s) x"
    for s :: "'a lstore" and head xs x
    using ring_seq_del_init(2) ring_list_empty by fastforce
  show "ring s head xs \<Longrightarrow> list_next s head = (if xs = [] then head else hd xs)"
    for s :: "'a lstore" and head xs
    using ring_first [of s head xs] by (simp add: list_next_def)
qed (rule ring_list_init list_empty_add_before ring_seq_del_init(1) [unfolded seq_del_def]
      list_empty_del_init ring_list_empty list_empty_entry; assumption)+

end
