(* ===== verification/Page.thy ===== *)
theory Page
  imports Klist
begin

text \<open>
  The bit operations of libs/atomic.h on a 32-bit word, the page descriptor of kern/mm/memlayout.h, and
  the interface \<open>struct pmm_manager\<close> of kern/mm/pmm.h with the contract its clients rely on.
  Page descriptors are named by their index in the \<open>pages\<close> array.  Counts of pages are natural
  numbers: they never exceed the number of physical pages, which is below \<open>2 ^ 20\<close>.
\<close>

section \<open>Atomic bit operations\<close>

definition set_bit_nr :: "nat \<Rightarrow> u32 \<Rightarrow> u32" where
  "set_bit_nr nr w = w OR push_bit nr 1"

definition clear_bit_nr :: "nat \<Rightarrow> u32 \<Rightarrow> u32" where
  "clear_bit_nr nr w = w AND NOT (push_bit nr 1)"

definition change_bit_nr :: "nat \<Rightarrow> u32 \<Rightarrow> u32" where
  "change_bit_nr nr w = w XOR push_bit nr 1"

definition test_bit_nr :: "nat \<Rightarrow> u32 \<Rightarrow> bool" where
  "test_bit_nr nr w \<longleftrightarrow> w AND push_bit nr 1 \<noteq> 0"

definition test_and_set_bit :: "nat \<Rightarrow> u32 \<Rightarrow> bool \<times> u32" where
  "test_and_set_bit nr w = (test_bit_nr nr w, set_bit_nr nr w)"

definition test_and_clear_bit :: "nat \<Rightarrow> u32 \<Rightarrow> bool \<times> u32" where
  "test_and_clear_bit nr w = (test_bit_nr nr w, clear_bit_nr nr w)"

lemma test_bit_nr_bit: "n < 32 \<Longrightarrow> test_bit_nr n w = bit w n"
  by (auto simp: test_bit_nr_def bit_eq_iff [of "w AND _"] bit_simps)

lemma test_set_bit [simp]:
  "m < 32 \<Longrightarrow> n < 32 \<Longrightarrow> test_bit_nr n (set_bit_nr m w) = (n = m \<or> test_bit_nr n w)"
  by (auto simp: test_bit_nr_bit set_bit_nr_def bit_simps)

lemma test_clear_bit [simp]:
  "m < 32 \<Longrightarrow> n < 32 \<Longrightarrow> test_bit_nr n (clear_bit_nr m w) = (n \<noteq> m \<and> test_bit_nr n w)"
  by (auto simp: test_bit_nr_bit clear_bit_nr_def bit_simps)

lemma test_bit_zero [simp]: "\<not> test_bit_nr n 0"
  by (simp add: test_bit_nr_def)

section \<open>Page descriptors\<close>

type_synonym page_ptr = nat

record page =
  page_ref :: int
  page_flags :: u32
  property :: nat
  zone_num :: int
  pra_vaddr :: u32

definition PG_reserved :: nat where "PG_reserved = 0"
definition PG_property :: nat where "PG_property = 1"

definition SetPageReserved :: "page \<Rightarrow> page" where
  "SetPageReserved p = p\<lparr>page_flags := set_bit_nr PG_reserved (page_flags p)\<rparr>"

definition ClearPageReserved :: "page \<Rightarrow> page" where
  "ClearPageReserved p = p\<lparr>page_flags := clear_bit_nr PG_reserved (page_flags p)\<rparr>"

definition PageReserved :: "page \<Rightarrow> bool" where
  "PageReserved p = test_bit_nr PG_reserved (page_flags p)"

definition SetPageProperty :: "page \<Rightarrow> page" where
  "SetPageProperty p = p\<lparr>page_flags := set_bit_nr PG_property (page_flags p)\<rparr>"

definition ClearPageProperty :: "page \<Rightarrow> page" where
  "ClearPageProperty p = p\<lparr>page_flags := clear_bit_nr PG_property (page_flags p)\<rparr>"

definition PageProperty :: "page \<Rightarrow> bool" where
  "PageProperty p = test_bit_nr PG_property (page_flags p)"

lemmas page_flag_defs = SetPageReserved_def ClearPageReserved_def PageReserved_def SetPageProperty_def
  ClearPageProperty_def PageProperty_def PG_reserved_def PG_property_def

lemma page_flags_simps [simp]:
  "PageProperty (SetPageProperty p)" "\<not> PageProperty (ClearPageProperty p)"
  "PageReserved (SetPageProperty p) = PageReserved p"
  "PageReserved (ClearPageProperty p) = PageReserved p"
  "PageProperty (SetPageReserved p) = PageProperty p"
  "PageProperty (p\<lparr>property := n\<rparr>) = PageProperty p" "PageReserved (p\<lparr>property := n\<rparr>) = PageReserved p"
  "PageProperty (p\<lparr>page_ref := r\<rparr>) = PageProperty p" "PageReserved (p\<lparr>page_ref := r\<rparr>) = PageReserved p"
  "\<not> PageProperty (p\<lparr>page_flags := 0\<rparr>)" "\<not> PageReserved (p\<lparr>page_flags := 0\<rparr>)"
  "property (SetPageProperty p) = property p" "property (ClearPageProperty p) = property p"
  "page_ref (SetPageProperty p) = page_ref p" "page_ref (ClearPageProperty p) = page_ref p"
  "pra_vaddr (SetPageProperty p) = pra_vaddr p" "pra_vaddr (ClearPageProperty p) = pra_vaddr p"
  by (simp_all add: page_flag_defs)

text \<open>What allocating and freeing leave of a page descriptor: all but the allocator's own bookkeeping.\<close>

definition same_page :: "page \<Rightarrow> page \<Rightarrow> bool" where
  "same_page p q \<longleftrightarrow> page_ref p = page_ref q \<and> PageReserved p = PageReserved q \<and> pra_vaddr p = pra_vaddr q"

lemma same_page_trans: "same_page p q \<Longrightarrow> same_page q r \<Longrightarrow> same_page p r"
  by (simp add: same_page_def)

record free_area =
  pages :: "page_ptr \<Rightarrow> page"
  free_list :: "page_ptr list"
  nr_free :: nat

section \<open>The physical memory manager interface\<close>

text \<open>
  The member \<open>check\<close> of the C table is the self-test of the manager and not part of the interface.
\<close>

record pmm_manager =
  pmm_name :: string
  pmm_init :: "free_area \<Rightarrow> free_area"
  pmm_init_memmap :: "page_ptr \<Rightarrow> nat \<Rightarrow> free_area \<Rightarrow> free_area option"
  pmm_alloc_pages :: "nat \<Rightarrow> free_area \<Rightarrow> (page_ptr option \<times> free_area) option"
  pmm_free_pages :: "page_ptr \<Rightarrow> nat \<Rightarrow> free_area \<Rightarrow> free_area option"
  pmm_nr_free_pages :: "free_area \<Rightarrow> nat"

text \<open>
  \<open>rep s F\<close>: the manager's free pages are exactly the set \<open>F\<close>.  The laws say that an allocation is a
  run of free pages which are then no longer free, and that freeing gives pages back.
\<close>

locale pmm_spec =
  fixes pm :: pmm_manager and rep :: "free_area \<Rightarrow> page_ptr set \<Rightarrow> bool"
  assumes rep_nr: "rep s F \<Longrightarrow> finite F \<and> pmm_nr_free_pages pm s = card F"
    and init_law: "(\<And>p. \<not> PageProperty (pages s p)) \<Longrightarrow> rep (pmm_init pm s) {}"
    and alloc_law: "rep s F \<Longrightarrow> 0 < n \<Longrightarrow> \<exists>r s'. pmm_alloc_pages pm n s = Some (r, s') \<and>
      (case r of None \<Rightarrow> s' = s
       | Some p \<Rightarrow> {p..<p + n} \<subseteq> F \<and> rep s' (F - {p..<p + n}) \<and>
           (\<forall>x. same_page (pages s' x) (pages s x)))"
    and alloc_one_law: "rep s F \<Longrightarrow> pmm_alloc_pages pm 1 s = Some (None, s') \<Longrightarrow> F = {}"
    and free_law: "rep s F \<Longrightarrow> 0 < n \<Longrightarrow> {p..<p + n} \<inter> F = {} \<Longrightarrow>
      (\<And>x. x \<in> {p..<p + n} \<Longrightarrow> \<not> PageReserved (pages s x)) \<Longrightarrow>
      \<exists>s'. pmm_free_pages pm p n s = Some s' \<and> rep s' (F \<union> {p..<p + n}) \<and>
           (\<forall>x. same_page (pages s' x)
              (if x \<in> {p..<p + n} then (pages s x)\<lparr>page_ref := 0\<rparr> else pages s x))"
begin

lemma alloc_free_roundtrip:
  assumes "rep s F" "0 < n" "pmm_alloc_pages pm n s = Some (Some p, s')"
    and "\<And>x. x \<in> F \<Longrightarrow> \<not> PageReserved (pages s x)"
  shows "\<exists>s''. pmm_free_pages pm p n s' = Some s'' \<and> rep s'' F"
proof -
  have a: "{p..<p + n} \<subseteq> F" "rep s' (F - {p..<p + n})"
    "\<And>x. PageReserved (pages s' x) = PageReserved (pages s x)"
    using alloc_law [OF assms(1,2)] assms(3) by (auto simp: same_page_def)
  then show ?thesis
    using free_law [OF a(2) assms(2), of p] assms(4) by (auto simp: Un_absorb2 subset_iff)
qed

text \<open>Two allocations never overlap.\<close>

lemma alloc_disjoint:
  assumes "rep s F" "0 < n" "pmm_alloc_pages pm n s = Some (Some p, s1)"
    and "0 < m" "pmm_alloc_pages pm m s1 = Some (Some q, s2)"
  shows "{p..<p + n} \<inter> {q..<q + m} = {}"
proof -
  have "rep s1 (F - {p..<p + n})" using alloc_law [OF assms(1,2)] assms(3) by auto
  then have "{q..<q + m} \<subseteq> F - {p..<p + n}" using alloc_law [of s1 _ m] assms(4,5) by fastforce
  then show ?thesis by blast
qed

end

end
