(* ===== verification/Mmu.thy ===== *)
theory Mmu
  imports Page
begin

text \<open>
  The address arithmetic of kern/mm/mmu.h and the address space layout of kern/mm/memlayout.h, on 32-bit
  words, and the facts on it that the page table proofs need: how an address splits into directory
  index, table index and offset, and what the flag bits of an entry do to its address.
\<close>

section \<open>Addresses and entries\<close>

definition PGSHIFT :: nat where "PGSHIFT = 12"
definition PTXSHIFT :: nat where "PTXSHIFT = 12"
definition PDXSHIFT :: nat where "PDXSHIFT = 22"
definition PGSIZE :: u32 where "PGSIZE = 4096"
definition NPDEENTRY :: nat where "NPDEENTRY = 1024"
definition NPTEENTRY :: nat where "NPTEENTRY = 1024"
definition PTSIZE :: u32 where "PTSIZE = PGSIZE * of_nat NPTEENTRY"

definition PDX :: "u32 \<Rightarrow> nat" where
  "PDX la = unat (drop_bit PDXSHIFT la AND 0x3FF)"

definition PTX :: "u32 \<Rightarrow> nat" where
  "PTX la = unat (drop_bit PTXSHIFT la AND 0x3FF)"

definition PPN :: "u32 \<Rightarrow> nat" where
  "PPN la = unat (drop_bit PTXSHIFT la)"

definition PGOFF :: "u32 \<Rightarrow> u32" where
  "PGOFF la = la AND 0xFFF"

definition PGADDR :: "nat \<Rightarrow> nat \<Rightarrow> u32 \<Rightarrow> u32" where
  "PGADDR d t off = push_bit PDXSHIFT (of_nat d) OR push_bit PTXSHIFT (of_nat t) OR off"

definition PTE_ADDR :: "u32 \<Rightarrow> u32" where
  "PTE_ADDR pte = pte AND NOT 0xFFF"

definition PDE_ADDR :: "u32 \<Rightarrow> u32" where
  "PDE_ADDR pde = PTE_ADDR pde"

definition PTE_P :: u32 where "PTE_P = 0x001"
definition PTE_W :: u32 where "PTE_W = 0x002"
definition PTE_U :: u32 where "PTE_U = 0x004"
definition PTE_USER :: u32 where "PTE_USER = PTE_U OR PTE_W OR PTE_P"

section \<open>The memory layout\<close>

definition KERNBASE :: u32 where "KERNBASE = 0xC0000000"
definition KMEMSIZE :: u32 where "KMEMSIZE = 0x38000000"
definition KERNTOP :: u32 where "KERNTOP = KERNBASE + KMEMSIZE"
definition VPT :: u32 where "VPT = 0xFAC00000"
definition KSTACKPAGE :: nat where "KSTACKPAGE = 2"
definition KSTACKSIZE :: u32 where "KSTACKSIZE = of_nat KSTACKPAGE * PGSIZE"
definition USERTOP :: u32 where "USERTOP = 0xB0000000"
definition USTACKTOP :: u32 where "USTACKTOP = USERTOP"
definition USTACKPAGE :: nat where "USTACKPAGE = 256"
definition USTACKSIZE :: u32 where "USTACKSIZE = of_nat USTACKPAGE * PGSIZE"
definition USERBASE :: u32 where "USERBASE = 0x00200000"
definition UTEXT :: u32 where "UTEXT = 0x00800000"

definition USER_ACCESS :: "u32 \<Rightarrow> u32 \<Rightarrow> bool" where
  "USER_ACCESS start fin \<longleftrightarrow> USERBASE \<le> start \<and> start < fin \<and> fin \<le> USERTOP"

definition KERN_ACCESS :: "u32 \<Rightarrow> u32 \<Rightarrow> bool" where
  "KERN_ACCESS start fin \<longleftrightarrow> KERNBASE \<le> start \<and> start < fin \<and> fin \<le> KERNTOP"

section \<open>Page descriptors and physical addresses\<close>

definition page2pa :: "page_ptr \<Rightarrow> u32" where
  "page2pa p = push_bit PGSHIFT (of_nat p)"

text \<open>\<open>present e\<close> is the test \<open>e & PTE_P\<close> of the code.\<close>

definition present :: "u32 \<Rightarrow> bool" where
  "present e \<longleftrightarrow> e AND PTE_P \<noteq> 0"

section \<open>Facts\<close>

lemma unat_and_mask_3FF: "unat ((w :: u32) AND 0x3FF) = unat w mod 1024"
proof -
  have "w AND 0x3FF = take_bit 10 w"
    by (simp add: take_bit_eq_mask mask_eq_exp_minus_1)
  then show ?thesis by (simp add: take_bit_eq_mod unat_mod_distrib)
qed

lemma unat_drop_bit: "unat (drop_bit n (w :: u32)) = unat w div 2 ^ n"
  using unat_u32_less [of w]
  by (simp add: unsigned_drop_bit_eq take_bit_nat_eq_self drop_bit_eq_div [where 'a = nat])

lemma PPN_eq: "PPN la = unat la div 4096"
  by (simp add: PPN_def PTXSHIFT_def unat_drop_bit)

lemma PPN_less: "PPN la < 2 ^ 20"
  using unat_u32_less [of la] by (simp add: PPN_eq)

lemma PDX_eq: "PDX la = PPN la div 1024"
proof -
  have "unat la div 4194304 < 1024" using unat_u32_less [of la] by simp
  then show ?thesis
    by (simp add: PDX_def PDXSHIFT_def unat_and_mask_3FF unat_drop_bit PPN_eq div_mult2_eq [symmetric])
qed

lemma PTX_eq: "PTX la = PPN la mod 1024"
  by (simp add: PTX_def PTXSHIFT_def unat_and_mask_3FF unat_drop_bit PPN_eq)

lemma PDX_less: "PDX la < 1024"
  using PPN_less [of la] by (simp add: PDX_eq)

lemma PTX_less: "PTX la < 1024"
  by (simp add: PTX_eq)

lemma PPN_split: "PPN la = 1024 * PDX la + PTX la"
  by (simp add: PDX_eq PTX_eq)

text \<open>Flag bits do not disturb the address of an entry.\<close>

lemma drop_bit_clear_mask: "drop_bit k (e AND NOT (mask k)) = drop_bit k (e :: u32)"
  by (rule bit_word_eqI) (auto simp: bit_simps dest: bit_imp_le_length)

lemma mask_12: "(0xFFF :: u32) = mask 12"
  by (simp add: mask_eq_exp_minus_1)

lemma PPN_PTE_ADDR [simp]: "PPN (PTE_ADDR e) = PPN e"
  unfolding PPN_def PTE_ADDR_def PTXSHIFT_def mask_12 drop_bit_clear_mask ..

lemma PPN_PDE_ADDR [simp]: "PPN (PDE_ADDR e) = PPN e"
  by (simp add: PDE_ADDR_def)

lemma less_4096: "(w :: u32) < 4096 \<longleftrightarrow> take_bit 12 w = w"
proof -
  have "take_bit 12 w = w \<longleftrightarrow> unat w mod 4096 = unat w"
    by (simp add: take_bit_eq_mod unat_mod_distrib word_unat_eq_iff)
  also have "\<dots> \<longleftrightarrow> unat w < 4096"
    using mod_less_divisor [of 4096 "unat w"] by (auto simp del: mod_less_divisor)
  finally show ?thesis by (simp add: word_less_nat_alt)
qed

lemma bit_less_4096: "bit (w :: u32) n \<Longrightarrow> w < 4096 \<Longrightarrow> n < 12"
  unfolding less_4096 by (metis bit_take_bit_iff)

lemma PPN_or_flags [simp]: "f < 4096 \<Longrightarrow> PPN (a OR f) = PPN a"
  unfolding PPN_def PTXSHIFT_def
  by (rule arg_cong [where f = unat], rule bit_word_eqI) (auto simp: bit_simps dest: bit_less_4096)

lemma PPN_page2pa [simp]: "p < 2 ^ 20 \<Longrightarrow> PPN (page2pa p) = p"
proof -
  assume p: "p < 2 ^ 20"
  have "unat (push_bit 12 (of_nat p :: u32)) = p * 4096"
    using p by (simp add: push_bit_eq_mult unat_word_ariths unat_of_nat mult.commute)
  then show ?thesis by (simp add: PPN_eq page2pa_def PGSHIFT_def)
qed

lemma present_bit: "present e \<longleftrightarrow> bit e 0"
  unfolding present_def PTE_P_def by (simp add: and_one_eq even_iff_mod_2_eq_zero bit_0 odd_iff_mod_2_eq_one)

lemma present_or [simp]: "present (a OR b) \<longleftrightarrow> present a \<or> present b"
  by (simp add: present_bit bit_simps)

lemma present_PTE_P [simp]: "present PTE_P"
  by (simp add: present_def PTE_P_def)

lemma not_present_0 [simp]: "\<not> present 0"
  by (simp add: present_def)

lemma or_less_4096: "(a :: u32) < 4096 \<Longrightarrow> b < 4096 \<Longrightarrow> a OR b < 4096"
  unfolding less_4096 by (simp add: take_bit_or)

lemma PTE_flags_less [simp]: "PTE_P < 4096" "PTE_W < 4096" "PTE_U < 4096" "PTE_USER < 4096"
  by (simp_all add: PTE_P_def PTE_W_def PTE_U_def PTE_USER_def)

end
