(* ===== verification/Default_pmm.thy ===== *)
theory Default_pmm
  imports Page
begin

text \<open>
  The first-fit physical page allocator of kern/mm/default_pmm.c.  A free block is kept in the
  descriptor of its first page; the free list is the sequence of these first pages.
\<close>

section \<open>The operations\<close>

definition upd_page :: "page_ptr \<Rightarrow> (page \<Rightarrow> page) \<Rightarrow> (page_ptr \<Rightarrow> page) \<Rightarrow> page_ptr \<Rightarrow> page" where
  "upd_page p f ps = ps(p := f (ps p))"

definition default_init :: "free_area \<Rightarrow> free_area" where
  "default_init s = s\<lparr>free_list := [], nr_free := 0\<rparr>"

fun init_memmap_loop :: "page_ptr \<Rightarrow> nat \<Rightarrow> (page_ptr \<Rightarrow> page) \<Rightarrow> (page_ptr \<Rightarrow> page) option" where
  "init_memmap_loop p 0 ps = Some ps"
| "init_memmap_loop p (Suc k) ps =
     do { kassert (PageReserved (ps p));
          init_memmap_loop (Suc p) k
            (upd_page p (\<lambda>r. r\<lparr>page_flags := 0, property := 0, page_ref := 0\<rparr>) ps) }"

definition default_init_memmap :: "page_ptr \<Rightarrow> nat \<Rightarrow> free_area \<Rightarrow> free_area option" where
  "default_init_memmap base n s =
     do { kassert (n > 0);
          ps \<leftarrow> init_memmap_loop base n (pages s);
          let ps = upd_page base (\<lambda>r. SetPageProperty (r\<lparr>property := n\<rparr>)) ps;
          Some (s\<lparr>pages := ps, nr_free := nr_free s + n, free_list := seq_add_before None base (free_list s)\<rparr>) }"

definition default_alloc_pages :: "nat \<Rightarrow> free_area \<Rightarrow> (page_ptr option \<times> free_area) option" where
  "default_alloc_pages n s =
     do { kassert (n > 0);
          if n > nr_free s then Some (None, s)
          else
            (case find (\<lambda>p. property (pages s p) \<ge> n) (free_list s) of
               None \<Rightarrow> Some (None, s)
             | Some page \<Rightarrow>
                 do { let s = (if property (pages s page) > n then
                                 (let p = page + n;
                                      ps = upd_page p (\<lambda>r. SetPageProperty
                                             (r\<lparr>property := property (pages s page) - n\<rparr>)) (pages s)
                                  in s\<lparr>pages := ps, free_list := seq_add_after (Some page) p (free_list s)\<rparr>)
                               else s);
                      Some (Some page,
                        s\<lparr>free_list := seq_del page (free_list s), nr_free := nr_free s - n,
                          pages := upd_page page ClearPageProperty (pages s)\<rparr>) }) }"

fun free_pages_loop :: "page_ptr \<Rightarrow> nat \<Rightarrow> (page_ptr \<Rightarrow> page) \<Rightarrow> (page_ptr \<Rightarrow> page) option" where
  "free_pages_loop p 0 ps = Some ps"
| "free_pages_loop p (Suc k) ps =
     do { kassert (\<not> PageReserved (ps p) \<and> \<not> PageProperty (ps p));
          free_pages_loop (Suc p) k (upd_page p (\<lambda>r. r\<lparr>page_flags := 0, page_ref := 0\<rparr>) ps) }"

text \<open>
  The merging loop reads the successor of an entry before it may unlink the entry, so it visits the
  entries of the list as it was; the second argument is what is left to visit.
\<close>

fun free_merge ::
  "page_ptr \<Rightarrow> page_ptr list \<Rightarrow> (page_ptr \<Rightarrow> page) \<Rightarrow> page_ptr list \<Rightarrow>
   page_ptr \<times> (page_ptr \<Rightarrow> page) \<times> page_ptr list"
where
  "free_merge base [] ps fl = (base, ps, fl)"
| "free_merge base (p # rest) ps fl =
     (if base + property (ps base) = p then
        free_merge base rest
          (upd_page p ClearPageProperty
            (upd_page base (\<lambda>r. r\<lparr>property := property r + property (ps p)\<rparr>) ps))
          (seq_del p fl)
      else if p + property (ps p) = base then
        free_merge p rest
          (upd_page base ClearPageProperty
            (upd_page p (\<lambda>r. r\<lparr>property := property r + property (ps base)\<rparr>) ps))
          (seq_del p fl)
      else free_merge base rest ps fl)"

text \<open>The place to insert: \<open>None\<close> is the list head, the outer \<open>None\<close> the failed assertion.\<close>

fun free_pos :: "page_ptr \<Rightarrow> (page_ptr \<Rightarrow> page) \<Rightarrow> page_ptr list \<Rightarrow> page_ptr option option" where
  "free_pos base ps [] = Some None"
| "free_pos base ps (p # rest) =
     (if base + property (ps base) \<le> p then
        do { kassert (base + property (ps base) \<noteq> p); Some (Some p) }
      else free_pos base ps rest)"

definition default_free_pages :: "page_ptr \<Rightarrow> nat \<Rightarrow> free_area \<Rightarrow> free_area option" where
  "default_free_pages base n s =
     do { kassert (n > 0);
          ps \<leftarrow> free_pages_loop base n (pages s);
          let ps = upd_page base (\<lambda>r. SetPageProperty (r\<lparr>property := n\<rparr>)) ps;
          let (base, ps, fl) = free_merge base (free_list s) ps (free_list s);
          le \<leftarrow> free_pos base ps fl;
          Some (s\<lparr>pages := ps, nr_free := nr_free s + n, free_list := seq_add_before le base fl\<rparr>) }"

definition default_nr_free_pages :: "free_area \<Rightarrow> nat" where
  "default_nr_free_pages s = nr_free s"

definition default_pmm_manager :: pmm_manager where
  "default_pmm_manager =
     \<lparr>pmm_name = ''default_pmm_manager'', pmm_init = default_init, pmm_init_memmap = default_init_memmap,
      pmm_alloc_pages = default_alloc_pages, pmm_free_pages = default_free_pages,
      pmm_nr_free_pages = default_nr_free_pages\<rparr>"

section \<open>Free blocks\<close>

definition prop_of :: "(page_ptr \<Rightarrow> page) \<Rightarrow> page_ptr \<Rightarrow> nat" where
  "prop_of ps p = property (ps p)"

definition blocks :: "(page_ptr \<Rightarrow> nat) \<Rightarrow> page_ptr list \<Rightarrow> bool" where
  "blocks pr fl \<longleftrightarrow> sorted_wrt (\<lambda>p q. p + pr p \<le> q) fl \<and> (\<forall>p \<in> set fl. 0 < pr p)"

definition area :: "(page_ptr \<Rightarrow> nat) \<Rightarrow> page_ptr list \<Rightarrow> page_ptr set" where
  "area pr fl = (\<Union>p \<in> set fl. {p..<p + pr p})"

lemma blocks_append:
  "blocks pr (xs @ ys) \<longleftrightarrow> blocks pr xs \<and> blocks pr ys \<and> (\<forall>x \<in> set xs. \<forall>y \<in> set ys. x + pr x \<le> y)"
  by (auto simp: blocks_def sorted_wrt_append)

lemma blocks_Cons:
  "blocks pr (x # ys) \<longleftrightarrow> 0 < pr x \<and> blocks pr ys \<and> (\<forall>y \<in> set ys. x + pr x \<le> y)"
  by (auto simp: blocks_def)

lemma blocks_cong: "(\<And>p. p \<in> set fl \<Longrightarrow> pr' p = pr p) \<Longrightarrow> blocks pr' fl = blocks pr fl"
  unfolding blocks_def by (metis (no_types, lifting) sorted_wrt_mono_rel)

lemma area_cong: "(\<And>p. p \<in> set fl \<Longrightarrow> pr' p = pr p) \<Longrightarrow> area pr' fl = area pr fl"
  unfolding area_def by simp

lemma blocks_upd [simp]: "x \<notin> set fl \<Longrightarrow> blocks (pr(x := v)) fl = blocks pr fl"
  by (rule blocks_cong) auto

lemma area_upd [simp]: "x \<notin> set fl \<Longrightarrow> area (pr(x := v)) fl = area pr fl"
  by (rule area_cong) auto

lemma area_simps [simp]: "area pr [] = {}" "area pr (x # xs) = {x..<x + pr x} \<union> area pr xs"
  "area pr (xs @ ys) = area pr xs \<union> area pr ys"
  by (auto simp: area_def)

lemma blocks_distinct: "blocks pr fl \<Longrightarrow> distinct fl"
proof (induction fl)
  case (Cons x fl)
  then have "x \<notin> set fl" by (fastforce simp: blocks_Cons)
  with Cons show ?case by (simp add: blocks_Cons)
qed simp

lemma area_ge: "blocks pr fl \<Longrightarrow> (\<And>p. p \<in> set fl \<Longrightarrow> a \<le> p) \<Longrightarrow> x \<in> area pr fl \<Longrightarrow> a \<le> x"
  by (auto simp: area_def) (meson le_trans)

lemma finite_area [simp]: "finite (area pr fl)"
  by (simp add: area_def)

lemma card_area: "blocks pr fl \<Longrightarrow> card (area pr fl) = sum_list (map pr fl)"
proof (induction fl)
  case (Cons x fl)
  then have "{x..<x + pr x} \<inter> area pr fl = {}"
    using area_ge [of pr fl "x + pr x"] by (fastforce simp: blocks_Cons)
  with Cons show ?case by (simp add: card_Un_disjoint blocks_Cons)
qed simp

definition pmm_rep :: "free_area \<Rightarrow> page_ptr set \<Rightarrow> bool" where
  "pmm_rep s F \<longleftrightarrow>
     blocks (prop_of (pages s)) (free_list s) \<and> area (prop_of (pages s)) (free_list s) = F \<and>
     nr_free s = card F \<and> (\<forall>x. PageProperty (pages s x) \<longleftrightarrow> x \<in> set (free_list s))"

lemma prop_of_upd [simp]:
  "prop_of (upd_page p f ps) = (prop_of ps)(p := property (f (ps p)))"
  by (auto simp: prop_of_def upd_page_def)

lemma upd_page_other [simp]: "x \<noteq> p \<Longrightarrow> upd_page p f ps x = ps x"
  and upd_page_same [simp]: "upd_page p f ps p = f (ps p)"
  by (simp_all add: upd_page_def)

section \<open>Freeing\<close>

text \<open>
  The state of the merging loop: \<open>pre\<close> has been visited, \<open>rest\<close> has not; the block at \<open>base\<close> is off
  the list and overlaps no block on it; together they make up \<open>U\<close>.
\<close>

definition merging ::
  "(page_ptr \<Rightarrow> page) \<Rightarrow> page_ptr \<Rightarrow> page_ptr list \<Rightarrow> page_ptr list \<Rightarrow> page_ptr set \<Rightarrow> bool"
where
  "merging ps base pre rest U \<longleftrightarrow>
     blocks (prop_of ps) (pre @ rest) \<and> 0 < prop_of ps base \<and>
     (\<forall>q \<in> set (pre @ rest). q + prop_of ps q \<le> base \<or> base + prop_of ps base \<le> q) \<and>
     (\<forall>q \<in> set pre. q \<noteq> base + prop_of ps base) \<and>
     area (prop_of ps) (pre @ rest) \<union> {base..<base + prop_of ps base} = U \<and>
     (\<forall>x. PageProperty (ps x) \<longleftrightarrow> x \<in> set (pre @ rest) \<or> x = base)"

lemma interval_join: "(a::nat) \<le> b \<Longrightarrow> b \<le> c \<Longrightarrow> {a..<b} \<union> {b..<c} = {a..<c}"
  by auto

lemma seq_del_mid: "p \<notin> set xs \<Longrightarrow> seq_del p (xs @ p # ys) = xs @ ys"
  by (simp add: seq_del_def remove1_append)

lemma merging_base: "merging ps base pre rest U \<Longrightarrow> base \<notin> set (pre @ rest)"
  unfolding merging_def by (metis add_le_same_cancel1 leD)

lemma blocks_pos: "blocks pr fl \<Longrightarrow> p \<in> set fl \<Longrightarrow> 0 < pr p"
  by (simp add: blocks_def)

lemma merging_after:
  assumes m: "merging ps base pre (p # rest) U" and adj: "base + property (ps base) = p"
  defines "ps' \<equiv> upd_page p ClearPageProperty
      (upd_page base (\<lambda>r. r\<lparr>property := property r + property (ps p)\<rparr>) ps)"
  shows "merging ps' base pre rest U"
proof -
  let ?pr = "prop_of ps" and ?fl = "pre @ p # rest"
  have b: "blocks ?pr ?fl" and pos: "0 < ?pr base" "0 < ?pr p" "base + ?pr base = p"
    using m adj by (auto simp: merging_def blocks_append blocks_Cons prop_of_def)
  have bnot: "base \<notin> set ?fl" by (rule merging_base [OF m])
  have pnot: "p \<notin> set (pre @ rest)" "base \<noteq> p"
    using blocks_distinct [OF b] bnot by auto
  have pr': "prop_of ps' = ?pr(base := ?pr base + ?pr p)"
    using pnot by (auto simp: ps'_def prop_of_def fun_eq_iff)
  have bl: "blocks (prop_of ps') (pre @ rest)" 
    using b bnot by (subst blocks_cong [of _ _ ?pr]) (auto simp: pr' blocks_append blocks_Cons)
  have ar: "area (prop_of ps') (pre @ rest) = area ?pr (pre @ rest)"
    using bnot by (intro area_cong) (auto simp: pr')
  have pre: "q + ?pr q \<le> base" if "q \<in> set pre" for q
  proof -
    have "q + ?pr q \<le> p" "0 < ?pr q" using b that blocks_pos [OF b] by (auto simp: blocks_append)
    moreover have "q + ?pr q \<le> base \<or> base + ?pr base \<le> q" using m that by (auto simp: merging_def)
    ultimately show ?thesis using pos(3) by linarith
  qed
  have rest: "p + ?pr p \<le> q" if "q \<in> set rest" for q
    using b that by (auto simp: blocks_append blocks_Cons)
  have U: "area (prop_of ps') (pre @ rest) \<union> {base..<base + prop_of ps' base} = U"
    using m pos interval_join [of base p "p + ?pr p"] unfolding ar
    by (auto simp: merging_def pr' add.assoc)
  show ?thesis
    unfolding merging_def
  proof (intro conjI)
    show "\<forall>q \<in> set (pre @ rest). q + prop_of ps' q \<le> base \<or> base + prop_of ps' base \<le> q"
    proof
      fix q assume q: "q \<in> set (pre @ rest)"
      then have "prop_of ps' q = ?pr q" using bnot by (auto simp: pr')
      then show "q + prop_of ps' q \<le> base \<or> base + prop_of ps' base \<le> q"
        using q pre [of q] rest [of q] pos(3) by (auto simp: pr')
    qed
    show "\<forall>q \<in> set pre. q \<noteq> base + prop_of ps' base"
    proof
      fix q assume "q \<in> set pre"
      then show "q \<noteq> base + prop_of ps' base" using pre [of q] pos by (simp add: pr')
    qed
    show "\<forall>x. PageProperty (ps' x) \<longleftrightarrow> x \<in> set (pre @ rest) \<or> x = base"
      using m pnot by (auto simp: merging_def ps'_def upd_page_def)
  qed (use bl pos U in \<open>auto simp: pr'\<close>)
qed

lemma merging_before:
  assumes m: "merging ps base pre (p # rest) U" and adj: "p + property (ps p) = base"
  defines "ps' \<equiv> upd_page base ClearPageProperty
      (upd_page p (\<lambda>r. r\<lparr>property := property r + property (ps base)\<rparr>) ps)"
  shows "merging ps' p pre rest U"
proof -
  let ?pr = "prop_of ps" and ?fl = "pre @ p # rest"
  have b: "blocks ?pr ?fl" and pos: "0 < ?pr base" "0 < ?pr p" "p + ?pr p = base"
    using m adj by (auto simp: merging_def blocks_append blocks_Cons prop_of_def)
  have bnot: "base \<notin> set ?fl" by (rule merging_base [OF m])
  have pnot: "p \<notin> set (pre @ rest)" "base \<noteq> p"
    using blocks_distinct [OF b] bnot by auto
  have pr': "prop_of ps' = ?pr(p := ?pr p + ?pr base)"
    using pnot by (auto simp: ps'_def prop_of_def fun_eq_iff)
  have same: "prop_of ps' q = ?pr q" if "q \<in> set (pre @ rest)" for q
    using that pnot(1) by (auto simp: pr')
  have bl: "blocks (prop_of ps') (pre @ rest)"
    using b same by (subst blocks_cong [of _ _ ?pr]) (auto simp: blocks_append blocks_Cons)
  have ar: "area (prop_of ps') (pre @ rest) = area ?pr (pre @ rest)"
    using same by (rule area_cong)
  have pre: "q + ?pr q \<le> p" if "q \<in> set pre" for q
    using b that by (auto simp: blocks_append)
  have rest: "base + ?pr base \<le> q" if "q \<in> set rest" for q
  proof -
    have "p + ?pr p \<le> q" "0 < ?pr q"
      using b that blocks_pos [OF b] by (auto simp: blocks_append blocks_Cons)
    moreover have "q + ?pr q \<le> base \<or> base + ?pr base \<le> q" using m that by (auto simp: merging_def)
    ultimately show ?thesis using pos(3) by linarith
  qed
  have U: "area (prop_of ps') (pre @ rest) \<union> {p..<p + prop_of ps' p} = U"
    using m pos interval_join [of p base "base + ?pr base"] unfolding ar
    by (auto simp: merging_def pr' add.assoc)
  show ?thesis
    unfolding merging_def
  proof (intro conjI)
    show "\<forall>q \<in> set (pre @ rest). q + prop_of ps' q \<le> p \<or> p + prop_of ps' p \<le> q"
    proof
      fix q assume q: "q \<in> set (pre @ rest)"
      then show "q + prop_of ps' q \<le> p \<or> p + prop_of ps' p \<le> q"
        using same [OF q] pre [of q] rest [of q] pos(3) by (auto simp: pr')
    qed
    show "\<forall>q \<in> set pre. q \<noteq> p + prop_of ps' p"
    proof
      fix q assume "q \<in> set pre"
      then show "q \<noteq> p + prop_of ps' p" using pre [of q] pos by (simp add: pr')
    qed
    show "\<forall>x. PageProperty (ps' x) \<longleftrightarrow> x \<in> set (pre @ rest) \<or> x = p"
      using m pnot bnot by (auto simp: merging_def ps'_def upd_page_def)
  qed (use bl pos U in \<open>auto simp: pr'\<close>)
qed

lemma merging_skip:
  assumes "merging ps base pre (p # rest) U" "base + property (ps base) \<noteq> p"
  shows "merging ps base (pre @ [p]) rest U"
  using assms by (auto simp: merging_def prop_of_def)

lemma free_merge_merging:
  assumes "merging ps base pre rest U" "free_merge base rest ps (pre @ rest) = (base', ps', fl')"
  shows "merging ps' base' fl' [] U \<and> (\<forall>x. same_page (ps' x) (ps x))"
  using assms
proof (induction rest arbitrary: base ps pre)
  case Nil
  then show ?case by (simp add: same_page_def)
next
  case (Cons p rest)
  have "distinct (pre @ p # rest)"
    using Cons.prems(1) by (intro blocks_distinct [of "prop_of ps"]) (simp add: merging_def)
  then have del: "seq_del p (pre @ p # rest) = pre @ rest"
    by (intro seq_del_mid) auto
  show ?case
  proof (cases "base + property (ps base) = p")
    case True
    let ?ps = "upd_page p ClearPageProperty
      (upd_page base (\<lambda>r. r\<lparr>property := property r + property (ps p)\<rparr>) ps)"
    have "same_page (?ps x) (ps x)" for x by (simp add: same_page_def upd_page_def)
    moreover have "free_merge base rest ?ps (pre @ rest) = (base', ps', fl')"
      using Cons.prems(2) True del by simp
    ultimately show ?thesis
      using Cons.IH [OF merging_after [OF Cons.prems(1) True]] same_page_trans by meson
  next
    case n: False
    show ?thesis
    proof (cases "p + property (ps p) = base")
      case True
      let ?ps = "upd_page base ClearPageProperty
        (upd_page p (\<lambda>r. r\<lparr>property := property r + property (ps base)\<rparr>) ps)"
      have "same_page (?ps x) (ps x)" for x by (simp add: same_page_def upd_page_def)
      moreover have "free_merge p rest ?ps (pre @ rest) = (base', ps', fl')"
        using Cons.prems(2) True n del by simp
      ultimately show ?thesis
        using Cons.IH [OF merging_before [OF Cons.prems(1) True]] same_page_trans by meson
    next
      case False
      then show ?thesis
        using Cons.IH [OF merging_skip [OF Cons.prems(1) n]] Cons.prems(2) n by simp
    qed
  qed
qed

lemma free_pos_merging:
  assumes "merging ps base (xs @ ys) [] U" "\<And>q. q \<in> set xs \<Longrightarrow> q + prop_of ps q \<le> base"
  shows "\<exists>le. free_pos base ps ys = Some le \<and> seq_pos le ys \<and>
           blocks (prop_of ps) (xs @ seq_add_before le base ys)"
  using assms
proof (induction ys arbitrary: xs)
  case Nil
  then show ?case by (auto simp: seq_pos_def merging_def blocks_def sorted_wrt_append)
next
  case (Cons y ys)
  let ?pr = "prop_of ps"
  have b: "blocks ?pr (xs @ y # ys)" "0 < ?pr base" "base + ?pr base \<noteq> y"
    "y + ?pr y \<le> base \<or> base + ?pr base \<le> y"
    using Cons.prems(1) by (auto simp: merging_def)
  show ?case
  proof (cases "base + ?pr base \<le> y")
    case True
    have "y \<le> q" if "q \<in> set ys" for q
    proof -
      have "y + ?pr y \<le> q" using b(1) that by (simp add: blocks_append blocks_Cons)
      then show ?thesis by simp
    qed
    then have "\<forall>q \<in> set ys. base + ?pr base \<le> q" using True le_trans by blast
    moreover have "free_pos base ps (y # ys) = Some (Some y)"
      using True b(3) by (simp add: prop_of_def)
    ultimately show ?thesis
      using True b Cons.prems(2) by (auto simp: seq_pos_def blocks_append blocks_Cons)
  next
    case False
    then have "y + ?pr y \<le> base" using b(4) by simp
    then have "\<exists>le. free_pos base ps ys = Some le \<and> seq_pos le ys \<and>
           blocks (prop_of ps) ((xs @ [y]) @ seq_add_before le base ys)"
      using Cons.prems by (intro Cons.IH) auto
    then obtain le where le: "free_pos base ps ys = Some le" "seq_pos le ys"
      "blocks ?pr ((xs @ [y]) @ seq_add_before le base ys)" by blast
    have "y \<notin> set ys" using blocks_distinct [OF b(1)] by auto
    then have "seq_add_before le base (y # ys) = y # seq_add_before le base ys"
      using le(2) by (cases le) (auto simp: seq_pos_def)
    moreover have "free_pos base ps (y # ys) = Some le" using le(1) False by (simp add: prop_of_def)
    moreover have "seq_pos le (y # ys)" using le(2) by (auto simp: seq_pos_def split: option.splits)
    ultimately show ?thesis using le(3) by simp
  qed
qed

section \<open>Free blocks stay merged\<close>

definition merged :: "(page_ptr \<Rightarrow> nat) \<Rightarrow> page_ptr list \<Rightarrow> bool" where
  "merged pr fl \<longleftrightarrow> sorted_wrt (\<lambda>p q. p + pr p < q) fl"

definition coalesced :: "free_area \<Rightarrow> bool" where
  "coalesced s \<longleftrightarrow> merged (prop_of (pages s)) (free_list s)"

lemma merged_append:
  "merged pr (xs @ ys) \<longleftrightarrow> merged pr xs \<and> merged pr ys \<and> (\<forall>x \<in> set xs. \<forall>y \<in> set ys. x + pr x < y)"
  "merged pr (x # ys) \<longleftrightarrow> merged pr ys \<and> (\<forall>y \<in> set ys. x + pr x < y)"
  "merged pr []"
  by (auto simp: merged_def sorted_wrt_append)

lemma merged_cong: "(\<And>p. p \<in> set fl \<Longrightarrow> pr' p = pr p) \<Longrightarrow> merged pr' fl = merged pr fl"
  unfolding merged_def by (metis (no_types, lifting) sorted_wrt_mono_rel)

lemma merged_upd [simp]: "x \<notin> set fl \<Longrightarrow> merged (pr(x := v)) fl = merged pr fl"
  by (rule merged_cong) auto

text \<open>A run of free pages lies inside one block.\<close>

lemma run_in_block:
  assumes b: "blocks pr fl" "merged pr fl" and run: "{a..<a + n} \<subseteq> area pr fl" and n: "0 < n"
  shows "\<exists>p \<in> set fl. {a..<a + n} \<subseteq> {p..<p + pr p}"
proof -
  have "a \<in> area pr fl" using run n by auto
  then obtain p where p: "p \<in> set fl" "p \<le> a" "a < p + pr p" by (auto simp: area_def)
  obtain xs ys where fl: "fl = xs @ p # ys" using p(1) by (auto dest: split_list)
  have "a + n \<le> p + pr p"
  proof (rule ccontr)
    assume "\<not> ?thesis"
    then have "p + pr p \<in> area pr fl" using run p by auto
    then obtain q where q: "q \<in> set fl" "q \<le> p + pr p" "p + pr p < q + pr q" by (auto simp: area_def)
    from q(1) fl consider "q \<in> set xs" | "q = p" | "q \<in> set ys" by auto
    then show False
    proof cases
      case 1
      then have "q + pr q < p" using b(2) fl by (simp add: merged_append)
      with q(3) show ?thesis by simp
    next
      case 3
      then have "p + pr p < q" using b(2) fl by (simp add: merged_append)
      with q(2) show ?thesis by simp
    qed (use q in simp)
  qed
  with p show ?thesis by (intro bexI [of _ p]) auto
qed

lemma free_merge_coalesced:
  assumes "merging ps base pre rest U" "free_merge base rest ps (pre @ rest) = (base', ps', fl')"
    and "merged (prop_of ps) (pre @ rest)" "\<And>q. q \<in> set pre \<Longrightarrow> q + prop_of ps q \<noteq> base"
  shows "merged (prop_of ps') fl' \<and> (\<forall>q \<in> set fl'. q + prop_of ps' q \<noteq> base')"
  using assms
proof (induction rest arbitrary: base ps pre)
  case (Cons p rest)
  let ?pr = "prop_of ps"
  have b: "blocks ?pr (pre @ p # rest)" using Cons.prems(1) by (simp add: merging_def)
  then have dis: "distinct (pre @ p # rest)" by (rule blocks_distinct)
  then have del: "seq_del p (pre @ p # rest) = pre @ rest" by (intro seq_del_mid) auto
  have bnot: "base \<notin> set (pre @ p # rest)" by (rule merging_base [OF Cons.prems(1)])
  have mm: "merged ?pr (pre @ rest)" using Cons.prems(3) by (simp add: merged_append)
  show ?case
  proof (cases "base + property (ps base) = p")
    case True
    let ?ps = "upd_page p ClearPageProperty
      (upd_page base (\<lambda>r. r\<lparr>property := property r + property (ps p)\<rparr>) ps)"
    have pr': "prop_of ?ps = ?pr(base := ?pr base + ?pr p)"
      using bnot by (auto simp: prop_of_def fun_eq_iff)
    have "merged (prop_of ?ps) (pre @ rest)" using mm bnot unfolding pr' by simp
    moreover have "q + prop_of ?ps q \<noteq> base" if "q \<in> set pre" for q
      using Cons.prems(4) [OF that] that bnot unfolding pr' by auto
    moreover have "free_merge base rest ?ps (pre @ rest) = (base', ps', fl')"
      using Cons.prems(2) True del by simp
    ultimately show ?thesis
      using Cons.IH [OF merging_after [OF Cons.prems(1) True]] by blast
  next
    case n: False
    show ?thesis
    proof (cases "p + property (ps p) = base")
      case True
      let ?ps = "upd_page base ClearPageProperty
        (upd_page p (\<lambda>r. r\<lparr>property := property r + property (ps base)\<rparr>) ps)"
      have pr': "prop_of ?ps = ?pr(p := ?pr p + ?pr base)"
        using bnot by (auto simp: prop_of_def fun_eq_iff)
      have "merged (prop_of ?ps) (pre @ rest)" using mm dis unfolding pr' by simp
      moreover have "q + prop_of ?ps q \<noteq> p" if "q \<in> set pre" for q
      proof -
        have "q + ?pr q < p" using Cons.prems(3) that by (simp add: merged_append)
        then show ?thesis using that dis unfolding pr' by auto
      qed
      moreover have "free_merge p rest ?ps (pre @ rest) = (base', ps', fl')"
        using Cons.prems(2) True n del by simp
      ultimately show ?thesis
        using Cons.IH [OF merging_before [OF Cons.prems(1) True]] by blast
    next
      case False
      then have "\<And>q. q \<in> set (pre @ [p]) \<Longrightarrow> q + prop_of ps q \<noteq> base"
        using Cons.prems(4) by (auto simp: prop_of_def)
      then show ?thesis
        using Cons.IH [OF merging_skip [OF Cons.prems(1) n]] Cons.prems(2,3) n False by simp
    qed
  qed
qed simp

lemma seq_add_before_merged:
  assumes "blocks pr (seq_add_before le x fl)" "seq_pos le fl" "merged pr fl"
    and "\<And>q. q \<in> set fl \<Longrightarrow> q + pr q \<noteq> x \<and> x + pr x \<noteq> q"
  shows "merged pr (seq_add_before le x fl)"
proof -
  obtain as bs where *: "fl = as @ bs" "seq_add_before le x fl = as @ x # bs"
  proof (cases le)
    case None
    then show ?thesis using that [of fl "[]"] by simp
  next
    case (Some y)
    then obtain as bs where "fl = as @ y # bs" "y \<notin> set as"
      using assms(2) by (auto simp: seq_pos_def dest: split_list_first)
    then show ?thesis using that [of as "y # bs"] Some by (simp add: seq_add_before_split)
  qed
  have "a + pr a < x" if "a \<in> set as" for a
    using assms(1) assms(4) [of a] that *(1) unfolding *(2) by (fastforce simp: blocks_append)
  moreover have "x + pr x < c" if "c \<in> set bs" for c
    using assms(1) assms(4) [of c] that *(1) unfolding *(2) by (fastforce simp: blocks_append blocks_Cons)
  ultimately show ?thesis using assms(3) *(1) unfolding *(2) by (auto simp: merged_append)
qed

section \<open>Freeing, from the outside\<close>

lemma free_pages_loop_eq:
  assumes "\<And>x. x \<in> {p..<p + k} \<Longrightarrow> \<not> PageReserved (ps x) \<and> \<not> PageProperty (ps x)"
  shows "free_pages_loop p k ps =
    Some (\<lambda>x. if x \<in> {p..<p + k} then (ps x)\<lparr>page_flags := 0, page_ref := 0\<rparr> else ps x)"
  using assms
proof (induction k arbitrary: p ps)
  case (Suc k)
  have "\<not> PageReserved (ps p) \<and> \<not> PageProperty (ps p)" using Suc.prems by simp
  moreover have "free_pages_loop (Suc p) k (upd_page p (\<lambda>r. r\<lparr>page_flags := 0, page_ref := 0\<rparr>) ps) =
      Some (\<lambda>x. if x \<in> {Suc p..<Suc p + k}
        then (upd_page p (\<lambda>r. r\<lparr>page_flags := 0, page_ref := 0\<rparr>) ps x)\<lparr>page_flags := 0, page_ref := 0\<rparr>
        else upd_page p (\<lambda>r. r\<lparr>page_flags := 0, page_ref := 0\<rparr>) ps x)"
    using Suc.prems by (intro Suc.IH) (auto simp: upd_page_def)
  ultimately show ?case by (auto simp: upd_page_def fun_eq_iff)
qed auto

lemma intervals_apart:
  fixes a b :: nat
  assumes "0 < n" "0 < m" "{a..<a + n} \<inter> {b..<b + m} = {}"
  shows "b + m \<le> a \<or> a + n \<le> b"
proof (rule ccontr)
  assume "\<not> ?thesis"
  then have "max a b \<in> {a..<a + n} \<inter> {b..<b + m}" using assms(1,2) by auto
  with assms(3) show False by simp
qed

lemma default_free_pages_rep:
  assumes r: "pmm_rep s F" and n: "0 < n" and dis: "{base..<base + n} \<inter> F = {}"
    and res: "\<And>x. x \<in> {base..<base + n} \<Longrightarrow> \<not> PageReserved (pages s x)"
  shows "\<exists>s'. default_free_pages base n s = Some s' \<and> pmm_rep s' (F \<union> {base..<base + n}) \<and>
    (coalesced s \<longrightarrow> coalesced s') \<and>
    (\<forall>x. same_page (pages s' x) (if x \<in> {base..<base + n} then (pages s x)\<lparr>page_ref := 0\<rparr> else pages s x))"
proof -
  let ?R = "{base..<base + n}" and ?fl = "free_list s" and ?pr = "prop_of (pages s)"
  have b: "blocks ?pr ?fl" "area ?pr ?fl = F" "\<And>x. PageProperty (pages s x) \<longleftrightarrow> x \<in> set ?fl"
    using r by (auto simp: pmm_rep_def)
  have flF: "q \<in> F" if "q \<in> set ?fl" for q
    using that blocks_pos [OF b(1) that] unfolding b(2) [symmetric] area_def by force
  have fnot: "q \<notin> ?R" if "q \<in> set ?fl" for q
    using flF [OF that] dis by blast
  define ps0 where "ps0 = (\<lambda>x. if x \<in> ?R then (pages s x)\<lparr>page_flags := 0, page_ref := 0\<rparr> else pages s x)"
  define ps1 where "ps1 = upd_page base (\<lambda>r. SetPageProperty (r\<lparr>property := n\<rparr>)) ps0"
  have loop: "free_pages_loop base n (pages s) = Some ps0"
    unfolding ps0_def using res b(3) fnot by (intro free_pages_loop_eq) blast
  have pr1: "prop_of ps1 = ?pr(base := n)"
    by (auto simp: ps1_def ps0_def prop_of_def fun_eq_iff upd_page_def)
  have base: "base \<notin> set ?fl" using fnot [of base] n by auto
  have apart: "q + ?pr q \<le> base \<or> base + n \<le> q" if "q \<in> set ?fl" for q
  proof (rule intervals_apart [OF n blocks_pos [OF b(1) that]])
    have "{q..<q + ?pr q} \<subseteq> F" using that unfolding b(2) [symmetric] area_def by blast
    then show "{base..<base + n} \<inter> {q..<q + ?pr q} = {}" using dis by blast
  qed
  have "blocks (prop_of ps1) ?fl" "area (prop_of ps1) ?fl = F"
    using b base by (simp_all add: pr1)
  moreover have "\<forall>x. PageProperty (ps1 x) \<longleftrightarrow> x \<in> set ?fl \<or> x = base"
    using b(3) fnot by (auto simp: ps1_def ps0_def upd_page_def)
  moreover have "\<forall>q \<in> set ?fl. q + prop_of ps1 q \<le> base \<or> base + prop_of ps1 base \<le> q"
    using apart base by (auto simp: pr1)
  ultimately have m1: "merging ps1 base [] ?fl (F \<union> ?R)"
    using n unfolding merging_def by (simp add: pr1)
  obtain base' ps' fl' where mg: "free_merge base ?fl ps1 ?fl = (base', ps', fl')"
    by (cases "free_merge base ?fl ps1 ?fl") auto
  have m2: "merging ps' base' ([] @ fl') [] (F \<union> ?R)" and sp: "\<And>x. same_page (ps' x) (ps1 x)"
    using free_merge_merging [OF m1] mg by auto
  obtain le where le: "free_pos base' ps' fl' = Some le" "seq_pos le fl'"
    "blocks (prop_of ps') (seq_add_before le base' fl')"
    using free_pos_merging [OF m2] by auto
  let ?s = "s\<lparr>pages := ps', nr_free := nr_free s + n, free_list := seq_add_before le base' fl'\<rparr>"
  have "default_free_pages base n s = Some ?s"
    using n loop mg le(1) by (simp add: default_free_pages_def ps1_def [symmetric])
  moreover have "area (prop_of ps') (seq_add_before le base' fl') = F \<union> ?R"
    using m2 by (auto simp: merging_def area_def)
  moreover have "nr_free s + n = card (F \<union> ?R)"
    using r dis b(2) finite_area by (subst card_Un_disjoint) (auto simp: pmm_rep_def)
  moreover have "\<forall>x. PageProperty (ps' x) \<longleftrightarrow> x \<in> set (seq_add_before le base' fl')"
    using m2 by (auto simp: merging_def)
  moreover have "same_page (ps' x) (if x \<in> ?R then (pages s x)\<lparr>page_ref := 0\<rparr> else pages s x)" for x
    using sp [of x] res [of x] n by (auto simp: same_page_def ps1_def ps0_def upd_page_def split: if_splits)
  moreover have "coalesced ?s" if c: "coalesced s"
  proof -
    have "merged (prop_of ps1) ([] @ ?fl)" using c base by (simp add: coalesced_def pr1)
    then have "merged (prop_of ps') fl'" "\<And>q. q \<in> set fl' \<Longrightarrow> q + prop_of ps' q \<noteq> base'"
      using free_merge_coalesced [OF m1] mg by auto
    moreover have "\<And>q. q \<in> set fl' \<Longrightarrow> base' + prop_of ps' base' \<noteq> q"
      using m2 by (auto simp: merging_def)
    ultimately show ?thesis
      using seq_add_before_merged [OF le(3,2)] by (simp add: coalesced_def)
  qed
  ultimately show ?thesis using le(3) by (intro exI [of _ ?s]) (simp add: pmm_rep_def)
qed

section \<open>Allocating\<close>

lemma find_split:
  "find P xs = Some x \<Longrightarrow> \<exists>ys zs. xs = ys @ x # zs \<and> P x \<and> (\<forall>y \<in> set ys. \<not> P y)"
proof (induction xs)
  case (Cons a xs)
  show ?case
  proof (cases "P a")
    case True
    then show ?thesis using Cons.prems by (intro exI [of _ "[]"] exI [of _ xs]) auto
  next
    case False
    then obtain ys zs where "xs = ys @ x # zs" "P x" "\<forall>y \<in> set ys. \<not> P y" using Cons by auto
    with False show ?thesis by (intro exI [of _ "a # ys"] exI [of _ zs]) auto
  qed
qed simp

lemma area_apart:
  assumes b: "blocks pr (xs @ p # ys)"
  shows "area pr (xs @ ys) \<inter> {p..<p + pr p} = {}"
proof -
  have ys: "blocks pr ys" "\<And>y. y \<in> set ys \<Longrightarrow> p + pr p \<le> y" and "\<And>x. x \<in> set xs \<Longrightarrow> x + pr x \<le> p"
    using b by (auto simp: blocks_append blocks_Cons)
  then have "area pr xs \<inter> {p..<p + pr p} = {}" by (fastforce simp: area_def)
  moreover have "area pr ys \<inter> {p..<p + pr p} = {}" using area_ge [OF ys] by fastforce
  ultimately show ?thesis by auto
qed

text \<open>A block that is larger than asked for keeps its tail on the list, at the place of the block.\<close>

lemma alloc_split:
  assumes b: "blocks pr (xs @ p # ys)" and n: "0 < n" "n < pr p"
  shows "p + n \<notin> set (xs @ p # ys)" "blocks (pr(p + n := pr p - n)) (xs @ (p + n) # ys)"
    and "area (pr(p + n := pr p - n)) (xs @ (p + n) # ys) = area pr (xs @ p # ys) - {p..<p + n}"
proof -
  have xs: "\<And>x. x \<in> set xs \<Longrightarrow> x + pr x \<le> p" and ys: "\<And>y. y \<in> set ys \<Longrightarrow> p + pr p \<le> y"
    using b by (auto simp: blocks_append blocks_Cons)
  have nx: "p + n \<notin> set xs" using xs [of "p + n"] n by auto
  have ny: "p + n \<notin> set ys" using ys [of "p + n"] n by auto
  show "p + n \<notin> set (xs @ p # ys)" using nx ny n by auto
  have "x + pr x \<le> p + n" if "x \<in> set xs" for x using xs [OF that] by simp
  then show "blocks (pr(p + n := pr p - n)) (xs @ (p + n) # ys)"
    using b n nx ny by (auto simp: blocks_append blocks_Cons)
  have "{p..<p + pr p} - {p..<p + n} = {p + n..<p + pr p}" using n by auto
  moreover have "area pr (xs @ ys) \<inter> {p..<p + n} = {}" using area_apart [OF b] n by force
  ultimately show "area (pr(p + n := pr p - n)) (xs @ (p + n) # ys) = area pr (xs @ p # ys) - {p..<p + n}"
    using nx ny n by auto
qed

lemma alloc_whole:
  assumes b: "blocks pr (xs @ p # ys)"
  shows "blocks pr (xs @ ys)" "area pr (xs @ ys) = area pr (xs @ p # ys) - {p..<p + pr p}"
  using b area_apart [OF b] by (auto simp: blocks_append blocks_Cons)

lemma default_alloc_none:
  assumes r: "pmm_rep s F" and n: "0 < n"
    and f: "find (\<lambda>p. property (pages s p) \<ge> n) (free_list s) = None"
  shows "default_alloc_pages n s = Some (None, s)"
  using n f by (auto simp: default_alloc_pages_def)

lemma default_alloc_some:
  assumes r: "pmm_rep s F" and n: "0 < n"
    and f: "find (\<lambda>p. property (pages s p) \<ge> n) (free_list s) = Some p"
  shows "\<exists>s'. default_alloc_pages n s = Some (Some p, s') \<and> {p..<p + n} \<subseteq> F \<and>
    pmm_rep s' (F - {p..<p + n}) \<and> (coalesced s \<longrightarrow> coalesced s') \<and>
    (\<forall>x. same_page (pages s' x) (pages s x))"
proof -
  let ?pr = "prop_of (pages s)"
  obtain xs ys where fl: "free_list s = xs @ p # ys" and pn: "n \<le> ?pr p"
    using find_split [OF f] by (auto simp: prop_of_def)
  have b: "blocks ?pr (xs @ p # ys)" "area ?pr (xs @ p # ys) = F"
    "\<And>x. PageProperty (pages s x) \<longleftrightarrow> x \<in> set (xs @ p # ys)" "nr_free s = card F"
    using r fl by (auto simp: pmm_rep_def)
  have d: "p \<notin> set (xs @ ys)" using blocks_distinct [OF b(1)] by auto
  have sub: "{p..<p + n} \<subseteq> F" using pn unfolding b(2) [symmetric] by auto
  have fin: "finite F" unfolding b(2) [symmetric] by simp
  have nr: "n \<le> nr_free s" "nr_free s - n = card (F - {p..<p + n})"
    using card_mono [OF fin sub] card_Diff_subset [OF _ sub] b(4) by auto
  show ?thesis
  proof (cases "?pr p > n")
    case True
    define s' where "s' = s\<lparr>free_list := xs @ (p + n) # ys, nr_free := nr_free s - n,
      pages := upd_page p ClearPageProperty
        (upd_page (p + n) (\<lambda>r. SetPageProperty (r\<lparr>property := ?pr p - n\<rparr>)) (pages s))\<rparr>"
    note sp = alloc_split [OF b(1) n True]
    have "seq_add_after (Some p) (p + n) (xs @ p # ys) = xs @ p # (p + n) # ys"
      using d by (intro seq_add_after_split) simp
    moreover have "seq_del p (xs @ p # (p + n) # ys) = xs @ (p + n) # ys"
      using d by (intro seq_del_mid) simp
    ultimately have "default_alloc_pages n s = Some (Some p, s')"
      using n nr(1) f True unfolding default_alloc_pages_def s'_def fl prop_of_def
      by (simp add: Let_def)
    moreover have "prop_of (pages s') = ?pr(p + n := ?pr p - n)"
      using n by (auto simp: s'_def prop_of_def fun_eq_iff)
    moreover have "\<forall>x. PageProperty (pages s' x) \<longleftrightarrow> x \<in> set (xs @ (p + n) # ys)"
      using b(3) d n by (auto simp: s'_def upd_page_def)
    moreover have "same_page (pages s' x) (pages s x)" for x
      by (auto simp: s'_def upd_page_def same_page_def)
    moreover have "merged (?pr(p + n := ?pr p - n)) (xs @ (p + n) # ys)" if "coalesced s"
      using that sp(1) True fl by (fastforce simp: coalesced_def merged_append)
    ultimately show ?thesis
      using sub sp(2,3) nr(2) b(2)
      by (intro exI [of _ s']) (simp add: pmm_rep_def coalesced_def, simp add: s'_def)
  next
    case False
    then have pn: "?pr p = n" using pn by simp
    define s' where "s' = s\<lparr>free_list := xs @ ys, nr_free := nr_free s - n,
      pages := upd_page p ClearPageProperty (pages s)\<rparr>"
    have "seq_del p (xs @ p # ys) = xs @ ys"
      using d by (intro seq_del_mid) simp
    then have "default_alloc_pages n s = Some (Some p, s')"
      using n nr(1) f False unfolding default_alloc_pages_def s'_def prop_of_def
      by (simp add: Let_def fl)
    moreover have "prop_of (pages s') = ?pr"
      by (auto simp: s'_def prop_of_def fun_eq_iff upd_page_def)
    moreover have "\<forall>x. PageProperty (pages s' x) \<longleftrightarrow> x \<in> set (xs @ ys)"
      using b(3) d by (auto simp: s'_def upd_page_def)
    moreover have "same_page (pages s' x) (pages s x)" for x
      by (auto simp: s'_def upd_page_def same_page_def)
    moreover have "merged ?pr (xs @ ys)" if "coalesced s"
      using that fl by (simp add: coalesced_def merged_append)
    ultimately show ?thesis
      using sub alloc_whole [OF b(1)] nr(2) b(2) pn
      by (intro exI [of _ s']) (simp add: pmm_rep_def coalesced_def, simp add: s'_def)
  qed
qed

section \<open>Initialisation and the contract\<close>

lemma init_memmap_loop_eq:
  assumes "\<And>x. x \<in> {p..<p + k} \<Longrightarrow> PageReserved (ps x)"
  shows "init_memmap_loop p k ps =
    Some (\<lambda>x. if x \<in> {p..<p + k} then (ps x)\<lparr>page_flags := 0, property := 0, page_ref := 0\<rparr> else ps x)"
  using assms
proof (induction k arbitrary: p ps)
  case (Suc k)
  let ?u = "upd_page p (\<lambda>r. r\<lparr>page_flags := 0, property := 0, page_ref := 0\<rparr>) ps"
  have "init_memmap_loop (Suc p) k ?u = Some (\<lambda>x. if x \<in> {Suc p..<Suc p + k}
      then (?u x)\<lparr>page_flags := 0, property := 0, page_ref := 0\<rparr> else ?u x)"
    using Suc.prems by (intro Suc.IH) (auto simp: upd_page_def)
  then show ?case using Suc.prems by (auto simp: upd_page_def fun_eq_iff)
qed auto

text \<open>
  \<open>page_init\<close> hands over the memory regions from low to high addresses; the region goes to the end of
  the list.
\<close>

lemma default_init_memmap_rep:
  assumes r: "pmm_rep s F" and n: "0 < n" and res: "\<And>x. x \<in> {base..<base + n} \<Longrightarrow> PageReserved (pages s x)"
    and above: "\<And>x. x \<in> F \<Longrightarrow> x < base"
  shows "\<exists>s'. default_init_memmap base n s = Some s' \<and> pmm_rep s' (F \<union> {base..<base + n}) \<and>
    (\<forall>x \<in> {base..<base + n}. page_ref (pages s' x) = 0 \<and> \<not> PageReserved (pages s' x))"
proof -
  let ?R = "{base..<base + n}" and ?fl = "free_list s" and ?pr = "prop_of (pages s)"
  have b: "blocks ?pr ?fl" "area ?pr ?fl = F" "\<And>x. PageProperty (pages s x) \<longleftrightarrow> x \<in> set ?fl"
    using r by (auto simp: pmm_rep_def)
  have q: "q + ?pr q \<le> base" if "q \<in> set ?fl" for q
  proof -
    have "q + ?pr q - 1 \<in> F"
      using that blocks_pos [OF b(1) that] unfolding b(2) [symmetric] area_def
      by (intro UN_I [OF that]) auto
    then show ?thesis using above by force
  qed
  have qR: "q \<notin> ?R" if "q \<in> set ?fl" for q
    using blocks_pos [OF b(1) that] q [OF that] by simp
  define ps where "ps = upd_page base (\<lambda>r. SetPageProperty (r\<lparr>property := n\<rparr>))
    (\<lambda>x. if x \<in> ?R then (pages s x)\<lparr>page_flags := 0, property := 0, page_ref := 0\<rparr> else pages s x)"
  let ?s = "s\<lparr>pages := ps, nr_free := nr_free s + n, free_list := ?fl @ [base]\<rparr>"
  have "default_init_memmap base n s = Some ?s"
    using n init_memmap_loop_eq [of base n "pages s"] res
    by (simp add: default_init_memmap_def ps_def)
  moreover have pq: "prop_of ps q = ?pr q" if "q \<in> set ?fl" for q
    using qR [OF that] n by (auto simp: ps_def prop_of_def upd_page_def)
  have pb: "prop_of ps base = n" by (simp add: ps_def)
  have "blocks (prop_of ps) (?fl @ [base])"
    using b(1) q n pq pb blocks_cong [of ?fl "prop_of ps" ?pr] by (simp add: blocks_append) (simp add: blocks_def)
  moreover have "area (prop_of ps) (?fl @ [base]) = F \<union> ?R"
    using b(2) pb area_cong [of ?fl "prop_of ps" ?pr] pq by simp
  moreover have "\<forall>x. PageProperty (ps x) \<longleftrightarrow> x \<in> set (?fl @ [base])"
    using b(3) qR n by (auto simp: ps_def upd_page_def)
  moreover have "nr_free s + n = card (F \<union> ?R)"
    using r above b(2) finite_area by (subst card_Un_disjoint) (fastforce simp: pmm_rep_def)+
  moreover have "\<forall>x \<in> ?R. page_ref (ps x) = 0 \<and> \<not> PageReserved (ps x)"
    by (auto simp: ps_def upd_page_def)
  ultimately show ?thesis by (intro exI [of _ ?s]) (simp add: pmm_rep_def)
qed

interpretation default_pmm: pmm_spec default_pmm_manager pmm_rep
proof
  show "pmm_rep s F \<Longrightarrow> finite F \<and> pmm_nr_free_pages default_pmm_manager s = card F" for s F
    using finite_area by (auto simp: pmm_rep_def default_pmm_manager_def default_nr_free_pages_def)
  show "(\<And>p. \<not> PageProperty (pages s p)) \<Longrightarrow> pmm_rep (pmm_init default_pmm_manager s) {}" for s
    by (simp add: pmm_rep_def default_pmm_manager_def default_init_def blocks_def)
  show "\<exists>r s'. pmm_alloc_pages default_pmm_manager n s = Some (r, s') \<and>
      (case r of None \<Rightarrow> s' = s
       | Some p \<Rightarrow> {p..<p + n} \<subseteq> F \<and> pmm_rep s' (F - {p..<p + n}) \<and>
           (\<forall>x. same_page (pages s' x) (pages s x)))"
    if r: "pmm_rep s F" "0 < n" for s F n
  proof (cases "find (\<lambda>p. property (pages s p) \<ge> n) (free_list s)")
    case None
    then show ?thesis using default_alloc_none [OF r] by (simp add: default_pmm_manager_def)
  next
    case (Some p)
    then show ?thesis
      using default_alloc_some [OF r] by (fastforce simp: default_pmm_manager_def same_page_def)
  qed
  show "F = {}" if r: "pmm_rep s F" and a: "pmm_alloc_pages default_pmm_manager 1 s = Some (None, s')" for s s' F
  proof -
    have "find (\<lambda>p. property (pages s p) \<ge> 1) (free_list s) = None"
      using default_alloc_some [OF r, of 1] a by (fastforce simp: default_pmm_manager_def)
    then show ?thesis
      using r blocks_pos [of "prop_of (pages s)" "free_list s"]
      by (fastforce simp: pmm_rep_def find_None_iff area_def prop_of_def)
  qed
  show "\<exists>s'. pmm_free_pages default_pmm_manager p n s = Some s' \<and> pmm_rep s' (F \<union> {p..<p + n}) \<and>
           (\<forall>x. same_page (pages s' x)
              (if x \<in> {p..<p + n} then (pages s x)\<lparr>page_ref := 0\<rparr> else pages s x))"
    if "pmm_rep s F" "0 < n" "{p..<p + n} \<inter> F = {}"
      "\<And>x. x \<in> {p..<p + n} \<Longrightarrow> \<not> PageReserved (pages s x)" for s F n p
    using default_free_pages_rep [OF that] unfolding default_pmm_manager_def by (metis pmm_manager.select_convs(5))
qed

section \<open>Properties\<close>

text \<open>
  C8: \<open>default_alloc_pages\<close> is first fit and exact.  It never fails an assertion; it returns the
  first block of the list that is large enough, if there is one, and then exactly the \<open>n\<close> pages from
  there stop being free; otherwise it returns \<open>NULL\<close> and changes nothing.  Free blocks stay merged.
\<close>

theorem default_alloc_first_fit:
  assumes "pmm_rep s F" "0 < n"
  shows "(case find (\<lambda>p. property (pages s p) \<ge> n) (free_list s) of
            None \<Rightarrow> default_alloc_pages n s = Some (None, s)
          | Some p \<Rightarrow> (\<exists>s'. default_alloc_pages n s = Some (Some p, s') \<and> {p..<p + n} \<subseteq> F \<and>
              pmm_rep s' (F - {p..<p + n}) \<and> (coalesced s \<longrightarrow> coalesced s')))"
  using default_alloc_none [OF assms] default_alloc_some [OF assms] by (fastforce split: option.split)

text \<open>Seven pages: 0 to 2 and 4 to 6 are free, 3 is in use.\<close>

definition ex_area :: free_area where
  "ex_area = \<lparr>pages = (\<lambda>p. \<lparr>page_ref = (if p = 3 then 1 else 0), page_flags = (if p \<in> {0, 4} then 2 else 0),
     property = (if p = 0 then 3 else if p = 4 then 3 else 0), zone_num = 0, pra_vaddr = 0\<rparr>),
     free_list = [0, 4], nr_free = 6\<rparr>"

lemma ex_area_rep: "pmm_rep ex_area {0, 1, 2, 4, 5, 6}" and ex_area_coalesced: "coalesced ex_area"
proof -
  have "area (prop_of (pages ex_area)) (free_list ex_area) = {0..<3} \<union> {4..<7}"
    by (auto simp: ex_area_def prop_of_def)
  also have "\<dots> = {0, 1, 2, 4, 5, 6}" by auto
  finally show "pmm_rep ex_area {0, 1, 2, 4, 5, 6}"
    by (auto simp: pmm_rep_def blocks_def ex_area_def prop_of_def PageProperty_def PG_property_def
        test_bit_nr_def)
  show "coalesced ex_area"
    by (simp add: coalesced_def merged_def ex_area_def prop_of_def)
qed

theorem default_alloc_first_fit_witness:
  "\<exists>s'. default_alloc_pages 2 ex_area = Some (Some 0, s') \<and> pmm_rep s' {2, 4, 5, 6}"
proof -
  have "{0, 1, 2, 4, 5, 6} - {0..<0 + 2} = ({2, 4, 5, 6} :: nat set)" by auto
  then show ?thesis using default_alloc_first_fit [OF ex_area_rep, of 2] by (auto simp: ex_area_def)
qed

text \<open>
  C9: Allocation is complete.  When free blocks are merged, \<open>default_alloc_pages n\<close> fails, changing nothing,
  exactly when no \<open>n\<close> consecutive pages are free; otherwise it returns \<open>n\<close> consecutive pages that were free,
  and exactly these are free no longer.
\<close>

theorem default_alloc_complete:
  assumes r: "pmm_rep s F" and c: "coalesced s" and n: "0 < n"
  shows "(default_alloc_pages n s = Some (None, s) \<longleftrightarrow> (\<nexists>a. {a..<a + n} \<subseteq> F)) \<and>
    ((\<exists>p s'. default_alloc_pages n s = Some (Some p, s') \<and> {p..<p + n} \<subseteq> F \<and> pmm_rep s' (F - {p..<p + n}) \<and> coalesced s') \<longleftrightarrow>
      (\<exists>a. {a..<a + n} \<subseteq> F))"
proof -
  let ?find = "find (\<lambda>p. property (pages s p) \<ge> n) (free_list s)"
  have complete: "?find \<noteq> None" if run: "{a..<a + n} \<subseteq> F" for a
  proof -
    obtain p where p: "p \<in> set (free_list s)" "{a..<a + n} \<subseteq> {p..<p + prop_of (pages s) p}"
      using run_in_block [of "prop_of (pages s)" "free_list s" a n] r c run n
      by (auto simp: pmm_rep_def coalesced_def)
    then have "card {a..<a + n} \<le> card {p..<p + prop_of (pages s) p}" by (intro card_mono) auto
    then show ?thesis using p(1) by (auto simp: find_None_iff prop_of_def)
  qed
  show ?thesis
  proof (cases ?find)
    case None
    then show ?thesis using default_alloc_none [OF r n None] complete by fastforce
  next
    case (Some p)
    then show ?thesis using default_alloc_some [OF r n Some] c by fastforce
  qed
qed

theorem default_alloc_complete_witness:
  "(\<exists>p s'. default_alloc_pages 3 ex_area = Some (Some p, s')) \<and> default_alloc_pages 4 ex_area = Some (None, ex_area)"
proof -
  have "\<exists>a. {a..<a + 3} \<subseteq> ({0, 1, 2, 4, 5, 6} :: nat set)" by (intro exI [of _ 4]) auto
  moreover have "\<not> {a..<a + 4} \<subseteq> ({0, 1, 2, 4, 5, 6} :: nat set)" for a
  proof
    assume sub: "{a..<a + 4} \<subseteq> ({0, 1, 2, 4, 5, 6} :: nat set)"
    have "a + k \<in> ({0, 1, 2, 4, 5, 6} :: nat set)" if "k < 4" for k
      by (rule subsetD [OF sub]) (use that in simp)
    from this [of 0] this [of 1] this [of 2] this [of 3] show False by auto
  qed
  ultimately show ?thesis
    using default_alloc_complete [OF ex_area_rep ex_area_coalesced, of 3] default_alloc_complete [OF ex_area_rep ex_area_coalesced, of 4]
    by auto
qed

text \<open>
  C10: \<open>default_free_pages\<close> gives back exactly the pages it is passed.  If none of them is free or
  reserved, no assertion fails (neither those on the pages nor the one on the place of insertion), the
  set of free pages grows by them, their reference counts are cleared, and free blocks stay merged.
\<close>

theorem default_free_exact:
  assumes "pmm_rep s F" "0 < n" "{base..<base + n} \<inter> F = {}"
    and "\<And>x. x \<in> {base..<base + n} \<Longrightarrow> \<not> PageReserved (pages s x)"
  shows "\<exists>s'. default_free_pages base n s = Some s' \<and> pmm_rep s' (F \<union> {base..<base + n}) \<and>
    (coalesced s \<longrightarrow> coalesced s') \<and>
    (\<forall>x. page_ref (pages s' x) = (if x \<in> {base..<base + n} then 0 else page_ref (pages s x)))"
  using default_free_pages_rep [OF assms] by (fastforce simp: same_page_def)

theorem default_free_exact_witness:
  "\<exists>s'. default_free_pages 3 1 ex_area = Some s' \<and> coalesced s' \<and> pmm_rep s' {0..<7}"
proof -
  have "{3..<3 + 1} \<inter> ({0, 1, 2, 4, 5, 6} :: nat set) = {}" by auto
  moreover have "\<not> PageReserved (pages ex_area x)" if "x \<in> {3..<3 + 1}" for x
    using that by (auto simp: ex_area_def PageReserved_def PG_reserved_def test_bit_nr_def)
  ultimately have "\<exists>s'. default_free_pages 3 1 ex_area = Some s' \<and>
      pmm_rep s' ({0, 1, 2, 4, 5, 6} \<union> {3..<3 + 1}) \<and> (coalesced ex_area \<longrightarrow> coalesced s')"
    using default_free_exact [OF ex_area_rep zero_less_one, of 3] by blast
  moreover have "{0, 1, 2, 4, 5, 6} \<union> {3..<3 + 1} = {0..<7::nat}" by auto
  ultimately show ?thesis using ex_area_coalesced by auto
qed

end
