(* ===== verification/Mm.thy ===== *)
theory Mm
  imports Mmu Default_pmm
begin

text \<open>
  The state of the memory subsystem: \<open>struct vma_struct\<close> and \<open>struct mm_struct\<close> of kern/mm/vmm.h, and
  the globals of kern/mm/pmm.c, kern/mm/swap.c, kern/mm/swap_fifo.c and kern/mm/vmm.c.

  Physical memory is a family of frames of 1024 words.  The kernel reaches a frame through its mapping
  at \<open>KERNBASE\<close>; a kernel pointer into a frame is modelled by the frame number and the word index, and
  \<open>KADDR\<close> keeps its range check.  A page directory is named by the number of the frame that holds it.

  A \<open>vma\<close> is never changed once it is linked into its list, so lists and the cache hold its value;
  \<open>vma_at\<close> is the address it was allocated at.  The swap disk is an array of page slots.
  \<open>ide_xfer\<close> stands for the IDE driver: given the number of the transfer, the page sent and the old
  contents of the destination, it says what the driver returns and what the destination then holds.
\<close>

section \<open>Records\<close>

record vma_struct =
  vma_at :: u32
  vm_start :: u32
  vm_end :: u32
  vm_flags :: u32

definition VM_READ :: u32 where "VM_READ = 1"
definition VM_WRITE :: u32 where "VM_WRITE = 2"
definition VM_EXEC :: u32 where "VM_EXEC = 4"
definition VM_STACK :: u32 where "VM_STACK = 8"

type_synonym mm_ptr = u32
type_synonym frame = "nat \<Rightarrow> u32"

record mm_struct =
  mmap_list :: "vma_struct list"
  mmap_cache :: "vma_struct option"
  pgdir :: "nat option"
  map_count :: int
  sm_priv :: bool
  mm_count :: int
  mm_sem :: int
  locked_by :: int

record slob_block =
  slob_units :: int
  slob_next :: nat

record bigblock =
  bb_at :: nat
  bb_order :: nat
  bb_pages :: nat

text \<open>
  Addresses of kernel heap blocks are counted in units of 8 bytes of physical memory, 512 to a page.
  \<open>sm_priv\<close> is either \<open>NULL\<close> or the address of the one list head \<open>pra_list_head\<close>; \<open>mm_sem\<close> is the
  value of the semaphore.
\<close>

record mem_state =
  farea :: free_area
  npage :: nat
  frames :: "nat \<Rightarrow> frame"
  cr3_reg :: u32
  tlb :: "nat \<Rightarrow> u32 option"
  mms :: "mm_ptr \<Rightarrow> mm_struct"
  check_mm_struct :: "mm_ptr option"
  pgfault_num :: u32
  swap_init_ok :: bool
  max_swap_offset :: u32
  pra_list :: "page_ptr list"
  swap_disk :: "nat \<Rightarrow> frame"
  ide_ops :: nat
  ide_xfer :: "nat \<Rightarrow> frame \<Rightarrow> frame \<Rightarrow> int \<times> frame"
  slobs :: "nat \<Rightarrow> slob_block"
  slobfree :: nat
  arena :: nat
  bigblocks :: "bigblock list"

section \<open>Access to the state\<close>

type_synonym pte_ptr = "nat \<times> nat"

definition rd :: "mem_state \<Rightarrow> pte_ptr \<Rightarrow> u32" where
  "rd s a = frames s (fst a) (snd a)"

definition wr :: "pte_ptr \<Rightarrow> u32 \<Rightarrow> mem_state \<Rightarrow> mem_state" where
  "wr a v s = s\<lparr>frames := (frames s)(fst a := (frames s (fst a))(snd a := v))\<rparr>"

definition page_of :: "mem_state \<Rightarrow> page_ptr \<Rightarrow> page" where
  "page_of s p = pages (farea s) p"

definition mod_page :: "page_ptr \<Rightarrow> (page \<Rightarrow> page) \<Rightarrow> mem_state \<Rightarrow> mem_state" where
  "mod_page p f s = s\<lparr>farea := (farea s)\<lparr>pages := upd_page p f (pages (farea s))\<rparr>\<rparr>"

definition upd_mm :: "mm_ptr \<Rightarrow> (mm_struct \<Rightarrow> mm_struct) \<Rightarrow> mem_state \<Rightarrow> mem_state" where
  "upd_mm mm f s = s\<lparr>mms := (mms s)(mm := f (mms s mm))\<rparr>"

section \<open>Conversions of kern/mm/pmm.h\<close>

definition KADDR :: "u32 \<Rightarrow> mem_state \<Rightarrow> nat option" where
  "KADDR pa s = do { kassert (PPN pa < npage s); Some (PPN pa) }"

definition PADDR :: "nat \<Rightarrow> u32" where
  "PADDR f = push_bit PGSHIFT (of_nat f)"

definition pa2page :: "u32 \<Rightarrow> mem_state \<Rightarrow> page_ptr option" where
  "pa2page pa s = do { kassert (PPN pa < npage s); Some (PPN pa) }"

definition page2kva :: "page_ptr \<Rightarrow> mem_state \<Rightarrow> nat option" where
  "page2kva p s = KADDR (page2pa p) s"

definition pte2page :: "u32 \<Rightarrow> mem_state \<Rightarrow> page_ptr option" where
  "pte2page pte s = do { kassert (present pte); pa2page (PTE_ADDR pte) s }"

definition pde2page :: "u32 \<Rightarrow> mem_state \<Rightarrow> page_ptr option" where
  "pde2page pde s = pa2page (PDE_ADDR pde) s"

definition set_page_ref :: "page_ptr \<Rightarrow> int \<Rightarrow> mem_state \<Rightarrow> mem_state" where
  "set_page_ref p v = mod_page p (\<lambda>r. r\<lparr>page_ref := v\<rparr>)"

definition page_ref_inc :: "page_ptr \<Rightarrow> mem_state \<Rightarrow> int \<times> mem_state" where
  "page_ref_inc p s =
     (let s = mod_page p (\<lambda>r. r\<lparr>page_ref := page_ref r + 1\<rparr>) s in (page_ref (page_of s p), s))"

definition page_ref_dec :: "page_ptr \<Rightarrow> mem_state \<Rightarrow> int \<times> mem_state" where
  "page_ref_dec p s =
     (let s = mod_page p (\<lambda>r. r\<lparr>page_ref := page_ref r - 1\<rparr>) s in (page_ref (page_of s p), s))"

section \<open>Facts\<close>

lemma rd_wr [simp]: "rd (wr a v s) b = (if b = a then v else rd s b)"
  by (cases a; cases b) (auto simp: rd_def wr_def)

lemma rd_frame_cong: "frames s' = frames s \<Longrightarrow> rd s' a = rd s a"
  by (simp add: rd_def)

lemma wr_sel [simp]:
  "farea (wr a v s) = farea s" "npage (wr a v s) = npage s" "cr3_reg (wr a v s) = cr3_reg s"
  "tlb (wr a v s) = tlb s" "mms (wr a v s) = mms s" "check_mm_struct (wr a v s) = check_mm_struct s"
  "pgfault_num (wr a v s) = pgfault_num s" "swap_init_ok (wr a v s) = swap_init_ok s"
  "max_swap_offset (wr a v s) = max_swap_offset s" "pra_list (wr a v s) = pra_list s"
  "swap_disk (wr a v s) = swap_disk s" "ide_ops (wr a v s) = ide_ops s" "ide_xfer (wr a v s) = ide_xfer s"
  "page_of (wr a v s) = page_of s" "slobs (wr a v s) = slobs s" "slobfree (wr a v s) = slobfree s"
  "arena (wr a v s) = arena s" "bigblocks (wr a v s) = bigblocks s"
  by (simp_all add: wr_def page_of_def fun_eq_iff)

lemma mod_page_sel [simp]:
  "frames (mod_page p f s) = frames s" "npage (mod_page p f s) = npage s"
  "cr3_reg (mod_page p f s) = cr3_reg s" "tlb (mod_page p f s) = tlb s" "mms (mod_page p f s) = mms s"
  "check_mm_struct (mod_page p f s) = check_mm_struct s" "pgfault_num (mod_page p f s) = pgfault_num s"
  "swap_init_ok (mod_page p f s) = swap_init_ok s" "max_swap_offset (mod_page p f s) = max_swap_offset s"
  "pra_list (mod_page p f s) = pra_list s" "swap_disk (mod_page p f s) = swap_disk s"
  "ide_ops (mod_page p f s) = ide_ops s" "ide_xfer (mod_page p f s) = ide_xfer s"
  "rd (mod_page p f s) = rd s" "slobs (mod_page p f s) = slobs s" "slobfree (mod_page p f s) = slobfree s"
  "arena (mod_page p f s) = arena s" "bigblocks (mod_page p f s) = bigblocks s"
  "page_of (mod_page p f s) q = (if q = p then f (page_of s p) else page_of s q)"
  by (simp_all add: mod_page_def page_of_def rd_def fun_eq_iff upd_page_def)

text \<open>Changing a reference count or the replacement address does not disturb the allocator.\<close>

definition keeps_free :: "(page \<Rightarrow> page) \<Rightarrow> bool" where
  "keeps_free f \<longleftrightarrow> (\<forall>r. property (f r) = property r \<and> page_flags (f r) = page_flags r)"

lemma pmm_rep_mod_page:
  assumes f: "keeps_free f"
  shows "pmm_rep (farea (mod_page p f s)) F = pmm_rep (farea s) F"
proof -
  have "prop_of (upd_page p f ps) = prop_of ps" for ps
    using f by (auto simp: prop_of_def upd_page_def keeps_free_def fun_eq_iff)
  moreover have "PageProperty (upd_page p f ps x) = PageProperty (ps x)" for ps x
    using f by (simp add: upd_page_def PageProperty_def keeps_free_def)
  ultimately show ?thesis by (simp add: mod_page_def pmm_rep_def)
qed

lemma keeps_free_upd [simp]:
  "keeps_free (\<lambda>r. r\<lparr>page_ref := g r\<rparr>)" "keeps_free (\<lambda>r. r\<lparr>pra_vaddr := h r\<rparr>)"
  by (simp_all add: keeps_free_def)

end
