(* ===== verification/Pmm.thy ===== *)
theory Pmm
  imports Mm
begin

text \<open>
  Page tables and page allocation: kern/mm/pmm.c, with the parts of kern/mm/swap.c, kern/mm/swap_fifo.c
  and kern/fs/swap/swapfs.c that allocation calls when memory is short.  \<open>None\<close> is a panic, a failed
  assertion, a dereferenced null pointer, or (for \<open>alloc_pages\<close>, which retries after swapping out) a
  loop that never ends.
\<close>

section \<open>Entries, TLB and freeing\<close>

definition tlb_invalidate :: "nat \<Rightarrow> u32 \<Rightarrow> mem_state \<Rightarrow> mem_state" where
  "tlb_invalidate pd la s = (if cr3_reg s = PADDR pd then s\<lparr>tlb := (tlb s)(PPN la := None)\<rparr> else s)"

text \<open>The last line of \<open>get_pte\<close>, and \<open>get_pte\<close> with \<open>create = 0\<close>.\<close>

definition pt_entry :: "nat \<Rightarrow> u32 \<Rightarrow> mem_state \<Rightarrow> pte_ptr option" where
  "pt_entry pd la s = do { t \<leftarrow> KADDR (PDE_ADDR (rd s (pd, PDX la))) s; Some (t, PTX la) }"

definition lookup_pte :: "nat \<Rightarrow> u32 \<Rightarrow> mem_state \<Rightarrow> pte_ptr option option" where
  "lookup_pte pd la s =
     (if \<not> present (rd s (pd, PDX la)) then Some None
      else do { a \<leftarrow> pt_entry pd la s; Some (Some a) })"

definition free_pages :: "page_ptr \<Rightarrow> nat \<Rightarrow> mem_state \<Rightarrow> mem_state option" where
  "free_pages base n s =
     do { fa \<leftarrow> pmm_free_pages default_pmm_manager base n (farea s); Some (s\<lparr>farea := fa\<rparr>) }"

definition nr_free_pages :: "mem_state \<Rightarrow> nat" where
  "nr_free_pages s = pmm_nr_free_pages default_pmm_manager (farea s)"

section \<open>The swap file and the FIFO replacement policy\<close>

definition swap_offset :: "u32 \<Rightarrow> mem_state \<Rightarrow> nat option" where
  "swap_offset entry s =
     (let off = drop_bit 8 entry in
      do { kassert (off > 0 \<and> off < max_swap_offset s); Some (unat off) })"

definition swapfs_read :: "u32 \<Rightarrow> page_ptr \<Rightarrow> mem_state \<Rightarrow> (int \<times> mem_state) option" where
  "swapfs_read entry p s =
     do { off \<leftarrow> swap_offset entry s;
          kva \<leftarrow> page2kva p s;
          let (r, f) = ide_xfer s (ide_ops s) (swap_disk s off) (frames s kva);
          Some (r, s\<lparr>ide_ops := Suc (ide_ops s), frames := (frames s)(kva := f)\<rparr>) }"

definition swapfs_write :: "u32 \<Rightarrow> page_ptr \<Rightarrow> mem_state \<Rightarrow> (int \<times> mem_state) option" where
  "swapfs_write entry p s =
     do { off \<leftarrow> swap_offset entry s;
          kva \<leftarrow> page2kva p s;
          let (r, f) = ide_xfer s (ide_ops s) (frames s kva) (swap_disk s off);
          Some (r, s\<lparr>ide_ops := Suc (ide_ops s), swap_disk := (swap_disk s)(off := f)\<rparr>) }"

record swap_manager =
  sm_name :: string
  sm_init :: "mem_state \<Rightarrow> int \<times> mem_state"
  sm_init_mm :: "mm_ptr option \<Rightarrow> mem_state \<Rightarrow> (int \<times> mem_state) option"
  sm_tick_event :: "mm_ptr option \<Rightarrow> mem_state \<Rightarrow> int \<times> mem_state"
  sm_map_swappable :: "mm_ptr option \<Rightarrow> u32 \<Rightarrow> page_ptr \<Rightarrow> bool \<Rightarrow> mem_state \<Rightarrow> (int \<times> mem_state) option"
  sm_set_unswappable :: "mm_ptr option \<Rightarrow> u32 \<Rightarrow> mem_state \<Rightarrow> int \<times> mem_state"
  sm_swap_out_victim :: "mm_ptr option \<Rightarrow> bool \<Rightarrow> mem_state \<Rightarrow> (int \<times> page_ptr \<times> mem_state) option"

definition fifo_init :: "mem_state \<Rightarrow> int \<times> mem_state" where
  "fifo_init s = (0, s)"

definition fifo_init_mm :: "mm_ptr option \<Rightarrow> mem_state \<Rightarrow> (int \<times> mem_state) option" where
  "fifo_init_mm mm s =
     do { m \<leftarrow> mm; Some (0, upd_mm m (\<lambda>r. r\<lparr>sm_priv := True\<rparr>) (s\<lparr>pra_list := []\<rparr>)) }"

definition fifo_map_swappable ::
  "mm_ptr option \<Rightarrow> u32 \<Rightarrow> page_ptr \<Rightarrow> bool \<Rightarrow> mem_state \<Rightarrow> (int \<times> mem_state) option" where
  "fifo_map_swappable mm addr p swap_in s =
     do { m \<leftarrow> mm;
          kassert (sm_priv (mms s m));
          Some (0, s\<lparr>pra_list := seq_add_after None p (pra_list s)\<rparr>) }"

definition fifo_swap_out_victim ::
  "mm_ptr option \<Rightarrow> bool \<Rightarrow> mem_state \<Rightarrow> (int \<times> page_ptr \<times> mem_state) option" where
  "fifo_swap_out_victim mm in_tick s =
     do { m \<leftarrow> mm;
          kassert (sm_priv (mms s m));
          kassert (\<not> in_tick);
          kassert (pra_list s \<noteq> []);
          let p = last (pra_list s);
          Some (0, p, s\<lparr>pra_list := seq_del p (pra_list s)\<rparr>) }"

definition fifo_set_unswappable :: "mm_ptr option \<Rightarrow> u32 \<Rightarrow> mem_state \<Rightarrow> int \<times> mem_state" where
  "fifo_set_unswappable mm addr s = (0, s)"

definition fifo_tick_event :: "mm_ptr option \<Rightarrow> mem_state \<Rightarrow> int \<times> mem_state" where
  "fifo_tick_event mm s = (0, s)"

definition swap_manager_fifo :: swap_manager where
  "swap_manager_fifo =
     \<lparr>sm_name = ''fifo swap manager'', sm_init = fifo_init, sm_init_mm = fifo_init_mm,
      sm_tick_event = fifo_tick_event, sm_map_swappable = fifo_map_swappable,
      sm_set_unswappable = fifo_set_unswappable, sm_swap_out_victim = fifo_swap_out_victim\<rparr>"

text \<open>\<open>sm\<close> is only ever set to the FIFO manager, by \<open>swap_init\<close>.\<close>

abbreviation sm :: swap_manager where
  "sm \<equiv> swap_manager_fifo"

definition swap_init_mm :: "mm_ptr option \<Rightarrow> mem_state \<Rightarrow> (int \<times> mem_state) option" where
  "swap_init_mm mm = sm_init_mm sm mm"

definition swap_map_swappable ::
  "mm_ptr option \<Rightarrow> u32 \<Rightarrow> page_ptr \<Rightarrow> bool \<Rightarrow> mem_state \<Rightarrow> (int \<times> mem_state) option" where
  "swap_map_swappable mm addr p swap_in = sm_map_swappable sm mm addr p swap_in"

definition swap_tick_event :: "mm_ptr option \<Rightarrow> mem_state \<Rightarrow> int \<times> mem_state" where
  "swap_tick_event mm = sm_tick_event sm mm"

definition swap_set_unswappable :: "mm_ptr option \<Rightarrow> u32 \<Rightarrow> mem_state \<Rightarrow> int \<times> mem_state" where
  "swap_set_unswappable mm addr = sm_set_unswappable sm mm addr"

text \<open>
  One round of the loop of \<open>swap_out\<close>, for a victim the policy has chosen.  The entry saved in the page
  table and on disk is computed from the address the page is mapped at.
\<close>

definition swap_entry_of :: "u32 \<Rightarrow> u32" where
  "swap_entry_of v = push_bit 8 (v div PGSIZE + 1)"

definition swap_out_page :: "mm_ptr \<Rightarrow> page_ptr \<Rightarrow> mem_state \<Rightarrow> mem_state option" where
  "swap_out_page m p s =
     do { let v = pra_vaddr (page_of s p);
          pd \<leftarrow> pgdir (mms s m);
          r \<leftarrow> lookup_pte pd v s;
          ptep \<leftarrow> r;
          kassert (present (rd s ptep));
          (w, s) \<leftarrow> swapfs_write (swap_entry_of v) p s;
          if w \<noteq> 0 then
            do { (_, s) \<leftarrow> sm_map_swappable sm (Some m) v p False s; Some s }
          else
            do { let s = wr ptep (swap_entry_of v) s;
                 s \<leftarrow> free_pages p 1 s;
                 Some (tlb_invalidate pd v s) } }"

fun swap_out_loop :: "mm_ptr option \<Rightarrow> nat \<Rightarrow> nat \<Rightarrow> bool \<Rightarrow> mem_state \<Rightarrow> (int \<times> mem_state) option" where
  "swap_out_loop mm i 0 in_tick s = Some (int i, s)"
| "swap_out_loop mm i (Suc k) in_tick s =
     do { (r, p, s) \<leftarrow> sm_swap_out_victim sm mm in_tick s;
          if r \<noteq> 0 then Some (int i, s)
          else do { m \<leftarrow> mm; s \<leftarrow> swap_out_page m p s; swap_out_loop mm (Suc i) k in_tick s } }"

definition swap_out :: "mm_ptr option \<Rightarrow> nat \<Rightarrow> bool \<Rightarrow> mem_state \<Rightarrow> (int \<times> mem_state) option" where
  "swap_out mm n in_tick s = swap_out_loop mm 0 n in_tick s"

section \<open>Allocation\<close>

partial_function (option) alloc_pages :: "nat \<Rightarrow> mem_state \<Rightarrow> (page_ptr option \<times> mem_state) option" where
  "alloc_pages n s =
     do { (p, fa) \<leftarrow> pmm_alloc_pages default_pmm_manager n (farea s);
          let s = s\<lparr>farea := fa\<rparr>;
          if p \<noteq> None \<or> n > 1 \<or> \<not> swap_init_ok s then Some (p, s)
          else do { (_, s) \<leftarrow> swap_out (check_mm_struct s) n False s; alloc_pages n s } }"

section \<open>Page tables\<close>

definition get_pte :: "nat \<Rightarrow> u32 \<Rightarrow> bool \<Rightarrow> mem_state \<Rightarrow> (pte_ptr option \<times> mem_state) option" where
  "get_pte pd la create s =
     (if \<not> present (rd s (pd, PDX la)) \<and> create then
        do { (r, s) \<leftarrow> alloc_pages 1 s;
             case r of
               None \<Rightarrow> Some (None, s)
             | Some p \<Rightarrow>
                 do { let s = set_page_ref p 1 s;
                      let pa = page2pa p;
                      kva \<leftarrow> KADDR pa s;
                      let s = s\<lparr>frames := (frames s)(kva := (\<lambda>i. 0))\<rparr>;
                      let s = wr (pd, PDX la) (pa OR PTE_U OR PTE_W OR PTE_P) s;
                      a \<leftarrow> pt_entry pd la s;
                      Some (Some a, s) } }
      else do { r \<leftarrow> lookup_pte pd la s; Some (r, s) })"

definition get_page :: "nat \<Rightarrow> u32 \<Rightarrow> mem_state \<Rightarrow> (page_ptr option \<times> pte_ptr option) option" where
  "get_page pd la s =
     do { r \<leftarrow> lookup_pte pd la s;
          case r of
            None \<Rightarrow> Some (None, None)
          | Some ptep \<Rightarrow>
              if present (rd s ptep) then do { p \<leftarrow> pte2page (rd s ptep) s; Some (Some p, Some ptep) }
              else Some (None, Some ptep) }"

definition page_remove_pte :: "nat \<Rightarrow> u32 \<Rightarrow> pte_ptr \<Rightarrow> mem_state \<Rightarrow> mem_state option" where
  "page_remove_pte pd la ptep s =
     (if present (rd s ptep) then
        do { p \<leftarrow> pte2page (rd s ptep) s;
             let (r, s) = page_ref_dec p s;
             s \<leftarrow> (if r = 0 then free_pages p 1 s else Some s);
             let s = wr ptep 0 s;
             Some (tlb_invalidate pd la s) }
      else Some s)"

definition page_remove :: "nat \<Rightarrow> u32 \<Rightarrow> mem_state \<Rightarrow> mem_state option" where
  "page_remove pd la s =
     do { r \<leftarrow> lookup_pte pd la s;
          case r of None \<Rightarrow> Some s | Some ptep \<Rightarrow> page_remove_pte pd la ptep s }"

definition insert_count :: "nat \<Rightarrow> page_ptr \<Rightarrow> u32 \<Rightarrow> pte_ptr \<Rightarrow> mem_state \<Rightarrow> mem_state option" where
  "insert_count pd p la ptep s =
     (let (_, s) = page_ref_inc p s in
      if present (rd s ptep) then
        do { q \<leftarrow> pte2page (rd s ptep) s;
             if q = p then Some (snd (page_ref_dec p s)) else page_remove_pte pd la ptep s }
      else Some s)"

definition page_insert :: "nat \<Rightarrow> page_ptr \<Rightarrow> u32 \<Rightarrow> u32 \<Rightarrow> mem_state \<Rightarrow> (int \<times> mem_state) option" where
  "page_insert pd p la perm s =
     do { (r, s) \<leftarrow> get_pte pd la True s;
          case r of
            None \<Rightarrow> Some (err E_NO_MEM, s)
          | Some ptep \<Rightarrow>
              do { s \<leftarrow> insert_count pd p la ptep s;
                   let s = wr ptep (page2pa p OR PTE_P OR perm) s;
                   Some (0, tlb_invalidate pd la s) } }"

definition pgdir_alloc_page :: "nat \<Rightarrow> u32 \<Rightarrow> u32 \<Rightarrow> mem_state \<Rightarrow> (page_ptr option \<times> mem_state) option" where
  "pgdir_alloc_page pd la perm s =
     do { (r, s) \<leftarrow> alloc_pages 1 s;
          case r of
            None \<Rightarrow> Some (None, s)
          | Some p \<Rightarrow>
              do { (e, s) \<leftarrow> page_insert pd p la perm s;
                   if e \<noteq> 0 then do { s \<leftarrow> free_pages p 1 s; Some (None, s) }
                   else if swap_init_ok s \<and> check_mm_struct s \<noteq> None then
                     do { (_, s) \<leftarrow> swap_map_swappable (check_mm_struct s) la p False s;
                          let s = mod_page p (\<lambda>r. r\<lparr>pra_vaddr := la\<rparr>) s;
                          kassert (page_ref (page_of s p) = 1);
                          Some (Some p, s) }
                   else Some (Some p, s) } }"

section \<open>Ranges\<close>

text \<open>
  The loops \<open>do ... while (start != 0 && start < end)\<close>.  One round gives an error code, the next
  address and the state; a non-zero code is an early return.
\<close>

partial_function (option) range_loop ::
  "(u32 \<Rightarrow> mem_state \<Rightarrow> (int \<times> u32 \<times> mem_state) option) \<Rightarrow> u32 \<Rightarrow> u32 \<Rightarrow> mem_state \<Rightarrow> (int \<times> mem_state) option"
where
  "range_loop step fin start s =
     do { (e, start, s) \<leftarrow> step start s;
          if e \<noteq> 0 then Some (e, s)
          else if start \<noteq> 0 \<and> start < fin then range_loop step fin start s
          else Some (0, s) }"

definition unmap_step :: "nat \<Rightarrow> u32 \<Rightarrow> mem_state \<Rightarrow> (int \<times> u32 \<times> mem_state) option" where
  "unmap_step pd start s =
     do { r \<leftarrow> lookup_pte pd start s;
          case r of
            None \<Rightarrow> Some (0, ROUNDDOWN (start + PTSIZE) PTSIZE, s)
          | Some ptep \<Rightarrow>
              do { s \<leftarrow> (if rd s ptep \<noteq> 0 then page_remove_pte pd start ptep s else Some s);
                   Some (0, start + PGSIZE, s) } }"

definition unmap_range :: "nat \<Rightarrow> u32 \<Rightarrow> u32 \<Rightarrow> mem_state \<Rightarrow> mem_state option" where
  "unmap_range pd start fin s =
     do { kassert (start mod PGSIZE = 0 \<and> fin mod PGSIZE = 0);
          kassert (USER_ACCESS start fin);
          (_, s) \<leftarrow> range_loop (unmap_step pd) fin start s;
          Some s }"

definition exit_step :: "nat \<Rightarrow> u32 \<Rightarrow> mem_state \<Rightarrow> (int \<times> u32 \<times> mem_state) option" where
  "exit_step pd start s =
     (let i = PDX start in
      if present (rd s (pd, i)) then
        do { p \<leftarrow> pde2page (rd s (pd, i)) s;
             s \<leftarrow> free_pages p 1 s;
             Some (0, start + PTSIZE, wr (pd, i) 0 s) }
      else Some (0, start + PTSIZE, s))"

definition exit_range :: "nat \<Rightarrow> u32 \<Rightarrow> u32 \<Rightarrow> mem_state \<Rightarrow> mem_state option" where
  "exit_range pd start fin s =
     do { kassert (start mod PGSIZE = 0 \<and> fin mod PGSIZE = 0);
          kassert (USER_ACCESS start fin);
          (_, s) \<leftarrow> range_loop (exit_step pd) fin (ROUNDDOWN start PTSIZE) s;
          Some s }"

definition copy_page_to :: "nat \<Rightarrow> u32 \<Rightarrow> pte_ptr \<Rightarrow> mem_state \<Rightarrow> (int \<times> mem_state) option" where
  "copy_page_to to_pd start ptep s =
     do { let perm = rd s ptep AND PTE_USER;
          p \<leftarrow> pte2page (rd s ptep) s;
          (nr, s) \<leftarrow> alloc_pages 1 s;
          np \<leftarrow> nr;
          kva_src \<leftarrow> page2kva p s;
          kva_dst \<leftarrow> page2kva np s;
          let s = s\<lparr>frames := (frames s)(kva_dst := frames s kva_src)\<rparr>;
          page_insert to_pd np start perm s }"

definition copy_step :: "nat \<Rightarrow> nat \<Rightarrow> u32 \<Rightarrow> mem_state \<Rightarrow> (int \<times> u32 \<times> mem_state) option" where
  "copy_step to_pd from_pd start s =
     do { r \<leftarrow> lookup_pte from_pd start s;
          case r of
            None \<Rightarrow> Some (0, ROUNDDOWN (start + PTSIZE) PTSIZE, s)
          | Some ptep \<Rightarrow>
              if present (rd s ptep) then
                do { (nr, s) \<leftarrow> get_pte to_pd start True s;
                     case nr of
                       None \<Rightarrow> Some (err E_NO_MEM, start, s)
                     | Some nptep \<Rightarrow>
                         do { (ret, s) \<leftarrow> copy_page_to to_pd start ptep s;
                              kassert (ret = 0);
                              Some (0, start + PGSIZE, s) } }
              else Some (0, start + PGSIZE, s) }"

definition copy_range :: "nat \<Rightarrow> nat \<Rightarrow> u32 \<Rightarrow> u32 \<Rightarrow> bool \<Rightarrow> mem_state \<Rightarrow> (int \<times> mem_state) option" where
  "copy_range to_pd from_pd start fin share s =
     do { kassert (start mod PGSIZE = 0 \<and> fin mod PGSIZE = 0);
          kassert (USER_ACCESS start fin);
          range_loop (copy_step to_pd from_pd) fin start s }"

text \<open>
  \<open>get_pgtable_items\<close> finds the next run of entries with equal permissions; \<open>None\<close> as first result
  stands for the return value 0.
\<close>

function skip_absent :: "(nat \<Rightarrow> u32) \<Rightarrow> nat \<Rightarrow> nat \<Rightarrow> nat" where
  "skip_absent table right start =
     (if start < right \<and> \<not> present (table start) then skip_absent table right (Suc start) else start)"
  by pat_completeness auto
termination by (relation "measure (\<lambda>(t, r, i). r - i)") auto

function skip_perm :: "(nat \<Rightarrow> u32) \<Rightarrow> nat \<Rightarrow> u32 \<Rightarrow> nat \<Rightarrow> nat" where
  "skip_perm table right perm start =
     (if start < right \<and> table start AND PTE_USER = perm then skip_perm table right perm (Suc start)
      else start)"
  by pat_completeness auto
termination by (relation "measure (\<lambda>(t, r, p, i). r - i)") auto

definition get_pgtable_items :: "nat \<Rightarrow> nat \<Rightarrow> (nat \<Rightarrow> u32) \<Rightarrow> (u32 \<times> nat \<times> nat) option" where
  "get_pgtable_items right start table =
     (if start \<ge> right then None
      else let l = skip_absent table right start in
        if l < right then
          let perm = table l AND PTE_USER in Some (perm, l, skip_perm table right perm (Suc l))
        else None)"

definition perm2str :: "u32 \<Rightarrow> string" where
  "perm2str perm =
     [if perm AND PTE_U \<noteq> 0 then CHR ''u'' else CHR ''-'', CHR ''r'',
      if perm AND PTE_W \<noteq> 0 then CHR ''w'' else CHR ''-'']"

declare skip_absent.simps [simp del] skip_perm.simps [simp del]

end
