(* ===== verification/Pgtable.thy ===== *)
theory Pgtable
  imports Pmm
begin

text \<open>
  The user part of the address spaces kept by kern/mm/pmm.c.  \<open>mem_ok s F D\<close> is the invariant for the
  page directories \<open>D\<close> and the free pages \<open>F\<close>: no page table is shared, free, or mapped, and the
  reference count of a mapped page is at least the number of entries that map it.  The lemmas
  show how each operation acts on the entries \<open>pte_at\<close> of all address spaces and that it keeps the
  invariant; the TLB lemmas show that no stale translation is left behind.
\<close>

section \<open>Address spaces\<close>

definition UPDES :: nat where "UPDES = 704"
definition UPAGES :: nat where "UPAGES = 704 * 1024"

definition pte_at :: "mem_state \<Rightarrow> nat \<Rightarrow> nat \<Rightarrow> u32" where
  "pte_at s pd v =
     (if present (frames s pd (v div 1024)) then frames s (PPN (frames s pd (v div 1024))) (v mod 1024)
      else 0)"

definition mapped :: "mem_state \<Rightarrow> nat \<Rightarrow> nat \<Rightarrow> page_ptr \<Rightarrow> bool" where
  "mapped s pd v p \<longleftrightarrow> present (pte_at s pd v) \<and> PPN (pte_at s pd v) = p"

definition tables :: "mem_state \<Rightarrow> nat set \<Rightarrow> page_ptr set" where
  "tables s D = {PPN (frames s pd i) | pd i. pd \<in> D \<and> i < UPDES \<and> present (frames s pd i)}"

definition use_set :: "mem_state \<Rightarrow> nat set \<Rightarrow> page_ptr \<Rightarrow> (nat \<times> nat) set" where
  "use_set s D p = {(pd, v). pd \<in> D \<and> v < UPAGES \<and> mapped s pd v p}"

definition tables_ok :: "mem_state \<Rightarrow> page_ptr set \<Rightarrow> nat set \<Rightarrow> bool" where
  "tables_ok s F D \<longleftrightarrow> finite D \<and> (\<forall>pd\<in>D. pd < npage s \<and> pd \<notin> F) \<and>
     (\<forall>pd\<in>D. \<forall>i<UPDES. present (frames s pd i) \<longrightarrow>
        PPN (frames s pd i) < npage s \<and> PPN (frames s pd i) \<notin> F \<union> D \<and>
        \<not> PageReserved (page_of s (PPN (frames s pd i)))) \<and>
     (\<forall>pd\<in>D. \<forall>pd'\<in>D. \<forall>i<UPDES. \<forall>i'<UPDES. present (frames s pd i) \<longrightarrow> present (frames s pd' i') \<longrightarrow>
        PPN (frames s pd i) = PPN (frames s pd' i') \<longrightarrow> pd = pd' \<and> i = i')"

definition maps_ok :: "mem_state \<Rightarrow> page_ptr set \<Rightarrow> nat set \<Rightarrow> bool" where
  "maps_ok s F D \<longleftrightarrow> (\<forall>pd\<in>D. \<forall>v<UPAGES. \<forall>p. mapped s pd v p \<longrightarrow>
     p < npage s \<and> p \<notin> F \<union> D \<union> tables s D \<and> \<not> PageReserved (page_of s p) \<and>
     int (card (use_set s D p)) \<le> page_ref (page_of s p))"

definition mem_ok :: "mem_state \<Rightarrow> page_ptr set \<Rightarrow> nat set \<Rightarrow> bool" where
  "mem_ok s F D \<longleftrightarrow> pmm_rep (farea s) F \<and> npage s \<le> 2 ^ 20 \<and>
     (\<forall>p\<in>F. p < npage s \<and> \<not> PageReserved (page_of s p) \<and> page_ref (page_of s p) = 0) \<and>
     tables_ok s F D \<and> maps_ok s F D"

text \<open>A linear address below \<open>USERTOP\<close> and its page number.\<close>

definition user_la :: "u32 \<Rightarrow> bool" where
  "user_la la \<longleftrightarrow> la < USERTOP"

lemma user_la_PPN: "user_la la \<Longrightarrow> PPN la < UPAGES"
  by (simp add: user_la_def USERTOP_def PPN_eq UPAGES_def word_less_nat_alt)

lemma PPN_PDX: "PDX la = PPN la div 1024" and PPN_PTX: "PTX la = PPN la mod 1024"
  by (rule PDX_eq, rule PTX_eq)

lemma div_UPDES: "v < UPAGES \<Longrightarrow> v div 1024 < UPDES"
  by (simp add: UPAGES_def UPDES_def)

lemma tables_okD:
  assumes "tables_ok s F D"
  shows "finite D" "pd \<in> D \<Longrightarrow> pd < npage s" "pd \<in> D \<Longrightarrow> pd \<notin> F"
    "pd \<in> D \<Longrightarrow> i < UPDES \<Longrightarrow> present (frames s pd i) \<Longrightarrow> PPN (frames s pd i) < npage s"
    "pd \<in> D \<Longrightarrow> i < UPDES \<Longrightarrow> present (frames s pd i) \<Longrightarrow> PPN (frames s pd i) \<notin> F"
    "pd \<in> D \<Longrightarrow> i < UPDES \<Longrightarrow> present (frames s pd i) \<Longrightarrow> PPN (frames s pd i) \<notin> D"
    "pd \<in> D \<Longrightarrow> i < UPDES \<Longrightarrow> present (frames s pd i) \<Longrightarrow> \<not> PageReserved (page_of s (PPN (frames s pd i)))"
  using assms by (auto simp: tables_ok_def)

lemma tables_ok_inj:
  assumes "tables_ok s F D" "pd \<in> D" "pd' \<in> D" "i < UPDES" "i' < UPDES"
    and "present (frames s pd i)" "present (frames s pd' i')" "PPN (frames s pd i) = PPN (frames s pd' i')"
  shows "pd = pd'" "i = i'"
  using assms unfolding tables_ok_def by blast+

lemma tablesI: "pd \<in> D \<Longrightarrow> i < UPDES \<Longrightarrow> present (frames s pd i) \<Longrightarrow> PPN (frames s pd i) \<in> tables s D"
  by (auto simp: tables_def)

lemma maps_okD:
  assumes "maps_ok s F D" "pd \<in> D" "v < UPAGES" "mapped s pd v p"
  shows "p < npage s" "p \<notin> F" "p \<notin> D" "p \<notin> tables s D" "\<not> PageReserved (page_of s p)"
    "int (card (use_set s D p)) \<le> page_ref (page_of s p)"
  using assms by (auto simp: maps_ok_def)

lemma mem_okD:
  assumes "mem_ok s F D"
  shows "pmm_rep (farea s) F" "npage s \<le> 2 ^ 20" "tables_ok s F D" "maps_ok s F D"
    "p \<in> F \<Longrightarrow> p < npage s" "p \<in> F \<Longrightarrow> \<not> PageReserved (page_of s p)" "p \<in> F \<Longrightarrow> page_ref (page_of s p) = 0"
  using assms by (auto simp: mem_ok_def)

lemma finite_use_set: "finite D \<Longrightarrow> finite (use_set s D p)"
  by (rule finite_subset [of _ "D \<times> {..<UPAGES}"]) (auto simp: use_set_def)

lemma tables_free: "tables_ok s F D \<Longrightarrow> t \<in> tables s D \<Longrightarrow> t \<notin> F"
  by (auto simp: tables_def tables_ok_def)

section \<open>What the entries depend on\<close>

text \<open>The entries depend only on the frames that hold directories and tables.\<close>

lemma pte_at_cong:
  assumes "pd \<in> D" "v < UPAGES" "\<And>f. f \<in> D \<union> tables s D \<Longrightarrow> frames s' f = frames s f"
  shows "pte_at s' pd v = pte_at s pd v"
proof -
  have "frames s' pd = frames s pd" using assms(1,3) by blast
  moreover have "frames s' (PPN (frames s pd (v div 1024))) = frames s (PPN (frames s pd (v div 1024)))"
    if "present (frames s pd (v div 1024))"
    using assms(3) tablesI [OF assms(1) div_UPDES [OF assms(2)] that] by blast
  ultimately show ?thesis by (simp add: pte_at_def)
qed

lemma use_set_cong:
  "(\<And>pd v. pd \<in> D \<Longrightarrow> v < UPAGES \<Longrightarrow> pte_at s' pd v = pte_at s pd v) \<Longrightarrow> use_set s' D p = use_set s D p"
  by (auto simp: use_set_def mapped_def)

lemma tables_cong: "(\<And>f. f \<in> D \<Longrightarrow> frames s' f = frames s f) \<Longrightarrow> tables s' D = tables s D"
  by (auto simp: tables_def) metis+

text \<open>Only the allocator's state and the frames matter for the invariant.\<close>

lemma mem_ok_frame:
  assumes ok: "mem_ok s F D" and "npage s' = npage s" "farea s' = farea s"
    and f: "\<And>f. f \<in> D \<union> tables s D \<Longrightarrow> frames s' f = frames s f"
  shows "mem_ok s' F D"
proof -
  have t: "tables s' D = tables s D" by (rule tables_cong) (use f in blast)
  have e: "pte_at s' pd v = pte_at s pd v" if "pd \<in> D" "v < UPAGES" for pd v
    by (rule pte_at_cong [OF that f])
  have fd: "frames s' pd = frames s pd" if "pd \<in> D" for pd using that f by blast
  have u: "use_set s' D p = use_set s D p" for p by (rule use_set_cong [OF e])
  have pg: "page_of s' = page_of s" using assms(3) by (simp add: page_of_def fun_eq_iff)
  have "tables_ok s' F D"
    using mem_okD(3) [OF ok] fd assms(2) pg unfolding tables_ok_def by auto
  moreover have "maps_ok s' F D"
    using mem_okD(4) [OF ok] assms(2) unfolding maps_ok_def mapped_def pg t u by (auto simp: e)
  ultimately show ?thesis using ok assms(2,3) pg by (simp add: mem_ok_def)
qed

lemma mapped_same: "pte_at s' pd v = pte_at s pd v \<Longrightarrow> mapped s' pd v p = mapped s pd v p"
  by (simp add: mapped_def)

section \<open>Allocating and freeing a page\<close>

text \<open>Memory is not short while swapping is on, so allocation does not swap.\<close>

definition calm :: "mem_state \<Rightarrow> page_ptr set \<Rightarrow> bool" where
  "calm s F \<longleftrightarrow> (swap_init_ok s \<longrightarrow> F \<noteq> {})"

lemma alloc_page_calm:
  assumes r: "pmm_rep (farea s) F" and c: "calm s F"
  shows "(F = {} \<and> alloc_pages 1 s = Some (None, s)) \<or>
    (\<exists>p fa. p \<in> F \<and> alloc_pages 1 s = Some (Some p, s\<lparr>farea := fa\<rparr>) \<and> pmm_rep fa (F - {p}) \<and>
       (\<forall>x. same_page (pages fa x) (page_of s x)))"
proof -
  obtain r fa where a: "pmm_alloc_pages default_pmm_manager 1 (farea s) = Some (r, fa)"
    and rl: "case r of None \<Rightarrow> fa = farea s
       | Some p \<Rightarrow> {p..<p + 1} \<subseteq> F \<and> pmm_rep fa (F - {p..<p + 1}) \<and>
           (\<forall>x. same_page (pages fa x) (pages (farea s) x))"
    using default_pmm.alloc_law [OF r, of 1] by auto
  show ?thesis
  proof (cases r)
    case None
    then have "F = {}" using default_pmm.alloc_one_law [OF r] a by simp
    moreover have "alloc_pages 1 s = Some (None, s)"
      using a rl None c \<open>F = {}\<close> by (subst alloc_pages.simps) (simp add: calm_def Let_def)
    ultimately show ?thesis by simp
  next
    case (Some p)
    have "alloc_pages 1 s = Some (Some p, s\<lparr>farea := fa\<rparr>)"
      using a Some by (subst alloc_pages.simps) (simp add: Let_def)
    then show ?thesis using rl Some by (auto simp: page_of_def)
  qed
qed

lemma free_page_rep:
  assumes r: "pmm_rep (farea s) F" and p: "p \<notin> F" "\<not> PageReserved (page_of s p)"
  shows "\<exists>fa. free_pages p 1 s = Some (s\<lparr>farea := fa\<rparr>) \<and> pmm_rep fa (insert p F) \<and>
    (\<forall>x. same_page (pages fa x) (if x = p then (page_of s x)\<lparr>page_ref := 0\<rparr> else page_of s x))"
proof -
  have "{p..<p + 1} = {p}" by auto
  then obtain fa where "pmm_free_pages default_pmm_manager p 1 (farea s) = Some fa" "pmm_rep fa (insert p F)"
    "\<forall>x. same_page (pages fa x) (if x = p then (page_of s x)\<lparr>page_ref := 0\<rparr> else page_of s x)"
    using default_pmm.free_law [OF r, of 1 p] p unfolding page_of_def by auto
  then show ?thesis by (intro exI [of _ fa]) (simp add: free_pages_def)
qed

lemma tables_ok_farea:
  assumes ok: "tables_ok s F D"
    and "\<And>x. PageReserved (pages fa x) = PageReserved (page_of s x)" "F' \<inter> (D \<union> tables s D) = {}"
  shows "tables_ok (s\<lparr>farea := fa\<rparr>) F' D"
  unfolding tables_ok_def
proof (intro conjI ballI allI impI)
  note d = tables_okD [OF ok]
  fix pd assume pd: "pd \<in> D"
  show "pd < npage (s\<lparr>farea := fa\<rparr>)" "pd \<notin> F'" using d(2) [OF pd] pd assms(3) by auto
  fix i assume i: "i < UPDES" "present (frames (s\<lparr>farea := fa\<rparr>) pd i)"
  then have t: "PPN (frames s pd i) \<in> tables s D" using tablesI pd by simp
  show "PPN (frames (s\<lparr>farea := fa\<rparr>) pd i) < npage (s\<lparr>farea := fa\<rparr>)"
    "\<not> PageReserved (page_of (s\<lparr>farea := fa\<rparr>) (PPN (frames (s\<lparr>farea := fa\<rparr>) pd i)))"
    "PPN (frames (s\<lparr>farea := fa\<rparr>) pd i) \<notin> F' \<union> D"
    using d(4,6,7) [OF pd i(1)] i(2) t assms(2,3) by (auto simp: page_of_def)
qed (use ok in \<open>auto simp: tables_ok_def\<close>)

lemma pte_at_farea [simp]: "pte_at (s\<lparr>farea := fa\<rparr>) = pte_at s"
  by (simp add: pte_at_def fun_eq_iff)

lemma tables_farea [simp]: "tables (s\<lparr>farea := fa\<rparr>) = tables s"
  by (simp add: tables_def fun_eq_iff)

lemma mapped_farea [simp]: "mapped (s\<lparr>farea := fa\<rparr>) = mapped s"
  by (simp add: mapped_def fun_eq_iff)

lemma use_set_farea [simp]: "use_set (s\<lparr>farea := fa\<rparr>) = use_set s"
  by (simp add: use_set_def fun_eq_iff)

lemma mem_ok_farea:
  assumes ok: "mem_ok s F D" and r: "pmm_rep fa F'"
    and res: "\<And>x. PageReserved (pages fa x) = PageReserved (page_of s x)"
    and F': "\<And>x. x \<in> F' \<Longrightarrow> x < npage s \<and> \<not> PageReserved (page_of s x) \<and> page_ref (pages fa x) = 0"
      "F' \<inter> (D \<union> tables s D) = {}"
    and m: "\<And>pd v p. pd \<in> D \<Longrightarrow> v < UPAGES \<Longrightarrow> mapped s pd v p \<Longrightarrow>
      p \<notin> F' \<and> int (card (use_set s D p)) \<le> page_ref (pages fa p)"
  shows "mem_ok (s\<lparr>farea := fa\<rparr>) F' D"
proof -
  have "tables_ok (s\<lparr>farea := fa\<rparr>) F' D"
    by (rule tables_ok_farea [OF mem_okD(3) [OF ok] res F'(2)])
  moreover have "maps_ok (s\<lparr>farea := fa\<rparr>) F' D"
    using mem_okD(4) [OF ok] m res unfolding maps_ok_def by (fastforce simp: page_of_def)
  ultimately show ?thesis
    using r F'(1) res mem_okD(2) [OF ok] by (auto simp: mem_ok_def page_of_def)
qed

lemma mem_ok_alloc:
  assumes ok: "mem_ok s F D" and r: "pmm_rep fa F'" "F' \<subseteq> F" "\<forall>x. same_page (pages fa x) (page_of s x)"
  shows "mem_ok (s\<lparr>farea := fa\<rparr>) F' D"
proof (rule mem_ok_farea [OF ok r(1)])
  show "PageReserved (pages fa x) = PageReserved (page_of s x)" for x using r(3) by (simp add: same_page_def)
  show "x < npage s \<and> \<not> PageReserved (page_of s x) \<and> page_ref (pages fa x) = 0" if "x \<in> F'" for x
    using mem_okD(5,6,7) [OF ok] r(2,3) that by (auto simp: same_page_def)
  show "F' \<inter> (D \<union> tables s D) = {}"
    using tables_okD(3) [OF mem_okD(3) [OF ok]] tables_free [OF mem_okD(3) [OF ok]] r(2) by blast
  show "p \<notin> F' \<and> int (card (use_set s D p)) \<le> page_ref (pages fa p)"
    if "pd \<in> D" "v < UPAGES" "mapped s pd v p" for pd v p
    using maps_okD(2,6) [OF mem_okD(4) [OF ok] that] r(2,3) by (auto simp: same_page_def)
qed

section \<open>Writing an entry\<close>

text \<open>\<open>entry_of s pd v a\<close>: the kernel pointer \<open>a\<close> is the place of the entry of page \<open>v\<close>.\<close>

definition entry_of :: "mem_state \<Rightarrow> nat \<Rightarrow> nat \<Rightarrow> pte_ptr \<Rightarrow> bool" where
  "entry_of s pd v a \<longleftrightarrow>
     present (frames s pd (v div 1024)) \<and> a = (PPN (frames s pd (v div 1024)), v mod 1024)"

lemma entry_of_rd: "entry_of s pd v a \<Longrightarrow> rd s a = pte_at s pd v"
  by (simp add: entry_of_def rd_def pte_at_def)

lemma entry_of_farea [simp]: "entry_of (s\<lparr>farea := fa\<rparr>) = entry_of s"
  by (simp add: entry_of_def fun_eq_iff)

lemma lookup_pte_eq:
  assumes ok: "tables_ok s F D" and pd: "pd \<in> D" and la: "user_la la"
  shows "(lookup_pte pd la s = Some None \<and> pte_at s pd (PPN la) = 0 \<and> \<not> present (frames s pd (PDX la))) \<or>
    (\<exists>a. lookup_pte pd la s = Some (Some a) \<and> entry_of s pd (PPN la) a)"
proof (cases "present (frames s pd (PDX la))")
  case True
  have "PPN (frames s pd (PDX la)) < npage s"
    using tables_okD(4) [OF ok pd _ True] div_UPDES [OF user_la_PPN [OF la]] by (simp add: PPN_PDX)
  then show ?thesis
    using True by (simp add: lookup_pte_def pt_entry_def KADDR_def rd_def entry_of_def PPN_PDX PPN_PTX)
next
  case False
  then show ?thesis by (simp add: lookup_pte_def rd_def pte_at_def PPN_PDX)
qed

lemma wr_entry_frames:
  assumes ok: "tables_ok s F D" and pd: "pd \<in> D" and v: "v < UPAGES" and a: "entry_of s pd v a"
  shows "f \<in> D \<Longrightarrow> frames (wr a w s) f = frames s f"
proof -
  have "fst a \<notin> D"
    using a tables_okD(6) [OF ok pd div_UPDES [OF v]] by (auto simp: entry_of_def)
  then show "f \<in> D \<Longrightarrow> frames (wr a w s) f = frames s f" by (auto simp: wr_def)
qed

lemma wr_entry_pte:
  assumes ok: "tables_ok s F D" and pd: "pd \<in> D" and v: "v < UPAGES" and a: "entry_of s pd v a"
    and "pd' \<in> D" "v' < UPAGES"
  shows "pte_at (wr a w s) pd' v' = (if pd' = pd \<and> v' = v then w else pte_at s pd' v')"
proof -
  let ?i = "v div 1024" and ?i' = "v' div 1024"
  have f: "frames (wr a w s) pd' = frames s pd'" by (rule wr_entry_frames [OF ok pd v a assms(5)])
  show ?thesis
  proof (cases "present (frames s pd' ?i')")
    case True
    have "v' = v" if "v' div 1024 = v div 1024" "v' mod 1024 = v mod 1024"
      by (metis div_mult_mod_eq that)
    then have "(PPN (frames s pd' ?i'), v' mod 1024) = a \<longleftrightarrow> pd' = pd \<and> v' = v"
      using tables_ok_inj [OF ok assms(5) pd div_UPDES [OF assms(6)] div_UPDES [OF v] True] a
      by (auto simp: entry_of_def)
    moreover have "frames (wr a w s) (PPN (frames s pd' ?i')) (v' mod 1024) =
        (if (PPN (frames s pd' ?i'), v' mod 1024) = a then w else frames s (PPN (frames s pd' ?i')) (v' mod 1024))"
      using rd_wr [of a w s "(PPN (frames s pd' ?i'), v' mod 1024)"] by (simp add: rd_def)
    ultimately show ?thesis using True by (simp add: pte_at_def f)
  next
    case False
    then show ?thesis using a f by (auto simp: pte_at_def entry_of_def)
  qed
qed

lemma wr_entry_tables:
  assumes "tables_ok s F D" "pd \<in> D" "v < UPAGES" "entry_of s pd v a"
  shows "tables (wr a w s) D = tables s D" "tables_ok (wr a w s) F D"
proof -
  note f = wr_entry_frames [OF assms]
  show "tables (wr a w s) D = tables s D" by (rule tables_cong [OF f])
  show "tables_ok (wr a w s) F D" using assms(1) f unfolding tables_ok_def by auto
qed

text \<open>What mapping, remapping or unmapping page \<open>v\<close> does to the users of a page.\<close>

lemma use_set_upd:
  assumes "\<And>pd' v'. pd' \<in> D \<Longrightarrow> v' < UPAGES \<Longrightarrow>
      pte_at s' pd' v' = (if pd' = pd \<and> v' = v then w else pte_at s pd' v')"
    and "pd \<in> D" "v < UPAGES"
  shows "use_set s' D p =
    (if present w \<and> PPN w = p then insert (pd, v) (use_set s D p) else use_set s D p - {(pd, v)})"
  using assms by (auto simp: use_set_def mapped_def split: if_splits)

lemma maps_ok_wr:
  assumes t: "tables_ok s F D" and pd: "pd \<in> D" and v: "v < UPAGES" and a: "entry_of s pd v a"
    and new: "present w \<Longrightarrow> PPN w < npage s \<and> PPN w \<notin> F \<union> D \<union> tables s D \<and>
      \<not> PageReserved (page_of s (PPN w)) \<and>
      int (card (insert (pd, v) (use_set s D (PPN w)))) \<le> page_ref (page_of s (PPN w))"
    and old: "\<And>pd' v' p. pd' \<in> D \<Longrightarrow> v' < UPAGES \<Longrightarrow> (pd', v') \<noteq> (pd, v) \<Longrightarrow> mapped s pd' v' p \<Longrightarrow>
      p < npage s \<and> p \<notin> F \<union> D \<union> tables s D \<and> \<not> PageReserved (page_of s p) \<and>
      int (card (use_set s D p - {(pd, v)})) \<le> page_ref (page_of s p)"
  shows "maps_ok (wr a w s) F D"
  unfolding maps_ok_def
proof (intro ballI allI impI)
  note pte = wr_entry_pte [OF t pd v a]
  note us = use_set_upd [of D "wr a w s" pd v w s, OF pte pd v]
  fix pd' v' p assume h: "pd' \<in> D" "v' < UPAGES" "mapped (wr a w s) pd' v' p"
  show "p < npage (wr a w s) \<and> p \<notin> F \<union> D \<union> tables (wr a w s) D \<and> \<not> PageReserved (page_of (wr a w s) p) \<and>
      int (card (use_set (wr a w s) D p)) \<le> page_ref (page_of (wr a w s) p)"
  proof (cases "present w \<and> PPN w = p")
    case True
    then show ?thesis using new us [of p] wr_entry_tables(1) [OF t pd v a] by simp
  next
    case False
    then have "(pd', v') \<noteq> (pd, v)" "mapped s pd' v' p" using h pte [OF h(1,2), of w]
      by (auto simp: mapped_def split: if_splits)
    then show ?thesis
      using False old [OF h(1,2)] us [of p] wr_entry_tables(1) [OF t pd v a] by auto
  qed
qed

section \<open>Unmapping one page\<close>

definition tlb_ok :: "mem_state \<Rightarrow> nat set \<Rightarrow> bool" where
  "tlb_ok s D \<longleftrightarrow> (\<forall>pd\<in>D. cr3_reg s = PADDR pd \<longrightarrow>
     (\<forall>v<UPAGES. \<forall>e. tlb s v = Some e \<longrightarrow> present e \<and> e = pte_at s pd v))"

lemma PADDR_inj: "p < 2 ^ 20 \<Longrightarrow> q < 2 ^ 20 \<Longrightarrow> PADDR p = PADDR q \<Longrightarrow> p = q"
  using PPN_page2pa [of p] PPN_page2pa [of q] by (simp add: PADDR_def page2pa_def)

text \<open>An entry is changed and its translation flushed: all other translations stay.\<close>

lemma tlb_ok_upd:
  assumes ok: "tlb_ok s D" and small: "\<And>q. q \<in> D \<Longrightarrow> q < 2 ^ 20"
    and pte: "\<And>pd' v'. pd' \<in> D \<Longrightarrow> v' < UPAGES \<Longrightarrow> (pd', v') \<noteq> (pd, PPN la) \<Longrightarrow>
      pte_at s' pd' v' = pte_at s pd' v'"
    and "pd \<in> D" "tlb s' = tlb s" "cr3_reg s' = cr3_reg s"
  shows "tlb_ok (tlb_invalidate pd la s') D"
  unfolding tlb_ok_def
proof (intro ballI impI allI)
  fix q v e
  assume h: "q \<in> D" "cr3_reg (tlb_invalidate pd la s') = PADDR q" "v < UPAGES"
    "tlb (tlb_invalidate pd la s') v = Some e"
  have f: "pte_at (tlb_invalidate pd la s') = pte_at s'" by (auto simp: tlb_invalidate_def pte_at_def fun_eq_iff)
  have c: "cr3_reg s = PADDR q" and t: "tlb s v = Some e"
    using h assms(5,6) by (auto simp: tlb_invalidate_def split: if_splits)
  have ne: "(q, v) \<noteq> (pd, PPN la)"
    using h(4) c assms(6) by (auto simp: tlb_invalidate_def)
  then show "present e \<and> e = pte_at (tlb_invalidate pd la s') q v"
    using ok h(1,3) c t pte [OF h(1,3) ne] unfolding tlb_ok_def f by auto
qed

lemma tlb_invalidate_sel [simp]:
  "frames (tlb_invalidate pd la s) = frames s" "farea (tlb_invalidate pd la s) = farea s"
  "npage (tlb_invalidate pd la s) = npage s" "page_of (tlb_invalidate pd la s) = page_of s"
  "cr3_reg (tlb_invalidate pd la s) = cr3_reg s" "swap_init_ok (tlb_invalidate pd la s) = swap_init_ok s"
  "check_mm_struct (tlb_invalidate pd la s) = check_mm_struct s" "mms (tlb_invalidate pd la s) = mms s"
  "pra_list (tlb_invalidate pd la s) = pra_list s" "swap_disk (tlb_invalidate pd la s) = swap_disk s"
  "pgfault_num (tlb_invalidate pd la s) = pgfault_num s" "slobs (tlb_invalidate pd la s) = slobs s"
  "slobfree (tlb_invalidate pd la s) = slobfree s" "arena (tlb_invalidate pd la s) = arena s"
  "bigblocks (tlb_invalidate pd la s) = bigblocks s"
  "pte_at (tlb_invalidate pd la s) = pte_at s" "rd (tlb_invalidate pd la s) = rd s"
  "mapped (tlb_invalidate pd la s) = mapped s" "use_set (tlb_invalidate pd la s) = use_set s"
  "tables (tlb_invalidate pd la s) = tables s" "entry_of (tlb_invalidate pd la s) = entry_of s"
  by (simp_all add: tlb_invalidate_def page_of_def pte_at_def rd_def mapped_def use_set_def tables_def
      entry_of_def fun_eq_iff)

lemma mem_ok_tlb [simp]: "mem_ok (tlb_invalidate pd la s) F D = mem_ok s F D"
  by (simp add: mem_ok_def tables_ok_def maps_ok_def)

lemma mod_page_farea: "mod_page p f s = s\<lparr>farea := farea (mod_page p f s)\<rparr>"
  by (simp add: mod_page_def)

lemma page_remove_pte_absent:
  "entry_of s pd v a \<Longrightarrow> \<not> present (pte_at s pd v) \<Longrightarrow> page_remove_pte pd la a s = Some s"
  by (simp add: page_remove_pte_def entry_of_rd)

text \<open>What no operation of this theory changes.\<close>

definition same_ctl :: "mem_state \<Rightarrow> mem_state \<Rightarrow> bool" where
  "same_ctl s' s \<longleftrightarrow> swap_init_ok s' = swap_init_ok s \<and> check_mm_struct s' = check_mm_struct s \<and> mms s' = mms s \<and>
     cr3_reg s' = cr3_reg s \<and> npage s' = npage s \<and> pgfault_num s' = pgfault_num s \<and>
     slobs s' = slobs s \<and> slobfree s' = slobfree s \<and> arena s' = arena s \<and> bigblocks s' = bigblocks s \<and>
     (\<forall>x. PageReserved (page_of s' x) = PageReserved (page_of s x))"

lemma same_ctl_refl [simp]: "same_ctl s s"
  by (simp add: same_ctl_def)

lemma same_ctl_trans: "same_ctl s2 s1 \<Longrightarrow> same_ctl s1 s \<Longrightarrow> same_ctl s2 s"
  by (simp add: same_ctl_def)

text \<open>What is left of the state when page \<open>p\<close>, mapped at \<open>v\<close>, loses this mapping.\<close>

definition unmapped :: "mem_state \<Rightarrow> page_ptr set \<Rightarrow> page_ptr \<Rightarrow> mem_state \<Rightarrow> page_ptr set \<Rightarrow> bool" where
  "unmapped s F p s' F' \<longleftrightarrow>
     F' = (if page_ref (page_of s p) = 1 then insert p F else F) \<and>
     page_ref (page_of s' p) = page_ref (page_of s p) - 1 \<and>
     (\<forall>x. x \<noteq> p \<longrightarrow> page_ref (page_of s' x) = page_ref (page_of s x)) \<and>
     same_ctl s' s"

lemma dec_free_rep:
  assumes ok: "mem_ok s F D" and p: "p \<notin> F" "\<not> PageReserved (page_of s p)"
    and d: "page_ref_dec p s = (r, s1)"
  shows "\<exists>fa. (if r = 0 then free_pages p 1 s1 else Some s1) = Some (s\<lparr>farea := fa\<rparr>) \<and>
    pmm_rep fa (if page_ref (page_of s p) = 1 then insert p F else F) \<and>
    page_ref (pages fa p) = page_ref (page_of s p) - 1 \<and>
    (\<forall>x. PageReserved (pages fa x) = PageReserved (page_of s x)) \<and>
    (\<forall>x. x \<noteq> p \<longrightarrow> page_ref (pages fa x) = page_ref (page_of s x))"
proof -
  let ?f = "\<lambda>r. r\<lparr>page_ref := page_ref r - 1\<rparr>"
  have s1: "s1 = mod_page p ?f s" "r = page_ref (page_of s p) - 1"
    using d by (auto simp: page_ref_dec_def Let_def)
  have r1: "pmm_rep (farea s1) F" using mem_okD(1) [OF ok] by (simp add: s1 pmm_rep_mod_page)
  have pg: "page_of s1 x = (if x = p then ?f (page_of s p) else page_of s x)" for x
    by (simp add: s1)
  show ?thesis
  proof (cases "r = 0")
    case True
    obtain fa where fa: "free_pages p 1 s1 = Some (s1\<lparr>farea := fa\<rparr>)" "pmm_rep fa (insert p F)"
      "\<forall>x. same_page (pages fa x) (if x = p then (page_of s1 x)\<lparr>page_ref := 0\<rparr> else page_of s1 x)"
      using free_page_rep [OF r1 p(1)] p(2) pg by auto
    have "s1\<lparr>farea := fa\<rparr> = s\<lparr>farea := fa\<rparr>" by (simp add: s1 mod_page_def)
    then show ?thesis
      using fa True s1(2) pg by (intro exI [of _ fa]) (auto simp: same_page_def split: if_splits)
  next
    case False
    have "s1 = s\<lparr>farea := farea s1\<rparr>" unfolding s1(1) by (rule mod_page_farea)
    then show ?thesis
      using False s1(2) r1 pg by (intro exI [of _ "farea s1"]) (auto simp: page_of_def split: if_splits)
  qed
qed

lemma use_set_two:
  assumes "finite D" "(pd, v) \<in> use_set s D p" "(pd', v') \<in> use_set s D p" "(pd', v') \<noteq> (pd, v)"
  shows "2 \<le> card (use_set s D p)"
proof -
  have "card {(pd, v), (pd', v')} \<le> card (use_set s D p)"
    using assms by (intro card_mono finite_use_set) auto
  moreover have "card {(pd, v), (pd', v')} = 2" using assms(4) by auto
  ultimately show ?thesis by simp
qed

text \<open>Clearing the entry after the count of its page was lowered keeps the invariant.\<close>

lemma mem_ok_unmap:
  assumes ok: "mem_ok s F D" and pd: "pd \<in> D" and v: "v < UPAGES" and a: "entry_of s pd v a"
    and p: "mapped s pd v p" and r: "pmm_rep fa (if page_ref (page_of s p) = 1 then insert p F else F)"
    and res: "\<And>x. PageReserved (pages fa x) = PageReserved (page_of s x)"
    and rp: "page_ref (pages fa p) = page_ref (page_of s p) - 1"
    and rx: "\<And>x. x \<noteq> p \<Longrightarrow> page_ref (pages fa x) = page_ref (page_of s x)"
  shows "mem_ok (wr a 0 (s\<lparr>farea := fa\<rparr>)) (if page_ref (page_of s p) = 1 then insert p F else F) D"
proof -
  let ?F = "if page_ref (page_of s p) = 1 then insert p F else F" and ?s = "s\<lparr>farea := fa\<rparr>"
  note t = mem_okD(3) [OF ok] and m = mem_okD(4) [OF ok]
  note mp = maps_okD [OF m pd v p]
  have fin: "finite D" by (rule tables_okD(1) [OF t])
  have dis: "?F \<inter> (D \<union> tables s D) = {}"
    using mp(3,4) tables_okD(3) [OF t] tables_free [OF t] by auto
  have t2: "tables_ok ?s ?F D" by (rule tables_ok_farea [OF t res dis])
  have a2: "entry_of ?s pd v a" using a by simp
  have "maps_ok (wr a 0 ?s) ?F D"
  proof (rule maps_ok_wr [OF t2 pd v a2])
    fix pd' v' q
    assume h: "pd' \<in> D" "v' < UPAGES" "(pd', v') \<noteq> (pd, v)" "mapped ?s pd' v' q"
    note mq = maps_okD [OF m h(1,2)]
    have in1: "(pd', v') \<in> use_set s D q" using h by (simp add: use_set_def)
    have in2: "(pd, v) \<in> use_set s D p" using pd v p by (simp add: use_set_def)
    have one: "page_ref (page_of s p) \<noteq> 1" if "q = p"
      using use_set_two [OF fin in2 _ h(3)] in1 mp(6) that by simp
    have "q \<notin> ?F" using mq(2) [of q] h(4) one by auto
    moreover have "int (card (use_set s D q - {(pd, v)})) \<le> page_ref (pages fa q)"
    proof (cases "q = p")
      case True
      have "0 < card (use_set s D p)" using in2 finite_use_set [OF fin] by (auto simp: card_gt_0_iff)
      then show ?thesis using True in2 mp(6) rp by (simp add: card_Diff_singleton)
    next
      case False
      then have "(pd, v) \<notin> use_set s D q" using p by (auto simp: use_set_def mapped_def)
      then show ?thesis using False mq(6) [of q] h(4) rx by simp
    qed
    ultimately show "q < npage ?s \<and> q \<notin> ?F \<union> D \<union> tables ?s D \<and> \<not> PageReserved (page_of ?s q) \<and>
        int (card (use_set ?s D q - {(pd, v)})) \<le> page_ref (page_of ?s q)"
      using mq(1,3,4,5) [of q] h(4) res by (auto simp: page_of_def)
  qed simp
  moreover have "tables_ok (wr a 0 ?s) ?F D" by (rule wr_entry_tables(2) [OF t2 pd v a2])
  ultimately show ?thesis
    using r mem_okD(2) [OF ok] mem_okD(5,6,7) [OF ok] mp(1,2,5) res rp rx
    by (auto simp: mem_ok_def page_of_def split: if_splits) metis+
qed

lemma page_remove_pte_present:
  assumes ok: "mem_ok s F D" and pd: "pd \<in> D" and la: "user_la la" and a: "entry_of s pd (PPN la) a"
    and p: "mapped s pd (PPN la) p"
  shows "\<exists>s' F'. page_remove_pte pd la a s = Some s' \<and> unmapped s F p s' F' \<and> mem_ok s' F' D \<and>
    (\<forall>pd'\<in>D. \<forall>v<UPAGES. pte_at s' pd' v = (if pd' = pd \<and> v = PPN la then 0 else pte_at s pd' v)) \<and>
    tables s' D = tables s D \<and> (\<forall>f. f \<notin> tables s D \<longrightarrow> frames s' f = frames s f) \<and>
    (\<forall>f\<in>D. frames s' f = frames s f) \<and> (tlb_ok s D \<longrightarrow> tlb_ok s' D)"
proof -
  note v = user_la_PPN [OF la] and t = mem_okD(3) [OF ok]
  note mp = maps_okD [OF mem_okD(4) [OF ok] pd v p]
  obtain r s1 where d: "page_ref_dec p s = (r, s1)" by fastforce
  obtain fa where fa: "(if r = 0 then free_pages p 1 s1 else Some s1) = Some (s\<lparr>farea := fa\<rparr>)"
    "pmm_rep fa (if page_ref (page_of s p) = 1 then insert p F else F)"
    "page_ref (pages fa p) = page_ref (page_of s p) - 1"
    "\<And>x. PageReserved (pages fa x) = PageReserved (page_of s x)"
    "\<And>x. x \<noteq> p \<Longrightarrow> page_ref (pages fa x) = page_ref (page_of s x)"
    using dec_free_rep [OF ok mp(2,5) d] by blast
  let ?s2 = "s\<lparr>farea := fa\<rparr>" and ?F = "if page_ref (page_of s p) = 1 then insert p F else F"
  define s' where "s' = tlb_invalidate pd la (wr a 0 ?s2)"
  have e: "present (rd s a)" "PPN (rd s a) = p" using p entry_of_rd [OF a] by (auto simp: mapped_def)
  then have run: "page_remove_pte pd la a s = Some s'"
    using d fa(1) mp(1) by (simp add: page_remove_pte_def pte2page_def pa2page_def s'_def)
  have F0: "F \<inter> (D \<union> tables s D) = {}" using tables_okD(3) [OF t] tables_free [OF t] by auto
  have t2: "tables_ok ?s2 F D" by (rule tables_ok_farea [OF t fa(4) F0])
  have a2: "entry_of ?s2 pd (PPN la) a" using a by simp
  have pte: "pte_at s' pd' v = (if pd' = pd \<and> v = PPN la then 0 else pte_at s pd' v)"
    if "pd' \<in> D" "v < UPAGES" for pd' v
    using wr_entry_pte [OF t2 pd user_la_PPN [OF la] a2 that] by (simp add: s'_def)
  have "mem_ok s' ?F D"
    using mem_ok_unmap [OF ok pd v a p fa(2) fa(4) fa(3) fa(5)] by (simp add: s'_def)
  moreover have "unmapped s F p s' ?F"
    using fa(3,4,5) by (auto simp: unmapped_def same_ctl_def s'_def page_of_def)
  moreover have "tables s' D = tables s D" "\<forall>f\<in>D. frames s' f = frames s f"
    using wr_entry_tables(1) [OF t2 pd v a2] wr_entry_frames [OF t2 pd v a2] by (auto simp: s'_def)
  moreover have "frames s' f = frames s f" if "f \<notin> tables s D" for f
    using that a tablesI [OF pd div_UPDES [OF v]] by (auto simp: s'_def wr_def entry_of_def)
  moreover have "tlb_ok s' D" if "tlb_ok s D"
    unfolding s'_def
  proof (rule tlb_ok_upd [OF that _ _ pd])
    show "q < 2 ^ 20" if "q \<in> D" for q
      using tables_okD(2) [OF t that] mem_okD(2) [OF ok] by simp
    show "pte_at (wr a 0 ?s2) pd' v' = pte_at s pd' v'"
      if "pd' \<in> D" "v' < UPAGES" "(pd', v') \<noteq> (pd, PPN la)" for pd' v'
      using pte [OF that(1,2)] that(3) by (auto simp: s'_def)
  qed simp_all
  ultimately show ?thesis using run pte by (intro exI [of _ s'] exI [of _ ?F]) simp
qed

section \<open>Finding or making the entry of a page\<close>

text \<open>At most one free page became a page table; no mapping, count or other frame changed.\<close>

definition grown :: "mem_state \<Rightarrow> page_ptr set \<Rightarrow> mem_state \<Rightarrow> page_ptr set \<Rightarrow> nat set \<Rightarrow> bool" where
  "grown s F s' F' D \<longleftrightarrow> F' \<subseteq> F \<and> card F \<le> Suc (card F') \<and> same_ctl s' s \<and>
     (\<forall>pd\<in>D. \<forall>v<UPAGES. pte_at s' pd v = pte_at s pd v) \<and>
     (\<forall>f. f \<notin> F \<longrightarrow> f \<notin> D \<longrightarrow> frames s' f = frames s f) \<and>
     (\<forall>x. page_ref (page_of s' x) = (if x \<in> F - F' then 1 else page_ref (page_of s x))) \<and> F - F' \<subseteq> tables s' D \<and>
     tables s D \<subseteq> tables s' D \<and> tables s' D \<subseteq> tables s D \<union> (F - F') \<and> tlb s' = tlb s"

lemma grown_refl: "grown s F s F D"
  by (simp add: grown_def)

definition new_table :: "nat \<Rightarrow> nat \<Rightarrow> page_ptr \<Rightarrow> mem_state \<Rightarrow> mem_state" where
  "new_table pd i p s =
     wr (pd, i) (page2pa p OR PTE_U OR PTE_W OR PTE_P)
       ((set_page_ref p 1 s)\<lparr>frames := (frames s)(p := (\<lambda>i. 0))\<rparr>)"

lemma new_table_entry: "p < 2 ^ 20 \<Longrightarrow> PPN (page2pa p OR PTE_U OR PTE_W OR PTE_P) = p"
  "present (page2pa p OR PTE_U OR PTE_W OR PTE_P)"
  by (simp_all add: or_less_4096)

lemma new_table_frames:
  "pd \<noteq> p \<Longrightarrow> frames (new_table pd i p s) f =
     (if f = p then (\<lambda>i. 0)
      else if f = pd then (frames s pd)(i := page2pa p OR PTE_U OR PTE_W OR PTE_P) else frames s f)"
  by (auto simp: new_table_def wr_def)

lemma new_table_page:
  "page_of (new_table pd i p s) x = (if x = p then (page_of s p)\<lparr>page_ref := 1\<rparr> else page_of s x)"
proof -
  have "page_of (new_table pd i p s) = page_of (set_page_ref p 1 s)"
    unfolding new_table_def wr_sel by (simp add: page_of_def fun_eq_iff)
  then show ?thesis by (simp add: set_page_ref_def)
qed

lemma new_table_sel [simp]:
  "npage (new_table pd i p s) = npage s" "same_ctl (new_table pd i p s) s" "tlb (new_table pd i p s) = tlb s"
  by (simp_all add: new_table_page same_ctl_def, simp_all add: new_table_def set_page_ref_def)

text \<open>A fresh page made a table of \<open>pd\<close> at an index that had none.\<close>

lemma new_table_pte:
  assumes t: "tables_ok s F D" and pd: "pd \<in> D" and i: "i < UPDES" and np: "\<not> present (frames s pd i)"
    and p: "p \<notin> D \<union> tables s D" "p < 2 ^ 20" and h: "pd' \<in> D" "v < UPAGES"
  shows "pte_at (new_table pd i p s) pd' v = pte_at s pd' v"
proof -
  have ne: "pd \<noteq> p" "pd' \<noteq> p" using pd h(1) p(1) by auto
  note fr = new_table_frames [OF ne(1)] and en = new_table_entry(1) [OF p(2)] new_table_entry(2)
  show ?thesis
  proof (cases "pd' = pd \<and> v div 1024 = i")
    case True
    then show ?thesis using np ne by (simp add: pte_at_def fr en del: present_or)
  next
    case False
    then have f: "frames (new_table pd i p s) pd' (v div 1024) = frames s pd' (v div 1024)"
      using ne by (auto simp: fr)
    have "PPN (frames s pd' (v div 1024)) \<noteq> p" "PPN (frames s pd' (v div 1024)) \<noteq> pd"
      if "present (frames s pd' (v div 1024))"
      using tables_okD(6) [OF t h(1) div_UPDES [OF h(2)] that] tablesI [OF h(1) div_UPDES [OF h(2)] that] p pd
      by auto
    then show ?thesis using f by (simp add: pte_at_def fr)
  qed
qed

lemma new_table_tables:
  assumes t: "tables_ok s F D" and pd: "pd \<in> D" and i: "i < UPDES" and np: "\<not> present (frames s pd i)"
    and p: "p \<notin> D \<union> tables s D" "p < 2 ^ 20"
  shows "tables (new_table pd i p s) D = insert p (tables s D)"
proof -
  have ne: "q \<noteq> p" if "q \<in> D" for q using that p(1) by auto
  note en = new_table_entry(1) [OF p(2)] new_table_entry(2)
  have fr: "frames (new_table pd i p s) q k =
      (if q = pd \<and> k = i then page2pa p OR PTE_U OR PTE_W OR PTE_P else frames s q k)" if "q \<in> D" for q k
    using ne [OF pd] ne [OF that] by (auto simp: new_table_frames)
  show ?thesis
  proof (intro set_eqI iffI)
    fix x assume "x \<in> tables (new_table pd i p s) D"
    then show "x \<in> insert p (tables s D)"
      by (auto simp: tables_def fr en simp del: present_or split: if_splits)
  next
    fix x assume "x \<in> insert p (tables s D)"
    then consider "x = p" | q k where "q \<in> D" "k < UPDES" "present (frames s q k)" "x = PPN (frames s q k)"
      by (auto simp: tables_def)
    then show "x \<in> tables (new_table pd i p s) D"
    proof cases
      case 1
      then show ?thesis using tablesI [OF pd i, of "new_table pd i p s"] by (simp add: fr [OF pd] en del: present_or)
    next
      case 2
      then have "(q, k) \<noteq> (pd, i)" using np by auto
      then show ?thesis using tablesI [OF 2(1,2), of "new_table pd i p s"] 2 by (auto simp: fr)
    qed
  qed
qed

lemma new_table_tables_ok:
  assumes t: "tables_ok s F D" and pd: "pd \<in> D" and i: "i < UPDES" and np: "\<not> present (frames s pd i)"
    and p: "p \<notin> D \<union> tables s D" "p < 2 ^ 20" and pn: "p < npage s" "\<not> PageReserved (page_of s p)" "p \<notin> F"
  shows "tables_ok (new_table pd i p s) F D"
proof -
  let ?s = "new_table pd i p s"
  have ne: "q \<noteq> p" if "q \<in> D" for q using that p(1) by auto
  note en = new_table_entry(1) [OF p(2)] new_table_entry(2)
  have fr: "frames ?s q k =
      (if q = pd \<and> k = i then page2pa p OR PTE_U OR PTE_W OR PTE_P else frames s q k)" if "q \<in> D" for q k
    using ne [OF pd] ne [OF that] by (auto simp: new_table_frames)
  have res: "PageReserved (page_of ?s x) = PageReserved (page_of s x)" for x by (simp add: new_table_page)
  have old: "PPN (frames s q k) \<noteq> p" if "q \<in> D" "k < UPDES" "present (frames s q k)" for q k
    using tablesI [OF that] p by auto
  show ?thesis
    unfolding tables_ok_def res new_table_sel
  proof (intro conjI ballI allI impI)
    show "finite D" by (rule tables_okD(1) [OF t])
  next
    fix q k
    assume h: "q \<in> D" "k < UPDES" "present (frames ?s q k)"
    have "(q = pd \<and> k = i) \<or> present (frames s q k) \<and> frames ?s q k = frames s q k"
      using h by (auto simp: fr split: if_splits)
    then show "PPN (frames ?s q k) < npage s" "PPN (frames ?s q k) \<notin> F \<union> D"
      "\<not> PageReserved (page_of s (PPN (frames ?s q k)))"
      using pn ne tables_okD(4,5,6,7) [OF t h(1,2)] en
      by (auto simp: fr [OF h(1)] simp del: present_or)
  next
    fix q q' k k'
    assume h: "q \<in> D" "q' \<in> D" "k < UPDES" "k' < UPDES" "present (frames ?s q k)" "present (frames ?s q' k')"
      "PPN (frames ?s q k) = PPN (frames ?s q' k')"
    have "q = q' \<and> k = k'"
    proof (cases "(q, k) = (pd, i) \<or> (q', k') = (pd, i)")
      case True
      then show ?thesis
        using h en old [of q k] old [of q' k'] by (auto simp: fr simp del: present_or split: if_splits)
    next
      case False
      then show ?thesis using tables_ok_inj [OF t h(1-4)] h(5-7) by (auto simp: fr [OF h(1)] fr [OF h(2)])
    qed
    then show "q = q'" "k = k'" by auto
  qed (use tables_okD(2,3) [OF t] in auto)
qed

lemma new_table_ok:
  assumes ok: "mem_ok s F D" and pd: "pd \<in> D" and i: "i < UPDES" and np: "\<not> present (frames s pd i)"
    and p: "p \<in> F" and r: "pmm_rep fa (F - {p})" and sp: "\<forall>x. same_page (pages fa x) (page_of s x)"
  shows "mem_ok (new_table pd i p (s\<lparr>farea := fa\<rparr>)) (F - {p}) D"
    "grown s F (new_table pd i p (s\<lparr>farea := fa\<rparr>)) (F - {p}) D"
proof -
  let ?s1 = "s\<lparr>farea := fa\<rparr>"
  let ?s = "new_table pd i p ?s1"
  note t = mem_okD(3) [OF ok] and m = mem_okD(4) [OF ok]
  have ok1: "mem_ok ?s1 (F - {p}) D" by (rule mem_ok_alloc [OF ok r _ sp]) auto
  note t1 = mem_okD(3) [OF ok1]
  have pp: "p \<notin> D \<union> tables ?s1 D" "p < 2 ^ 20" "p < npage ?s1" "\<not> PageReserved (page_of ?s1 p)"
    using p tables_okD(3) [OF t] tables_free [OF t] mem_okD(2,5,6) [OF ok] sp
    by (auto simp: page_of_def same_page_def) fastforce
  have np1: "\<not> present (frames ?s1 pd i)" using np by simp
  have pte: "pte_at ?s pd' v = pte_at s pd' v" if "pd' \<in> D" "v < UPAGES" for pd' v
    using new_table_pte [OF t1 pd i np1 pp(1,2) that] by simp
  have tab: "tables ?s D = insert p (tables s D)" using new_table_tables [OF t1 pd i np1 pp(1,2)] by simp
  have tok: "tables_ok ?s (F - {p}) D" using new_table_tables_ok [OF t1 pd i np1 pp] by simp
  have us: "use_set ?s D q = use_set s D q" for q by (rule use_set_cong [OF pte])
  have pg: "page_of ?s x = (if x = p then (pages fa p)\<lparr>page_ref := 1\<rparr> else pages fa x)" for x
    by (simp add: new_table_page) (simp add: page_of_def)
  have "maps_ok ?s (F - {p}) D"
    unfolding maps_ok_def us tab
  proof (intro ballI allI impI)
    fix pd' v q assume h: "pd' \<in> D" "v < UPAGES" "mapped ?s pd' v q"
    then have "mapped s pd' v q" using pte by (simp add: mapped_def)
    note mq = maps_okD [OF m h(1,2) this]
    then show "q < npage ?s \<and> q \<notin> F - {p} \<union> D \<union> insert p (tables s D) \<and> \<not> PageReserved (page_of ?s q) \<and>
        int (card (use_set s D q)) \<le> page_ref (page_of ?s q)"
      using p sp by (auto simp: pg same_page_def)
  qed
  moreover have "pmm_rep (farea ?s) (F - {p})"
    using r pmm_rep_mod_page [of "\<lambda>r. r\<lparr>page_ref := 1\<rparr>" p ?s1 "F - {p}"]
    by (simp add: new_table_def set_page_ref_def)
  ultimately show "mem_ok ?s (F - {p}) D"
    using tok mem_okD(2,5,6,7) [OF ok] sp by (auto simp: mem_ok_def pg same_page_def)
  have "finite F" using default_pmm.rep_nr [OF mem_okD(1) [OF ok]] by simp
  then have "card F \<le> Suc (card (F - {p}))" using p by simp
  moreover have "same_ctl ?s1 s" using sp by (simp add: same_ctl_def same_page_def page_of_def)
  then have "same_ctl ?s s" using same_ctl_trans new_table_sel(2) by blast
  moreover have "frames ?s f = frames s f" if "f \<notin> F" "f \<notin> D" for f
  proof -
    have "pd \<noteq> p" "f \<noteq> p" "f \<noteq> pd" using that p pd pp(1) by auto
    then show ?thesis by (simp add: new_table_frames)
  qed
  ultimately show "grown s F ?s (F - {p}) D"
    using pte tab p sp by (auto simp: grown_def pg same_page_def)
qed

lemma get_pte_create:
  assumes ok: "mem_ok s F D" and c: "calm s F \<or> present (frames s pd (PDX la))"
    and pd: "pd \<in> D" and la: "user_la la"
  shows "(F = {} \<and> \<not> present (frames s pd (PDX la)) \<and> get_pte pd la True s = Some (None, s)) \<or>
    (\<exists>a s' F'. get_pte pd la True s = Some (Some a, s') \<and> entry_of s' pd (PPN la) a \<and>
       mem_ok s' F' D \<and> grown s F s' F' D \<and> (present (frames s pd (PDX la)) \<longrightarrow> F' = F) \<and>
       (\<not> present (frames s pd (PDX la)) \<longrightarrow> card F = Suc (card F')))"
proof (cases "present (frames s pd (PDX la))")
  case True
  then obtain a where "lookup_pte pd la s = Some (Some a)" "entry_of s pd (PPN la) a"
    using lookup_pte_eq [OF mem_okD(3) [OF ok] pd la] by auto
  then show ?thesis using True ok grown_refl by (auto simp: get_pte_def rd_def)
next
  case False
  have i: "PDX la < UPDES" using div_UPDES [OF user_la_PPN [OF la]] by (simp add: PPN_PDX)
  consider "F = {}" "alloc_pages 1 s = Some (None, s)"
    | p fa where "p \<in> F" "alloc_pages 1 s = Some (Some p, s\<lparr>farea := fa\<rparr>)" "pmm_rep fa (F - {p})"
        "\<forall>x. same_page (pages fa x) (page_of s x)"
    using alloc_page_calm [OF mem_okD(1) [OF ok]] c False by blast
  then show ?thesis
  proof cases
    case 1
    then show ?thesis using False by (simp add: get_pte_def rd_def)
  next
    case 2
    let ?s = "new_table pd (PDX la) p (s\<lparr>farea := fa\<rparr>)"
    note new = new_table_ok [OF ok pd i False 2(1,3,4)]
    have p: "p < npage s" "p < 2 ^ 20" using mem_okD(2,5) [OF ok] 2(1) by (fastforce, fastforce)
    have ne: "pd \<noteq> p" using tables_okD(3) [OF mem_okD(3) [OF ok] pd] 2(1) by auto
    have fr: "frames ?s pd (PDX la) = page2pa p OR PTE_U OR PTE_W OR PTE_P"
      using ne by (simp add: new_table_frames)
    have "pt_entry pd la ?s = Some (p, PTX la)"
      using p by (simp add: pt_entry_def rd_def fr KADDR_def or_less_4096)
    then have "get_pte pd la True s = Some (Some (p, PTX la), ?s)"
      using False 2(2) p by (simp add: get_pte_def rd_def KADDR_def new_table_def)
        (simp add: set_page_ref_def mod_page_def)
    moreover have "entry_of ?s pd (PPN la) (p, PTX la)"
      using fr p by (simp add: entry_of_def or_less_4096 flip: PPN_PDX PPN_PTX)
    moreover have "card F = Suc (card (F - {p}))"
      using default_pmm.rep_nr [OF mem_okD(1) [OF ok]] 2(1) by (intro card.remove) auto
    ultimately show ?thesis using new False by blast
  qed
qed

section \<open>Mapping a page\<close>

text \<open>A page that may be mapped: a frame in use that holds no directory or table.\<close>

definition data_page :: "mem_state \<Rightarrow> page_ptr set \<Rightarrow> nat set \<Rightarrow> page_ptr \<Rightarrow> bool" where
  "data_page s F D p \<longleftrightarrow> p < npage s \<and> p \<notin> F \<union> D \<union> tables s D \<and> \<not> PageReserved (page_of s p) \<and>
     int (card (use_set s D p)) \<le> page_ref (page_of s p)"

lemma mem_ok_map:
  assumes ok: "mem_ok s F D" and pd: "pd \<in> D" and v: "v < UPAGES" and a: "entry_of s pd v a"
    and p: "data_page s F D p" "int (card (insert (pd, v) (use_set s D p))) \<le> page_ref (page_of s p)"
    and w: "PPN w = p"
  shows "mem_ok (wr a w s) F D"
proof -
  note t = mem_okD(3) [OF ok] and m = mem_okD(4) [OF ok]
  have "maps_ok (wr a w s) F D"
  proof (rule maps_ok_wr [OF t pd v a])
    fix pd' v' q assume h: "pd' \<in> D" "v' < UPAGES" "mapped s pd' v' q"
    have "card (use_set s D q - {(pd, v)}) \<le> card (use_set s D q)"
      by (rule card_mono [OF finite_use_set [OF tables_okD(1) [OF t]]]) auto
    then show "q < npage s \<and> q \<notin> F \<union> D \<union> tables s D \<and> \<not> PageReserved (page_of s q) \<and>
        int (card (use_set s D q - {(pd, v)})) \<le> page_ref (page_of s q)"
      using maps_okD [OF m h] by auto
  qed (use p w in \<open>auto simp: data_page_def\<close>)
  then show ?thesis using ok wr_entry_tables(2) [OF t pd v a] by (simp add: mem_ok_def)
qed

lemma mem_ok_ref_ge:
  assumes ok: "mem_ok s F D" and f: "keeps_free f" "\<And>r. page_ref r \<le> page_ref (f r)" and p: "p \<notin> F"
  shows "mem_ok (mod_page p f s) F D"
proof -
  have res: "PageReserved (pages (farea (mod_page p f s)) x) = PageReserved (page_of s x)" for x
    using f(1) by (auto simp: mod_page_def page_of_def upd_page_def PageReserved_def keeps_free_def)
  have rep: "pmm_rep (farea (mod_page p f s)) F"
    using mem_okD(1) [OF ok] by (simp add: pmm_rep_mod_page [OF f(1)])
  have "mem_ok (s\<lparr>farea := farea (mod_page p f s)\<rparr>) F D"
  proof (rule mem_ok_farea [OF ok rep res])
    show "x < npage s \<and> \<not> PageReserved (page_of s x) \<and> page_ref (pages (farea (mod_page p f s)) x) = 0"
      if "x \<in> F" for x
      using mem_okD(5,6,7) [OF ok that] that p by (auto simp: mod_page_def page_of_def upd_page_def)
    show "F \<inter> (D \<union> tables s D) = {}"
      using tables_okD(3) [OF mem_okD(3) [OF ok]] tables_free [OF mem_okD(3) [OF ok]] by blast
    fix pd v q assume h: "pd \<in> D" "v < UPAGES" "mapped s pd v q"
    have "page_ref (page_of s q) \<le> page_ref (pages (farea (mod_page p f s)) q)"
      using f(2) by (auto simp: mod_page_def page_of_def upd_page_def)
    then show "q \<notin> F \<and> int (card (use_set s D q)) \<le> page_ref (pages (farea (mod_page p f s)) q)"
      using maps_okD(2,6) [OF mem_okD(4) [OF ok] h] by simp
  qed
  then show ?thesis by (simp add: mod_page_farea [symmetric])
qed

lemma mod_page_pt [simp]:
  "pte_at (mod_page p f s) = pte_at s" "tables (mod_page p f s) = tables s" "mapped (mod_page p f s) = mapped s"
  "use_set (mod_page p f s) = use_set s" "entry_of (mod_page p f s) = entry_of s"
  by (simp_all add: pte_at_def tables_def mapped_def use_set_def entry_of_def fun_eq_iff)

text \<open>The pages freed by remapping: the old page of \<open>v\<close> if this was its last use.\<close>

definition dropped :: "mem_state \<Rightarrow> nat \<Rightarrow> nat \<Rightarrow> page_ptr \<Rightarrow> page_ptr set" where
  "dropped s pd v p =
     (if present (pte_at s pd v) \<and> PPN (pte_at s pd v) \<noteq> p \<and>
         page_ref (page_of s (PPN (pte_at s pd v))) = 1
      then {PPN (pte_at s pd v)} else {})"

lemma mod_page_dec_inc:
  "mod_page p (\<lambda>r. r\<lparr>page_ref := page_ref r - 1\<rparr>) (mod_page p (\<lambda>r. r\<lparr>page_ref := page_ref r + 1\<rparr>) s) = s"
  by (simp add: mod_page_def upd_page_def)

text \<open>The count of page \<open>x\<close> once \<open>p\<close> is mapped at \<open>v\<close>: the old page of \<open>v\<close> loses a use and \<open>p\<close> gains one.\<close>

definition moved_ref :: "mem_state \<Rightarrow> nat \<Rightarrow> nat \<Rightarrow> page_ptr \<Rightarrow> page_ptr \<Rightarrow> int" where
  "moved_ref s pd v p x =
     page_ref (page_of s x) + (if x = p then 1 else 0) - (if mapped s pd v x then 1 else 0)"

definition counted :: "mem_state \<Rightarrow> nat \<Rightarrow> u32 \<Rightarrow> page_ptr \<Rightarrow> pte_ptr \<Rightarrow> page_ptr set \<Rightarrow> nat set \<Rightarrow> mem_state \<Rightarrow> bool" where
  "counted s pd la p a F D s' \<longleftrightarrow> mem_ok s' F D \<and> data_page s' F D p \<and>
    int (card (insert (pd, PPN la) (use_set s' D p))) \<le> page_ref (page_of s' p) \<and>
    (\<forall>x. page_ref (page_of s' x) = moved_ref s pd (PPN la) p x) \<and>
    entry_of s' pd (PPN la) a \<and> same_ctl s' s \<and> tables s' D = tables s D \<and>
    (\<forall>pd'\<in>D. \<forall>v<UPAGES. (pd', v) \<noteq> (pd, PPN la) \<longrightarrow> pte_at s' pd' v = pte_at s pd' v) \<and>
    (\<forall>f. f \<notin> tables s D \<longrightarrow> frames s' f = frames s f) \<and> (tlb_ok s D \<longrightarrow> tlb_ok s' D)"

lemma insert_count_ok:
  assumes ok: "mem_ok s F D" and pd: "pd \<in> D" and la: "user_la la" and a: "entry_of s pd (PPN la) a"
    and p: "data_page s F D p"
  shows "\<exists>s'. insert_count pd p la a s = Some s' \<and> counted s pd la p a (F \<union> dropped s pd (PPN la) p) D s'"
proof -
  let ?v = "PPN la" and ?s2 = "mod_page p (\<lambda>r. r\<lparr>page_ref := page_ref r + 1\<rparr>) s"
  note v = user_la_PPN [OF la] and fin = finite_use_set [OF tables_okD(1) [OF mem_okD(3) [OF ok]]]
  have ok2: "mem_ok ?s2 F D" by (rule mem_ok_ref_ge [OF ok]) (use p in \<open>simp_all add: data_page_def\<close>)
  have ctl2: "same_ctl ?s2 s" by (auto simp: same_ctl_def)
  have ci: "card (insert (pd, ?v) (use_set s D p)) \<le> Suc (card (use_set s D p))" by (simp add: card_insert_if fin)
  have tlb2: "tlb_ok ?s2 D = tlb_ok s D" by (simp add: tlb_ok_def)
  show ?thesis
  proof (cases "present (pte_at s pd ?v)")
    case False
    then have "insert_count pd p la a s = Some ?s2"
      using entry_of_rd [OF a] by (simp add: insert_count_def page_ref_inc_def Let_def)
    then show ?thesis
      using False ok2 ctl2 p a ci tlb2 by (auto simp: counted_def data_page_def dropped_def mapped_def moved_ref_def)
  next
    case True
    define q where "q = PPN (pte_at s pd ?v)"
    have mq: "mapped s pd ?v q" using True by (simp add: mapped_def q_def)
    note qq = maps_okD [OF mem_okD(4) [OF ok] pd v mq]
    show ?thesis
    proof (cases "q = p")
      case True
      have "insert_count pd p la a s = Some s"
        using entry_of_rd [OF a] \<open>present _\<close> True qq(1)
        by (simp add: insert_count_def page_ref_inc_def page_ref_dec_def Let_def mod_page_dec_inc
            pte2page_def pa2page_def flip: q_def)
      moreover have "(pd, ?v) \<in> use_set s D p" using True mq pd v by (simp add: use_set_def)
      ultimately show ?thesis
        using True mq ok p a by (auto simp: counted_def data_page_def dropped_def insert_absorb q_def moved_ref_def mapped_def)
    next
      case False
      have e2: "entry_of ?s2 pd ?v a" "mapped ?s2 pd ?v q" using a mq by simp_all
      obtain s' F' where r: "page_remove_pte pd la a ?s2 = Some s'" "unmapped ?s2 F q s' F'" "mem_ok s' F' D"
        "\<forall>pd'\<in>D. \<forall>v<UPAGES. pte_at s' pd' v = (if pd' = pd \<and> v = ?v then 0 else pte_at ?s2 pd' v)"
        "tables s' D = tables ?s2 D" "\<forall>f. f \<notin> tables ?s2 D \<longrightarrow> frames s' f = frames ?s2 f"
        "\<forall>f\<in>D. frames s' f = frames ?s2 f" "tlb_ok ?s2 D \<longrightarrow> tlb_ok s' D"
        using page_remove_pte_present [OF ok2 pd la e2] by blast
      have F': "F' = F \<union> dropped s pd ?v p"
        using r(2) False True by (auto simp: unmapped_def dropped_def q_def)
      have "use_set s' D p = use_set s D p - {(pd, ?v)}"
        using use_set_upd [of D s' pd ?v 0 s p] r(4) pd v by simp
      moreover have "(pd, ?v) \<notin> use_set s D p" using mq False by (auto simp: use_set_def mapped_def)
      ultimately have us: "use_set s' D p = use_set s D p" by simp
      have pF: "p \<notin> F'" using r(2) p False by (auto simp: unmapped_def data_page_def)
      have ic: "insert_count pd p la a s = Some s'"
        using entry_of_rd [OF a] \<open>present _\<close> False qq(1) r(1)
        by (simp add: insert_count_def page_ref_inc_def Let_def pte2page_def pa2page_def flip: q_def)
      have rf: "page_ref (page_of s' p) = page_ref (page_of s p) + 1"
        using r(2) False by (simp add: unmapped_def)
      have mv: "\<forall>x. page_ref (page_of s' x) = moved_ref s pd ?v p x"
        using r(2) False mq by (auto simp: unmapped_def moved_ref_def mapped_def)
      have ctl: "same_ctl s' s" using r(2) ctl2 by (auto simp: unmapped_def same_ctl_def)
      moreover have "entry_of s' pd ?v a" using a r(7) pd by (simp add: entry_of_def)
      moreover have "data_page s' F' D p"
        using p pF us r(5) rf ctl by (simp add: data_page_def same_ctl_def)
      moreover have "int (card (insert (pd, ?v) (use_set s' D p))) \<le> page_ref (page_of s' p)"
        using ci p unfolding us rf data_page_def by simp
      moreover have "\<forall>pd'\<in>D. \<forall>v<UPAGES. (pd', v) \<noteq> (pd, ?v) \<longrightarrow> pte_at s' pd' v = pte_at s pd' v"
        using r(4) by auto
      ultimately have "counted s pd la p a F' D s'"
        using r(3,5,6,8) mv tlb2 unfolding counted_def by simp
      then show ?thesis using ic F' by blast
    qed
  qed
qed

lemma grown_use_set: "grown s F s' F' D \<Longrightarrow> use_set s' D p = use_set s D p"
  by (rule use_set_cong) (simp add: grown_def)

lemma grown_data_page:
  assumes g: "grown s F s' F' D" and p: "data_page s F D p"
  shows "data_page s' F' D p" "page_ref (page_of s' p) = page_ref (page_of s p)"
proof -
  have pF: "p \<notin> F" "p \<notin> F - F'" using p by (auto simp: data_page_def)
  then show r: "page_ref (page_of s' p) = page_ref (page_of s p)" using g by (simp add: grown_def)
  have "p \<notin> F' \<union> D \<union> tables s' D" using g p pF unfolding grown_def data_page_def by blast
  then show "data_page s' F' D p"
    using p r g by (simp add: data_page_def grown_use_set [OF g]) (simp add: grown_def same_ctl_def)
qed

lemma grown_dropped:
  assumes ok: "mem_ok s F D" and g: "grown s F s' F' D" and "pd \<in> D" "v < UPAGES"
  shows "dropped s' pd v p = dropped s pd v p"
proof -
  have e: "pte_at s' pd v = pte_at s pd v" using g assms(3,4) by (simp add: grown_def)
  have "page_ref (page_of s' (PPN (pte_at s pd v))) = page_ref (page_of s (PPN (pte_at s pd v)))"
    if "present (pte_at s pd v)"
    using maps_okD(2) [OF mem_okD(4) [OF ok] assms(3,4)] that g by (auto simp: mapped_def grown_def)
  then show ?thesis by (auto simp: dropped_def e)
qed

lemma grown_tlb: "grown s F s' F' D \<Longrightarrow> tlb_ok s D \<Longrightarrow> tlb_ok s' D"
  by (simp add: grown_def tlb_ok_def same_ctl_def)

text \<open>The effect of mapping: one entry changes, in one address space.\<close>

definition remapped :: "mem_state \<Rightarrow> page_ptr set \<Rightarrow> nat set \<Rightarrow> nat \<Rightarrow> nat \<Rightarrow> u32 \<Rightarrow> mem_state \<Rightarrow> page_ptr set \<Rightarrow> bool" where
  "remapped s F D pd v w s' F' \<longleftrightarrow> F' \<subseteq> F \<and> card F \<le> Suc (card F') \<and> same_ctl s' s \<and>
     tables s' D \<subseteq> tables s D \<union> (F - F') \<and>
     (\<forall>pd'\<in>D. \<forall>v'<UPAGES. pte_at s' pd' v' = (if pd' = pd \<and> v' = v then w else pte_at s pd' v')) \<and>
     (\<forall>f. f \<notin> F \<union> D \<union> tables s D \<longrightarrow> frames s' f = frames s f) \<and> (tlb_ok s D \<longrightarrow> tlb_ok s' D)"

lemma page_insert_ok:
  assumes ok: "mem_ok s F D" and c: "calm s F \<or> present (frames s pd (PDX la))"
    and pd: "pd \<in> D" and la: "user_la la" and p: "data_page s F D p" and perm: "perm < 4096"
  shows "(F = {} \<and> \<not> present (frames s pd (PDX la)) \<and> page_insert pd p la perm s = Some (err E_NO_MEM, s)) \<or>
    (\<exists>s' F'. page_insert pd p la perm s = Some (0, s') \<and> (present (frames s pd (PDX la)) \<longrightarrow> F' = F) \<and>
       mem_ok s' (F' \<union> dropped s pd (PPN la) p) D \<and>
       remapped s F D pd (PPN la) (page2pa p OR PTE_P OR perm) s' F' \<and>
       (\<forall>x. page_ref (page_of s' x) = (if x \<in> F - F' then 1 else moved_ref s pd (PPN la) p x)) \<and>
       F - F' \<subseteq> tables s' D)"
proof -
  let ?v = "PPN la" and ?w = "page2pa p OR PTE_P OR perm"
  note v = user_la_PPN [OF la]
  consider "F = {}" "\<not> present (frames s pd (PDX la))" "get_pte pd la True s = Some (None, s)"
    | a s1 F1 where "get_pte pd la True s = Some (Some a, s1)" "entry_of s1 pd ?v a" "mem_ok s1 F1 D"
        "grown s F s1 F1 D" "present (frames s pd (PDX la)) \<longrightarrow> F1 = F"
    using get_pte_create [OF ok c pd la] by blast
  then show ?thesis
  proof cases
    case 1
    then show ?thesis by (simp add: page_insert_def)
  next
    case 2
    note p1 = grown_data_page [OF 2(4) p] and d1 = grown_dropped [OF ok 2(4) pd v]
    let ?F = "F1 \<union> dropped s pd ?v p"
    obtain s2 where ic: "insert_count pd p la a s1 = Some s2" and ct: "counted s1 pd la p a ?F D s2"
      using insert_count_ok [OF 2(3) pd la 2(2) p1(1)] d1 by auto
    let ?s' = "tlb_invalidate pd la (wr a ?w s2)"
    have run: "page_insert pd p la perm s = Some (0, ?s')" using 2(1) ic by (simp add: page_insert_def Let_def)
    have k: "mem_ok s2 ?F D" "data_page s2 ?F D p"
      "int (card (insert (pd, ?v) (use_set s2 D p))) \<le> page_ref (page_of s2 p)"
      "entry_of s2 pd ?v a" "same_ctl s2 s1" "tables s2 D = tables s1 D" "tlb_ok s1 D \<longrightarrow> tlb_ok s2 D"
      "page_ref (page_of s2 x) = moved_ref s1 pd ?v p x" for x
      using ct unfolding counted_def by blast+
    have "p < 2 ^ 20" using p mem_okD(2) [OF ok] by (simp add: data_page_def)
    then have w: "PPN ?w = p" using perm by (simp add: or_less_4096)
    have ok': "mem_ok ?s' ?F D" using mem_ok_map [OF k(1) pd v k(4,2,3) w] by simp
    have ctl: "same_ctl ?s' s" using k(5) 2(4) by (simp add: same_ctl_def grown_def)
    have pte: "pte_at ?s' pd' v' = (if pd' = pd \<and> v' = ?v then ?w else pte_at s pd' v')"
      if "pd' \<in> D" "v' < UPAGES" for pd' v'
      using wr_entry_pte [OF mem_okD(3) [OF k(1)] pd v k(4) that, of ?w] ct 2(4) that
      by (auto simp: counted_def grown_def)
    have fr: "frames ?s' f = frames s f" if f: "f \<notin> F \<union> D \<union> tables s D" for f
    proof -
      have "f \<notin> tables s1 D" using f 2(4) by (auto simp: grown_def)
      moreover have "fst a \<in> tables s1 D"
        using k(4,6) tablesI [OF pd div_UPDES [OF v], of s2] by (auto simp: entry_of_def)
      ultimately have "frames ?s' f = frames s1 f" using ct by (auto simp: counted_def wr_def)
      then show ?thesis using f 2(4) by (simp add: grown_def)
    qed
    have "tlb_ok ?s' D" if "tlb_ok s D"
    proof (rule tlb_ok_upd [of s2 D, OF _ _ _ pd])
      show "tlb_ok s2 D" using k(7) grown_tlb [OF 2(4) that] by simp
      show "q < 2 ^ 20" if "q \<in> D" for q
        using tables_okD(2) [OF mem_okD(3) [OF ok] that] mem_okD(2) [OF ok] by simp
      show "pte_at (wr a ?w s2) pd' v' = pte_at s2 pd' v'"
        if "pd' \<in> D" "v' < UPAGES" "(pd', v') \<noteq> (pd, ?v)" for pd' v'
        using wr_entry_pte [OF mem_okD(3) [OF k(1)] pd v k(4) that(1,2), of ?w] that(3) by auto
    qed simp_all
    moreover have tab: "tables ?s' D = tables s1 D"
      using wr_entry_tables(1) [OF mem_okD(3) [OF k(1)] pd v k(4)] k(6) by simp
    ultimately have "remapped s F D pd ?v ?w ?s' F1"
      using 2(4) ctl pte fr by (simp add: remapped_def grown_def)
    moreover have "page_ref (page_of ?s' x) = (if x \<in> F - F1 then 1 else moved_ref s pd ?v p x)" for x
    proof -
      have e: "mapped s1 pd ?v x = mapped s pd ?v x" using 2(4) pd v by (intro mapped_same) (simp add: grown_def)
      have "\<not> mapped s pd ?v x \<and> x \<noteq> p" if "x \<in> F"
        using that p maps_okD(2) [OF mem_okD(4) [OF ok] pd v, of x] by (auto simp: data_page_def)
      then show ?thesis using k(8) [of x] 2(4) by (auto simp: grown_def moved_ref_def e)
    qed
    moreover have "F - F1 \<subseteq> tables ?s' D" using 2(4) tab by (simp add: grown_def)
    ultimately show ?thesis using run ok' 2(5) by (intro disjI2 exI [of _ ?s'] exI [of _ F1]) simp
  qed
qed

end
