(* ===== verification/Pgrange.thy ===== *)
theory Pgrange
  imports Pgtable
begin

text \<open>
  Operations on ranges of pages of kern/mm/pmm.c: unmapping a range, releasing its page tables, and
  copying it to another address space.  The loops end because every round moves the address up.
\<close>

section \<open>The loop\<close>

lemma range_loop_rule:
  assumes "I start s" "start < fin"
    and step: "\<And>a t. I a t \<Longrightarrow> a < fin \<Longrightarrow> \<exists>a' t'. step a t = Some (0, a', t') \<and> a < a' \<and>
      (a' < fin \<longrightarrow> I a' t') \<and> (fin \<le> a' \<longrightarrow> Q t')"
  shows "\<exists>s'. range_loop step fin start s = Some (0, s') \<and> Q s'"
  using assms(1,2)
proof (induction "unat fin - unat start" arbitrary: start s rule: less_induct)
  case less
  obtain a' t' where st: "step start s = Some (0, a', t')" "start < a'" "a' < fin \<longrightarrow> I a' t'" "fin \<le> a' \<longrightarrow> Q t'"
    using step [OF less.prems] by blast
  show ?case
  proof (cases "a' < fin")
    case True
    have "unat fin - unat a' < unat fin - unat start"
      using st(2) less.prems(2) by (simp add: word_less_nat_alt)
    moreover have "a' \<noteq> 0" using st(2) word_not_simps(1) by auto
    ultimately show ?thesis
      using less.hyps [of a' t'] st True by (subst range_loop.simps) simp
  next
    case False
    moreover have "Q t'" using st(4) False by simp
    ultimately show ?thesis using st(1) by (subst range_loop.simps) simp
  qed
qed

section \<open>Addresses in the user range\<close>

lemma unat_less_USERTOP: "a < fin \<Longrightarrow> fin \<le> USERTOP \<Longrightarrow> unat a < 2952790016"
  by (simp add: USERTOP_def word_less_nat_alt word_le_nat_alt)

lemma next_page:
  assumes "a < fin" "fin \<le> USERTOP"
  shows "unat (a + PGSIZE) = unat a + 4096" "a < a + PGSIZE" "PPN (a + PGSIZE) = Suc (PPN a)"
proof -
  show u: "unat (a + PGSIZE) = unat a + 4096"
    using unat_less_USERTOP [OF assms] by (subst unat_add_lem [THEN iffD1]) (simp_all add: PGSIZE_def)
  then show "a < a + PGSIZE" "PPN (a + PGSIZE) = Suc (PPN a)" by (simp_all add: word_less_nat_alt PPN_eq)
qed

lemma next_table:
  assumes "a < fin" "fin \<le> USERTOP"
  shows "a < ROUNDDOWN (a + PTSIZE) PTSIZE" "PPN (ROUNDDOWN (a + PTSIZE) PTSIZE) = 1024 * Suc (PPN a div 1024)"
proof -
  have pt: "unat PTSIZE = 4194304" by (simp add: PTSIZE_def PGSIZE_def NPTEENTRY_def)
  have "unat (a + PTSIZE) = unat a + 4194304"
    using unat_less_USERTOP [OF assms] pt by (subst unat_add_lem [THEN iffD1]) simp_all
  then have "unat (ROUNDDOWN (a + PTSIZE) PTSIZE) = unat a + 4194304 - unat a mod 4194304"
    by (simp add: unat_ROUNDDOWN pt)
  moreover have "unat a = 4194304 * (unat a div 4194304) + unat a mod 4194304" by simp
  ultimately have r: "unat (ROUNDDOWN (a + PTSIZE) PTSIZE) = 4194304 * Suc (unat a div 4194304)"
    unfolding mult_Suc_right by linarith
  have "unat a < 4194304 * Suc (unat a div 4194304)"
    by (simp add: dividend_less_times_div)
  then show "a < ROUNDDOWN (a + PTSIZE) PTSIZE" using r by (simp add: word_less_nat_alt)
  show "PPN (ROUNDDOWN (a + PTSIZE) PTSIZE) = 1024 * Suc (PPN a div 1024)"
    unfolding PPN_eq r by (simp add: div_mult2_eq [symmetric])
qed

lemma page_end:
  assumes "a < fin" "fin \<le> USERTOP"
  shows "PPN (a + PGSIZE) \<le> UPAGES" "PPN (ROUNDDOWN (a + PTSIZE) PTSIZE) \<le> UPAGES"
proof -
  have "PPN a < UPAGES" using unat_less_USERTOP [OF assms] by (simp add: PPN_eq UPAGES_def)
  then show "PPN (a + PGSIZE) \<le> UPAGES" by (simp add: next_page(3) [OF assms])
  have "PPN a div 1024 < 704" using \<open>PPN a < UPAGES\<close> by (simp add: UPAGES_def)
  then show "PPN (ROUNDDOWN (a + PTSIZE) PTSIZE) \<le> UPAGES" by (simp add: next_table(2) [OF assms] UPAGES_def)
qed

lemma table_pages:
  assumes "PPN a \<le> v" "v < PPN (ROUNDDOWN (a + PTSIZE) PTSIZE)" "a < fin" "fin \<le> USERTOP"
  shows "v div 1024 = PPN a div 1024"
  using assms(1,2) unfolding next_table(2) [OF assms(3,4)]
  by (metis div_le_mono less_mult_imp_div_less less_Suc_eq_le le_antisym mult.commute)

lemma PPN_less_aligned:
  assumes "a < fin" "fin mod PGSIZE = 0"
  shows "PPN a < PPN fin"
proof -
  have "unat fin mod 4096 = 0"
    using arg_cong [OF assms(2), of unat] by (simp add: unat_mod_distrib PGSIZE_def)
  then show ?thesis using assms(1) by (simp add: PPN_eq word_less_nat_alt less_mult_imp_div_less dvd_div_mult_self mod_eq_0_iff_dvd)
qed

lemma PPN_mono: "a \<le> b \<Longrightarrow> PPN a \<le> PPN b"
  by (simp add: PPN_eq word_le_nat_alt div_le_mono)

lemma user_la_less: "a < fin \<Longrightarrow> fin \<le> USERTOP \<Longrightarrow> user_la a"
  by (simp add: user_la_def)

lemma no_table_pte: "\<not> present (frames s pd (v div 1024)) \<Longrightarrow> pte_at s pd v = 0"
  by (simp add: pte_at_def)

section \<open>Unmapping\<close>

text \<open>
  Pages \<open>lo\<close> to \<open>hi\<close> of \<open>pd\<close> lost their mappings; nothing else changed in any address space.  \<open>uses\<close> are the
  places of the range that map a page: its count drops by their number, and it is freed when the
  count reaches 0.
\<close>

definition uses :: "mem_state \<Rightarrow> nat \<Rightarrow> nat \<Rightarrow> nat \<Rightarrow> page_ptr \<Rightarrow> nat set" where
  "uses s pd lo hi p = {v. lo \<le> v \<and> v < hi \<and> mapped s pd v p}"

definition cleared ::
  "mem_state \<Rightarrow> page_ptr set \<Rightarrow> nat set \<Rightarrow> nat \<Rightarrow> nat \<Rightarrow> nat \<Rightarrow> mem_state \<Rightarrow> page_ptr set \<Rightarrow> bool" where
  "cleared s F D pd lo hi s' F' \<longleftrightarrow> mem_ok s' F' D \<and> same_ctl s' s \<and>
     F' = F \<union> {x. uses s pd lo hi x \<noteq> {} \<and> page_ref (page_of s' x) = 0} \<and>
     (\<forall>x. page_ref (page_of s' x) = page_ref (page_of s x) - int (card (uses s pd lo hi x))) \<and>
     tables s' D = tables s D \<and> (\<forall>f\<in>D. frames s' f = frames s f) \<and>
     (\<forall>pd'\<in>D. \<forall>v<UPAGES. pte_at s' pd' v =
        (if pd' = pd \<and> lo \<le> v \<and> v < hi \<and> present (pte_at s pd v) then 0 else pte_at s pd' v)) \<and>
     (\<forall>f. f \<notin> tables s D \<longrightarrow> frames s' f = frames s f) \<and> (tlb_ok s D \<longrightarrow> tlb_ok s' D)"

lemma cleared_same:
  assumes "mem_ok s F D" "\<And>v. lo \<le> v \<Longrightarrow> v < hi \<Longrightarrow> \<not> present (pte_at s pd v)"
  shows "cleared s F D pd lo hi s F"
proof -
  have "uses s pd lo hi x = {}" for x using assms(2) by (auto simp: uses_def mapped_def)
  then show ?thesis using assms unfolding cleared_def by auto
qed

lemma uses_split:
  assumes "lo \<le> mid" "mid \<le> hi" and "\<And>v. mid \<le> v \<Longrightarrow> v < hi \<Longrightarrow> pte_at s1 pd v = pte_at s pd v"
  shows "uses s pd lo hi x = uses s pd lo mid x \<union> uses s1 pd mid hi x"
    and "card (uses s pd lo hi x) = card (uses s pd lo mid x) + card (uses s1 pd mid hi x)"
proof -
  show *: "uses s pd lo hi x = uses s pd lo mid x \<union> uses s1 pd mid hi x"
    using assms by (auto simp: uses_def mapped_def)
  have "finite (uses s pd lo mid x)" "finite (uses s1 pd mid hi x)" by (auto simp: uses_def)
  then show "card (uses s pd lo hi x) = card (uses s pd lo mid x) + card (uses s1 pd mid hi x)"
    unfolding * by (intro card_Un_disjoint) (auto simp: uses_def)
qed

lemma cleared_trans:
  assumes 1: "cleared s F D pd lo mid s1 F1" and 2: "cleared s1 F1 D pd mid hi s2 F2"
    and "lo \<le> mid" "mid \<le> hi" "pd \<in> D" "hi \<le> UPAGES"
  shows "cleared s F D pd lo hi s2 F2"
proof -
  have "pte_at s1 pd v = pte_at s pd v" if "mid \<le> v" "v < hi" for v
  proof -
    have "v < UPAGES" "\<not> v < mid" using that assms(6) by auto
    then show ?thesis using 1 assms(5) unfolding cleared_def by simp
  qed
  then have us: "uses s pd lo hi x = uses s pd lo mid x \<union> uses s1 pd mid hi x"
    "card (uses s pd lo hi x) = card (uses s pd lo mid x) + card (uses s1 pd mid hi x)" for x
    by (auto intro!: uses_split [OF assms(3,4)])
  have F1: "F1 = F \<union> {x. uses s pd lo mid x \<noteq> {} \<and> page_ref (page_of s1 x) = 0}"
    and r1: "page_ref (page_of s1 x) = page_ref (page_of s x) - int (card (uses s pd lo mid x))" for x
    using 1 unfolding cleared_def by blast+
  have F2: "F2 = F1 \<union> {x. uses s1 pd mid hi x \<noteq> {} \<and> page_ref (page_of s2 x) = 0}" and ok2: "mem_ok s2 F2 D"
    and r2: "page_ref (page_of s2 x) = page_ref (page_of s1 x) - int (card (uses s1 pd mid hi x))" for x
    using 2 unfolding cleared_def by blast+
  have "page_ref (page_of s2 x) = 0" if "x \<in> F1" for x using mem_okD(7) [OF ok2] F2 that by blast
  then have F: "F2 = F \<union> {x. uses s pd lo hi x \<noteq> {} \<and> page_ref (page_of s2 x) = 0}"
    using r2 by (subst F2, subst F1) (auto simp: F1 us(1))
  have r: "page_ref (page_of s2 x) = page_ref (page_of s x) - int (card (uses s pd lo hi x))" for x
    using r1 [of x] r2 [of x] us(2) [of x] by simp
  have "pte_at s2 pd' v =
      (if pd' = pd \<and> lo \<le> v \<and> v < hi \<and> present (pte_at s pd v) then 0 else pte_at s pd' v)"
    if "pd' \<in> D" "v < UPAGES" for pd' v
  proof -
    have a: "pte_at s1 q v =
        (if q = pd \<and> lo \<le> v \<and> v < mid \<and> present (pte_at s pd v) then 0 else pte_at s q v)" if "q \<in> D" for q
      using 1 that \<open>v < UPAGES\<close> unfolding cleared_def by blast
    have b: "pte_at s2 pd' v =
        (if pd' = pd \<and> mid \<le> v \<and> v < hi \<and> present (pte_at s1 pd v) then 0 else pte_at s1 pd' v)"
      using 2 that unfolding cleared_def by blast
    show ?thesis unfolding b a [OF that(1)] a [OF assms(5)] using assms(3,4) by auto
  qed
  moreover have "same_ctl s2 s" using 1 2 same_ctl_trans unfolding cleared_def by blast
  moreover have "tables s2 D = tables s D" "\<forall>f\<in>D. frames s2 f = frames s f"
    "\<forall>f. f \<notin> tables s D \<longrightarrow> frames s2 f = frames s f" "tlb_ok s D \<longrightarrow> tlb_ok s2 D"
    using 1 2 unfolding cleared_def by simp_all
  ultimately show ?thesis using ok2 F r unfolding cleared_def by blast
qed

lemma page_remove_pte_ok:
  assumes ok: "mem_ok s F D" and pd: "pd \<in> D" and la: "user_la la" and a: "entry_of s pd (PPN la) a"
  shows "\<exists>s' F'. page_remove_pte pd la a s = Some s' \<and> cleared s F D pd (PPN la) (Suc (PPN la)) s' F'"
proof (cases "present (pte_at s pd (PPN la))")
  case True
  then have "mapped s pd (PPN la) (PPN (pte_at s pd (PPN la)))" by (simp add: mapped_def)
  from page_remove_pte_present [OF ok pd la a this] obtain s' F' where
    r: "page_remove_pte pd la a s = Some s'" "unmapped s F (PPN (pte_at s pd (PPN la))) s' F'" "mem_ok s' F' D"
      "\<forall>pd'\<in>D. \<forall>v<UPAGES. pte_at s' pd' v = (if pd' = pd \<and> v = PPN la then 0 else pte_at s pd' v)"
      "tables s' D = tables s D" "\<forall>f. f \<notin> tables s D \<longrightarrow> frames s' f = frames s f"
      "\<forall>f\<in>D. frames s' f = frames s f" "tlb_ok s D \<longrightarrow> tlb_ok s' D" by blast
  moreover have us: "uses s pd (PPN la) (Suc (PPN la)) x = (if x = PPN (pte_at s pd (PPN la)) then {PPN la} else {})" for x
    using True by (auto simp: uses_def mapped_def dest: le_less_Suc_eq)
  moreover have "same_ctl s' s" using r(2) by (simp add: unmapped_def)
  moreover have "F' = F \<union> {x. uses s pd (PPN la) (Suc (PPN la)) x \<noteq> {} \<and> page_ref (page_of s' x) = 0}"
    "\<forall>x. page_ref (page_of s' x) = page_ref (page_of s x) - int (card (uses s pd (PPN la) (Suc (PPN la)) x))"
    using r(2) unfolding us by (auto simp: unmapped_def split: if_splits)
  moreover have "(pd' = pd \<and> v = PPN la) =
      (pd' = pd \<and> PPN la \<le> v \<and> v < Suc (PPN la) \<and> present (pte_at s pd v))" for pd' v
    using True by auto
  ultimately show ?thesis unfolding cleared_def by auto
next
  case False
  have "v = PPN la" if "PPN la \<le> v" "v < Suc (PPN la)" for v using that by simp
  then have "cleared s F D pd (PPN la) (Suc (PPN la)) s F"
    using False by (intro cleared_same [OF ok]) metis
  then show ?thesis using page_remove_pte_absent [OF a False] by blast
qed

lemma unmap_step_ok:
  assumes ok: "mem_ok s F D" and pd: "pd \<in> D" and a: "a < fin" "fin \<le> USERTOP"
  shows "\<exists>a' s' F'. unmap_step pd a s = Some (0, a', s') \<and> a < a' \<and> cleared s F D pd (PPN a) (PPN a') s' F' \<and>
    (a' = a + PGSIZE \<or> a' = ROUNDDOWN (a + PTSIZE) PTSIZE \<and> \<not> present (frames s pd (PPN a div 1024)))"
proof -
  note la = user_la_less [OF a]
  consider "lookup_pte pd a s = Some None" "\<not> present (frames s pd (PDX a))"
    | e where "lookup_pte pd a s = Some (Some e)" "entry_of s pd (PPN a) e"
    using lookup_pte_eq [OF mem_okD(3) [OF ok] pd la] by blast
  then show ?thesis
  proof cases
    case 1
    have "\<not> present (pte_at s pd v)" if "PPN a \<le> v" "v < PPN (ROUNDDOWN (a + PTSIZE) PTSIZE)" for v
      using table_pages [OF that a] 1(2) by (simp add: pte_at_def PPN_PDX)
    then have "cleared s F D pd (PPN a) (PPN (ROUNDDOWN (a + PTSIZE) PTSIZE)) s F" by (rule cleared_same [OF ok])
    then show ?thesis using 1 next_table(1) [OF a] by (auto simp: unmap_step_def PPN_PDX)
  next
    case 2
    show ?thesis
    proof (cases "rd s e = 0")
      case True
      then have "\<not> present (pte_at s pd (PPN a))" using entry_of_rd [OF 2(2)] by simp
      then have "cleared s F D pd (PPN a) (PPN (a + PGSIZE)) s F"
        unfolding next_page(3) [OF a] by (intro cleared_same [OF ok]) (simp add: less_Suc_eq_le)
      then show ?thesis using 2(1) True next_page(2) [OF a] by (auto simp: unmap_step_def)
    next
      case False
      then show ?thesis
        using page_remove_pte_ok [OF ok pd la 2(2)] 2(1) next_page(2,3) [OF a] by (auto simp: unmap_step_def)
    qed
  qed
qed

lemma cleared_shrink:
  assumes c: "cleared s F D pd lo hi s' F'" and "hi' \<le> hi"
    and "\<And>v. hi' \<le> v \<Longrightarrow> v < hi \<Longrightarrow> \<not> present (pte_at s pd v)"
  shows "cleared s F D pd lo hi' s' F'"
proof -
  have e: "(lo \<le> v \<and> v < hi \<and> present (pte_at s pd v)) = (lo \<le> v \<and> v < hi' \<and> present (pte_at s pd v))" for v
    using assms(2,3) by (meson leI less_le_trans)
  then have u: "uses s pd lo hi = uses s pd lo hi'" by (auto simp: uses_def mapped_def fun_eq_iff)
  show ?thesis using c unfolding cleared_def e u .
qed

text \<open>What \<open>unmap_range\<close> asserts of its arguments.\<close>

definition user_range :: "u32 \<Rightarrow> u32 \<Rightarrow> bool" where
  "user_range start fin \<longleftrightarrow> start mod PGSIZE = 0 \<and> fin mod PGSIZE = 0 \<and> USER_ACCESS start fin"

lemma user_rangeD:
  "user_range start fin \<Longrightarrow> start < fin" "user_range start fin \<Longrightarrow> fin \<le> USERTOP"
  "user_range start fin \<Longrightarrow> fin mod PGSIZE = 0"
  by (simp_all add: user_range_def USER_ACCESS_def)

lemma unmap_range_ok:
  assumes ok: "mem_ok s F D" and pd: "pd \<in> D" and r: "user_range start fin"
  shows "\<exists>s' F'. unmap_range pd start fin s = Some s' \<and> cleared s F D pd (PPN start) (PPN fin) s' F'"
proof -
  note u = user_rangeD [OF r]
  have "\<exists>s'. range_loop (unmap_step pd) fin start s = Some (0, s') \<and>
      (\<exists>F'. cleared s F D pd (PPN start) (PPN fin) s' F')"
  proof (rule range_loop_rule [where I = "\<lambda>a t. \<exists>F'. start \<le> a \<and> cleared s F D pd (PPN start) (PPN a) t F'"])
    show "\<exists>F'. start \<le> start \<and> cleared s F D pd (PPN start) (PPN start) s F'"
      using cleared_same [OF ok] by (intro exI [of _ F]) simp
    show "start < fin" by (rule u(1))
    fix a t assume "\<exists>F'. start \<le> a \<and> cleared s F D pd (PPN start) (PPN a) t F'" and a: "a < fin"
    then obtain F1 where c: "start \<le> a" "cleared s F D pd (PPN start) (PPN a) t F1" by blast
    have ok1: "mem_ok t F1 D" using c(2) unfolding cleared_def by blast
    obtain a' t' F2 where st: "unmap_step pd a t = Some (0, a', t')" "a < a'"
      "cleared t F1 D pd (PPN a) (PPN a') t' F2"
      "a' = a + PGSIZE \<or> a' = ROUNDDOWN (a + PTSIZE) PTSIZE \<and> \<not> present (frames t pd (PPN a div 1024))"
      using unmap_step_ok [OF ok1 pd a u(2)] by blast
    have hi: "PPN a' \<le> UPAGES" using st(4) page_end [OF a u(2)] by auto
    have tr: "cleared s F D pd (PPN start) (PPN a') t' F2"
      using cleared_trans [OF c(2) st(3) _ _ pd] PPN_mono [OF c(1)] PPN_mono [of a a'] st(2) hi by simp
    have last: "cleared s F D pd (PPN start) (PPN fin) t' F2" if f: "fin \<le> a'"
    proof -
      have "cleared t F1 D pd (PPN a) (PPN fin) t' F2"
      proof (rule cleared_shrink [OF st(3) PPN_mono [OF f]])
        fix v assume v: "PPN fin \<le> v" "v < PPN a'"
        show "\<not> present (pte_at t pd v)"
        proof (cases "a' = a + PGSIZE")
          case True
          then show ?thesis using v PPN_less_aligned [OF a u(3)] next_page(3) [OF a u(2)] by simp
        next
          case False
          then have n: "a' = ROUNDDOWN (a + PTSIZE) PTSIZE" "\<not> present (frames t pd (PPN a div 1024))"
            using st(4) by auto
          then show ?thesis
            using table_pages [OF _ _ a u(2), of v] v PPN_less_aligned [OF a u(3)] by (simp add: pte_at_def)
        qed
      qed
      then show ?thesis
        using cleared_trans [OF c(2) _ _ _ pd] PPN_mono [OF c(1)] PPN_mono [of a fin] PPN_mono [OF f] hi a by simp
    qed
    show "\<exists>a' t'. unmap_step pd a t = Some (0, a', t') \<and> a < a' \<and>
        (a' < fin \<longrightarrow> (\<exists>F'. start \<le> a' \<and> cleared s F D pd (PPN start) (PPN a') t' F')) \<and>
        (fin \<le> a' \<longrightarrow> (\<exists>F'. cleared s F D pd (PPN start) (PPN fin) t' F'))"
      using st(1,2) tr last c(1) by (intro exI [of _ a'] exI [of _ t']) auto
  qed
  then show ?thesis using r by (auto simp: unmap_range_def user_range_def)
qed

section \<open>Copying\<close>

text \<open>
  Pages \<open>lo\<close> to \<open>hi\<close> of \<open>from\<close> were copied to \<open>to\<close>: every mapped page to a page that was free, with
  the same contents and permissions.  All other mappings and all other pages are as before.
\<close>

definition copy_at :: "mem_state \<Rightarrow> page_ptr set \<Rightarrow> mem_state \<Rightarrow> page_ptr set \<Rightarrow> nat \<Rightarrow> nat \<Rightarrow> nat \<Rightarrow> bool" where
  "copy_at s F s' F' to from v \<longleftrightarrow>
     (if present (pte_at s from v)
      then \<exists>q. q \<in> F - F' \<and> pte_at s' to v = page2pa q OR PTE_P OR (pte_at s from v AND PTE_USER) \<and>
             frames s' q = frames s (PPN (pte_at s from v))
      else pte_at s' to v = pte_at s to v)"

definition copied ::
  "mem_state \<Rightarrow> page_ptr set \<Rightarrow> nat set \<Rightarrow> nat \<Rightarrow> nat \<Rightarrow> nat \<Rightarrow> nat \<Rightarrow> mem_state \<Rightarrow> page_ptr set \<Rightarrow> bool" where
  "copied s F D to from lo hi s' F' \<longleftrightarrow> mem_ok s' F' D \<and> F' \<subseteq> F \<and> same_ctl s' s \<and>
     tables s' D \<subseteq> tables s D \<union> F \<and>
     (\<forall>pd\<in>D. \<forall>v<UPAGES. \<not> (pd = to \<and> lo \<le> v \<and> v < hi) \<longrightarrow> pte_at s' pd v = pte_at s pd v) \<and>
     (\<forall>v<UPAGES. lo \<le> v \<longrightarrow> v < hi \<longrightarrow> copy_at s F s' F' to from v) \<and>
     (\<forall>f. f \<notin> F \<union> D \<union> tables s D \<longrightarrow> frames s' f = frames s f) \<and> (tlb_ok s D \<longrightarrow> tlb_ok s' D)"

lemma copied_same:
  assumes "mem_ok s F D" "\<And>v. lo \<le> v \<Longrightarrow> v < hi \<Longrightarrow> \<not> present (pte_at s from v)"
  shows "copied s F D to from lo hi s F"
  using assms unfolding copied_def copy_at_def by auto

lemma new_entry_PPN: "q < 2 ^ 20 \<Longrightarrow> PPN (page2pa q OR PTE_P OR (e AND PTE_USER)) = q"
  "present (page2pa q OR PTE_P OR (e AND PTE_USER))"
proof -
  have "e AND PTE_USER < 4096"
    using PTE_flags_less(4) word_and_le1 [of e PTE_USER] by (simp add: and.commute le_less_trans)
  then show "q < 2 ^ 20 \<Longrightarrow> PPN (page2pa q OR PTE_P OR (e AND PTE_USER)) = q" by (simp add: or_less_4096)
qed simp

text \<open>A copy stays intact while later pages are copied.\<close>

lemma copy_at_keep:
  assumes c: "copy_at s F s1 F1 to from v" and ok: "mem_ok s F D" "mem_ok s1 F1 D" and to: "to \<in> D" "v < UPAGES"
    and keep: "pte_at s2 to v = pte_at s1 to v" "\<And>f. f \<notin> F1 \<union> D \<union> tables s1 D \<Longrightarrow> frames s2 f = frames s1 f"
    and F2: "F2 \<subseteq> F1"
  shows "copy_at s F s2 F2 to from v"
proof (cases "present (pte_at s from v)")
  case True
  then obtain q where q: "q \<in> F - F1" "pte_at s1 to v = page2pa q OR PTE_P OR (pte_at s from v AND PTE_USER)"
    "frames s1 q = frames s (PPN (pte_at s from v))" using c by (auto simp: copy_at_def)
  have "q < 2 ^ 20" using mem_okD(2,5) [OF ok(1)] q(1) by fastforce
  then have "mapped s1 to v q" using q(2) new_entry_PPN by (simp add: mapped_def del: present_or)
  then have "q \<notin> F1 \<union> D \<union> tables s1 D"
    using maps_okD(2,3,4) [OF mem_okD(4) [OF ok(2)] to] by blast
  then have "frames s2 q = frames s1 q" by (rule keep(2))
  then show ?thesis using True q keep(1) F2 by (auto simp: copy_at_def)
next
  case False
  then show ?thesis using c keep(1) by (simp add: copy_at_def)
qed

text \<open>Copying sees the pages of \<open>from\<close> as they were at first.\<close>

lemma copy_at_late:
  assumes c: "copy_at s1 F1 s2 F2 to from v" and ok: "mem_ok s F D" and fd: "from \<in> D" "v < UPAGES"
    and same: "pte_at s1 from v = pte_at s from v" "pte_at s1 to v = pte_at s to v"
      "\<And>f. f \<notin> F \<union> D \<union> tables s D \<Longrightarrow> frames s1 f = frames s f"
    and F1: "F1 \<subseteq> F"
  shows "copy_at s F s2 F2 to from v"
proof -
  have "frames s1 (PPN (pte_at s from v)) = frames s (PPN (pte_at s from v))" if "present (pte_at s from v)"
  proof (rule same(3))
    have "mapped s from v (PPN (pte_at s from v))" using that by (simp add: mapped_def)
    then show "PPN (pte_at s from v) \<notin> F \<union> D \<union> tables s D"
      using maps_okD(2,3,4) [OF mem_okD(4) [OF ok] fd] by blast
  qed
  then show ?thesis using c same(1,2) F1 by (auto simp: copy_at_def split: if_splits)
qed

lemma copied_trans:
  assumes ok: "mem_ok s F D" and 1: "copied s F D to from lo mid s1 F1" and 2: "copied s1 F1 D to from mid hi s2 F2"
    and "lo \<le> mid" "mid \<le> hi" "to \<in> D" "from \<in> D" "to \<noteq> from"
  shows "copied s F D to from lo hi s2 F2"
proof -
  have ok1: "mem_ok s1 F1 D" using 1 by (simp add: copied_def)
  have F1: "F1 \<subseteq> F" "F2 \<subseteq> F1" using 1 2 by (simp_all add: copied_def)
  have p1: "\<And>pd v. pd \<in> D \<Longrightarrow> v < UPAGES \<Longrightarrow> \<not> (pd = to \<and> lo \<le> v \<and> v < mid) \<Longrightarrow> pte_at s1 pd v = pte_at s pd v"
    and p2: "\<And>pd v. pd \<in> D \<Longrightarrow> v < UPAGES \<Longrightarrow> \<not> (pd = to \<and> mid \<le> v \<and> v < hi) \<Longrightarrow> pte_at s2 pd v = pte_at s1 pd v"
    and f1: "\<And>f. f \<notin> F \<union> D \<union> tables s D \<Longrightarrow> frames s1 f = frames s f"
    and f2: "\<And>f. f \<notin> F1 \<union> D \<union> tables s1 D \<Longrightarrow> frames s2 f = frames s1 f"
    and t1: "tables s1 D \<subseteq> tables s D \<union> F" and t2: "tables s2 D \<subseteq> tables s1 D \<union> F1"
    using 1 2 by (simp_all add: copied_def)
  have "copy_at s F s2 F2 to from v" if v: "v < UPAGES" "lo \<le> v" "v < hi" for v
  proof (cases "v < mid")
    case True
    then have "copy_at s F s1 F1 to from v" "pte_at s2 to v = pte_at s1 to v"
      using 1 v p2 assms(6) by (simp_all add: copied_def)
    then show ?thesis using copy_at_keep [OF _ ok ok1 assms(6) v(1) _ f2 F1(2)] by blast
  next
    case False
    then have m: "mid \<le> v" by simp
    have "copy_at s1 F1 s2 F2 to from v" using 2 v m unfolding copied_def by blast
    moreover have "pte_at s1 from v = pte_at s from v" "pte_at s1 to v = pte_at s to v"
      using p1 assms(6-8) v(1) m by simp_all
    ultimately show ?thesis using copy_at_late [OF _ ok assms(7) v(1) _ _ f1 F1(1)] by blast
  qed
  moreover have "same_ctl s1 s" "same_ctl s2 s1" using 1 2 by (simp_all add: copied_def)
  then have "same_ctl s2 s" using same_ctl_trans by blast
  moreover have "pte_at s2 pd v = pte_at s pd v"
    if "pd \<in> D" "v < UPAGES" "\<not> (pd = to \<and> lo \<le> v \<and> v < hi)" for pd v
    using p1 p2 that assms(4,5) by (metis le_trans less_le_trans)
  moreover have "frames s2 f = frames s f" if "f \<notin> F \<union> D \<union> tables s D" for f
  proof -
    have "f \<notin> F1 \<union> D \<union> tables s1 D" using that F1 t1 by blast
    then show ?thesis using f1 [OF that] f2 by simp
  qed
  moreover have "tables s2 D \<subseteq> tables s D \<union> F" "F2 \<subseteq> F" using t1 t2 F1 by blast+
  moreover have "mem_ok s2 F2 D" "tlb_ok s D \<longrightarrow> tlb_ok s2 D" using 1 2 by (auto simp: copied_def)
  ultimately show ?thesis unfolding copied_def by simp
qed

text \<open>The page is allocated, filled and mapped.\<close>

lemma finite_free: "mem_ok s F D \<Longrightarrow> finite F"
  using default_pmm.rep_nr [OF mem_okD(1)] by blast

lemma copy_page_to_ok:
  assumes ok: "mem_ok s F D" and D: "to \<in> D" "from \<in> D" and a: "a < fin" "fin \<le> USERTOP"
    and F: "F \<noteq> {}" and tab: "present (frames s to (PDX a))"
    and e: "rd s e = pte_at s from (PPN a)" "present (pte_at s from (PPN a))"
    and fresh: "\<not> present (pte_at s to (PPN a))" and ne: "to \<noteq> from"
  shows "\<exists>s' F'. copy_page_to to a e s = Some (0, s') \<and> copied s F D to from (PPN a) (Suc (PPN a)) s' F' \<and>
    card F \<le> Suc (card F')"
proof -
  let ?v = "PPN a" and ?e = "pte_at s from (PPN a)"
  note la = user_la_less [OF a] and t = mem_okD(3) [OF ok]
  note v = user_la_PPN [OF la]
  have m: "mapped s from ?v (PPN ?e)" using e(2) by (simp add: mapped_def)
  note mp = maps_okD [OF mem_okD(4) [OF ok] D(2) v m]
  have "calm s F" using F by (simp add: calm_def)
  then obtain np fa where al: "np \<in> F" "alloc_pages 1 s = Some (Some np, s\<lparr>farea := fa\<rparr>)" "pmm_rep fa (F - {np})"
    "\<forall>x. same_page (pages fa x) (page_of s x)"
    using alloc_page_calm [OF mem_okD(1) [OF ok]] F by blast
  define s2 where "s2 = s\<lparr>farea := fa, frames := (frames s)(np := frames s (PPN ?e))\<rparr>"
  have np: "np < npage s" "np < 2 ^ 20" "np \<notin> D \<union> tables s D"
    using mem_okD(2,5) [OF ok] al(1) tables_okD(3) [OF t] tables_free [OF t] by (fastforce, fastforce, blast)
  have p20: "PPN ?e < 2 ^ 20" by (rule PPN_less)
  have ok1: "mem_ok (s\<lparr>farea := fa\<rparr>) (F - {np}) D" by (rule mem_ok_alloc [OF ok al(3) _ al(4)]) auto
  have fr: "frames s2 f = (if f = np then frames s (PPN ?e) else frames s f)" for f by (simp add: s2_def)
  have ok2: "mem_ok s2 (F - {np}) D"
    by (rule mem_ok_frame [OF ok1]) (use np(3) in \<open>auto simp: s2_def\<close>)
  have t2: "tables s2 D = tables s D" by (rule tables_cong) (use np(3) in \<open>auto simp: fr\<close>)
  have pte2: "pte_at s2 pd' v' = pte_at s pd' v'" if "pd' \<in> D" "v' < UPAGES" for pd' v'
    by (rule pte_at_cong [OF that]) (use np(3) in \<open>auto simp: fr\<close>)
  have us: "use_set s2 D np = {}"
    using maps_okD(2) [OF mem_okD(4) [OF ok]] al(1) pte2 by (fastforce simp: use_set_def mapped_def)
  have ctl2: "same_ctl s2 s" using al(4) by (simp add: same_ctl_def s2_def page_of_def same_page_def)
  have dp: "data_page s2 (F - {np}) D np"
    using np us t2 mem_okD(6,7) [OF ok al(1)] al(4)
    by (simp add: data_page_def s2_def page_of_def same_page_def)
  have ft: "frames s2 to = frames s to" using D(1) np(3) by (auto simp: fr)
  have perm: "?e AND PTE_USER < 4096"
    using PTE_flags_less(4) word_and_le1 [of ?e PTE_USER] by (simp add: and.commute le_less_trans)
  obtain s3 where ins: "page_insert to np a (?e AND PTE_USER) s2 = Some (0, s3)"
    "mem_ok s3 (F - {np} \<union> dropped s2 to ?v np) D"
    "remapped s2 (F - {np}) D to ?v (page2pa np OR PTE_P OR (?e AND PTE_USER)) s3 (F - {np})"
    using page_insert_ok [OF ok2 _ D(1) la dp perm] tab ft by auto
  have "dropped s2 to ?v np = {}" using fresh pte2 [OF D(1) v] by (simp add: dropped_def)
  then have ok3: "mem_ok s3 (F - {np}) D" using ins(2) by simp
  have run: "copy_page_to to a e s = Some (0, s3)"
    using al(2) ins(1) e np(1,2) mp(1) p20
    by (simp add: copy_page_to_def pte2page_def pa2page_def page2kva_def KADDR_def s2_def)
  have pte: "pte_at s3 pd' v' = (if pd' = to \<and> v' = ?v then page2pa np OR PTE_P OR (?e AND PTE_USER)
      else pte_at s pd' v')" if "pd' \<in> D" "v' < UPAGES" for pd' v'
    using ins(3) pte2 [OF that] that by (simp add: remapped_def)
  have fr3: "frames s3 f = frames s2 f" if "f \<notin> F - {np} \<union> D \<union> tables s D" for f
    using ins(3) that t2 by (simp add: remapped_def)
  have "copied s F D to from ?v (Suc ?v) s3 (F - {np})"
    unfolding copied_def
  proof (intro conjI allI ballI impI)
    show "copy_at s F s3 (F - {np}) to from v'" if "v' < UPAGES" "?v \<le> v'" "v' < Suc ?v" for v'
    proof -
      have "v' = ?v" using that by simp
      moreover have "frames s3 np = frames s (PPN ?e)" using fr3 [of np] np(3) fr by simp
      ultimately show ?thesis using e(2) al(1) pte [OF D(1) v] by (auto simp: copy_at_def)
    qed
    show "same_ctl s3 s" using ins(3) ctl2 same_ctl_trans by (auto simp: remapped_def)
    show "tables s3 D \<subseteq> tables s D \<union> F" using ins(3) t2 by (auto simp: remapped_def)
    show "pte_at s3 pd' v' = pte_at s pd' v'"
      if "pd' \<in> D" "v' < UPAGES" "\<not> (pd' = to \<and> ?v \<le> v' \<and> v' < Suc ?v)" for pd' v'
      using pte [OF that(1,2)] that(3) by auto
    show "frames s3 f = frames s f" if "f \<notin> F \<union> D \<union> tables s D" for f
      using fr3 [of f] fr [of f] that al(1) by auto
    show "tlb_ok s3 D" if "tlb_ok s D"
    proof -
      have "tlb_ok s2 D" using that pte2 by (simp add: tlb_ok_def) (simp add: s2_def)
      then show ?thesis using ins(3) by (simp add: remapped_def)
    qed
  qed (use ok3 in auto)
  moreover have "card F \<le> Suc (card (F - {np}))" using al(1) finite_free [OF ok] by simp
  ultimately show ?thesis using run by blast
qed

lemma grown_copied:
  assumes ok: "mem_ok s F D" "mem_ok s1 F1 D" and g: "grown s F s1 F1 D"
    and c: "copied s1 F1 D to from v (Suc v) s2 F2"
    and D: "to \<in> D" "from \<in> D" "v < UPAGES"
  shows "copied s F D to from v (Suc v) s2 F2"
proof -
  have pte: "pte_at s1 pd' v' = pte_at s pd' v'" if "pd' \<in> D" "v' < UPAGES" for pd' v'
    using g that by (simp add: grown_def)
  have fr: "frames s1 f = frames s f" if "f \<notin> F \<union> D \<union> tables s D" for f
    using g that by (simp add: grown_def)
  have F1: "F1 \<subseteq> F" "tables s1 D \<subseteq> tables s D \<union> F" using g by (auto simp: grown_def)
  have ca: "copy_at s F s2 F2 to from v'" if v': "v' < UPAGES" "v \<le> v'" "v' < Suc v" for v'
  proof -
    have "copy_at s1 F1 s2 F2 to from v'" using c v' unfolding copied_def by blast
    then show ?thesis
      using copy_at_late [OF _ ok(1) D(2) v'(1) _ _ fr F1(1)] pte D(1,2) v'(1) by blast
  qed
  have "same_ctl s1 s" "same_ctl s2 s1" using g c by (simp_all add: grown_def copied_def)
  then have ctl: "same_ctl s2 s" using same_ctl_trans by blast
  have c2: "\<And>pd' v'. pd' \<in> D \<Longrightarrow> v' < UPAGES \<Longrightarrow> \<not> (pd' = to \<and> v \<le> v' \<and> v' < Suc v) \<Longrightarrow> pte_at s2 pd' v' = pte_at s1 pd' v'"
    "\<And>f. f \<notin> F1 \<union> D \<union> tables s1 D \<Longrightarrow> frames s2 f = frames s1 f" "tables s2 D \<subseteq> tables s1 D \<union> F1"
    "F2 \<subseteq> F1" "mem_ok s2 F2 D" "tlb_ok s1 D \<longrightarrow> tlb_ok s2 D"
    using c by (simp_all add: copied_def)
  have fr2: "frames s2 f = frames s f" if "f \<notin> F \<union> D \<union> tables s D" for f
  proof -
    have "f \<notin> F1 \<union> D \<union> tables s1 D" using that F1 by blast
    then show ?thesis using c2(2) fr [OF that] by simp
  qed
  have "tables s2 D \<subseteq> tables s D \<union> F" "F2 \<subseteq> F" using c2(3,4) F1 by blast+
  then show ?thesis
    using ca ctl c2(1,5,6) pte fr2 grown_tlb [OF g] unfolding copied_def by simp
qed

lemma copy_step_ok:
  assumes ok: "mem_ok s F D" and D: "to \<in> D" "from \<in> D" "to \<noteq> from" and a: "a < fin" "fin \<le> USERTOP"
    and F: "2 \<le> card F" and fresh: "\<not> present (pte_at s to (PPN a))"
  shows "\<exists>a' s' F'. copy_step to from a s = Some (0, a', s') \<and> a < a' \<and>
    copied s F D to from (PPN a) (PPN a') s' F' \<and> card F \<le> card F' + 2 \<and>
    (a' = a + PGSIZE \<or> a' = ROUNDDOWN (a + PTSIZE) PTSIZE \<and> F' = F \<and> \<not> present (frames s from (PPN a div 1024)))"
proof -
  note la = user_la_less [OF a]
  note v = user_la_PPN [OF la]
  consider "lookup_pte from a s = Some None" "\<not> present (frames s from (PDX a))"
    | e where "lookup_pte from a s = Some (Some e)" "entry_of s from (PPN a) e"
    using lookup_pte_eq [OF mem_okD(3) [OF ok] D(2) la] by blast
  then show ?thesis
  proof cases
    case 1
    have "\<not> present (pte_at s from v)" if "PPN a \<le> v" "v < PPN (ROUNDDOWN (a + PTSIZE) PTSIZE)" for v
      using table_pages [OF that a] 1(2) by (simp add: pte_at_def PPN_PDX)
    then have "copied s F D to from (PPN a) (PPN (ROUNDDOWN (a + PTSIZE) PTSIZE)) s F" by (rule copied_same [OF ok])
    then show ?thesis using 1 next_table(1) [OF a] by (auto simp: copy_step_def PPN_PDX)
  next
    case 2
    note rd = entry_of_rd [OF 2(2)] and np = next_page [OF a]
    show ?thesis
    proof (cases "present (pte_at s from (PPN a))")
      case False
      then have "copied s F D to from (PPN a) (PPN (a + PGSIZE)) s F"
        unfolding np(3) by (intro copied_same [OF ok]) (simp add: less_Suc_eq_le)
      then show ?thesis using 2(1) False np(2) rd by (auto simp: copy_step_def)
    next
      case True
      have "F \<noteq> {}" using F by auto
      then obtain b s1 F1 where g: "get_pte to a True s = Some (Some b, s1)" "entry_of s1 to (PPN a) b"
        "mem_ok s1 F1 D" "grown s F s1 F1 D"
        using get_pte_create [OF ok _ D(1) la] by (auto simp: calm_def)
      have "fst e \<in> tables s D" using 2(2) tablesI [OF D(2) div_UPDES [OF v]] by (auto simp: entry_of_def)
      then have "fst e \<notin> F" "fst e \<notin> D"
        using tables_free [OF mem_okD(3) [OF ok]] tables_okD(6) [OF mem_okD(3) [OF ok]] by (auto simp: tables_def)
      then have rd1: "rd s1 e = pte_at s1 from (PPN a)"
        using g(4) rd D(2) v by (simp add: rd_def grown_def)
      have pte1: "pte_at s1 from (PPN a) = pte_at s from (PPN a)" "pte_at s1 to (PPN a) = pte_at s to (PPN a)"
        using g(4) D v by (simp_all add: grown_def)
      have F1: "card F \<le> Suc (card F1)" "F1 \<noteq> {}" using g(4) F by (auto simp: grown_def)
      have tab: "present (frames s1 to (PDX a))" using g(2) by (simp add: entry_of_def PPN_PDX)
      obtain s2 F2 where c: "copy_page_to to a e s1 = Some (0, s2)"
        "copied s1 F1 D to from (PPN a) (Suc (PPN a)) s2 F2" "card F1 \<le> Suc (card F2)"
        using copy_page_to_ok [OF g(3) D(1,2) a F1(2) tab rd1 _ _ D(3)] True fresh pte1 by auto
      have "copied s F D to from (PPN a) (PPN (a + PGSIZE)) s2 F2"
        unfolding np(3) by (rule grown_copied [OF ok g(3,4) c(2) D(1,2) v])
      moreover have "copy_step to from a s = Some (0, a + PGSIZE, s2)"
        using 2(1) True rd g(1) c(1) by (simp add: copy_step_def)
      ultimately show ?thesis using np(2) F1(1) c(3) by auto
    qed
  qed
qed

lemma copied_shrink:
  assumes c: "copied s F D to from lo hi s' F'" and hi: "hi' \<le> hi"
    and none: "\<And>v. hi' \<le> v \<Longrightarrow> v < hi \<Longrightarrow> \<not> present (pte_at s from v)"
  shows "copied s F D to from lo hi' s' F'"
proof -
  have "pte_at s' pd v = pte_at s pd v" if "pd \<in> D" "v < UPAGES" "\<not> (pd = to \<and> lo \<le> v \<and> v < hi')" for pd v
  proof (cases "pd = to \<and> lo \<le> v \<and> v < hi")
    case True
    then have "copy_at s F s' F' to from v" "\<not> present (pte_at s from v)"
      using c none that unfolding copied_def by auto
    then show ?thesis using True by (simp add: copy_at_def)
  next
    case False
    then show ?thesis using c that unfolding copied_def by blast
  qed
  moreover have "copy_at s F s' F' to from v" if "v < UPAGES" "lo \<le> v" "v < hi'" for v
    using c that hi unfolding copied_def by auto
  ultimately show ?thesis using c unfolding copied_def by simp
qed

lemma copy_range_ok:
  assumes ok: "mem_ok s F D" and D: "to \<in> D" "from \<in> D" "to \<noteq> from" and r: "user_range start fin"
    and fresh: "\<And>v. PPN start \<le> v \<Longrightarrow> v < PPN fin \<Longrightarrow> \<not> present (pte_at s to v)"
    and mem: "2 * (PPN fin - PPN start) \<le> card F"
  shows "\<exists>s' F'. copy_range to from start fin share s = Some (0, s') \<and>
    copied s F D to from (PPN start) (PPN fin) s' F'"
proof -
  note u = user_rangeD [OF r]
  let ?I = "\<lambda>a t. \<exists>F'. start \<le> a \<and> copied s F D to from (PPN start) (PPN a) t F' \<and>
      2 * (PPN fin - PPN a) \<le> card F'"
  have "\<exists>s'. range_loop (copy_step to from) fin start s = Some (0, s') \<and>
      (\<exists>F'. copied s F D to from (PPN start) (PPN fin) s' F')"
  proof (rule range_loop_rule [where I = ?I])
    show "?I start s" using copied_same [OF ok] mem by (intro exI [of _ F]) simp
    show "start < fin" by (rule u(1))
    fix a t assume "?I a t" and a: "a < fin"
    then obtain F1 where c: "start \<le> a" "copied s F D to from (PPN start) (PPN a) t F1"
      "2 * (PPN fin - PPN a) \<le> card F1" by blast
    have ok1: "mem_ok t F1 D" using c(2) by (simp add: copied_def)
    note lt = PPN_less_aligned [OF a u(3)] and v = user_la_PPN [OF user_la_less [OF a u(2)]]
    have "pte_at t to (PPN a) = pte_at s to (PPN a)" using c(2) D(1) v by (simp add: copied_def)
    then have fr: "\<not> present (pte_at t to (PPN a))" using fresh PPN_mono [OF c(1)] lt by simp
    have two: "2 \<le> card F1" using c(3) lt by simp
    obtain a' t' F2 where st: "copy_step to from a t = Some (0, a', t')" "a < a'"
      "copied t F1 D to from (PPN a) (PPN a') t' F2" "card F1 \<le> card F2 + 2"
      "a' = a + PGSIZE \<or> a' = ROUNDDOWN (a + PTSIZE) PTSIZE \<and> F2 = F1 \<and> \<not> present (frames t from (PPN a div 1024))"
      using copy_step_ok [OF ok1 D a u(2) two fr] by blast
    have le: "PPN start \<le> PPN a" "PPN a \<le> PPN a'" using PPN_mono c(1) st(2) by auto
    have tr: "copied s F D to from (PPN start) (PPN a') t' F2" by (rule copied_trans [OF ok c(2) st(3) le D])
    have enough: "2 * (PPN fin - PPN a') \<le> card F2"
      using st(4,5) c(3) le(2) next_page(3) [OF a u(2)] by auto
    have last: "copied s F D to from (PPN start) (PPN fin) t' F2" if f: "fin \<le> a'"
    proof -
      have "copied t F1 D to from (PPN a) (PPN fin) t' F2"
      proof (rule copied_shrink [OF st(3) PPN_mono [OF f]])
        fix v assume v: "PPN fin \<le> v" "v < PPN a'"
        then have "a' \<noteq> a + PGSIZE" using lt next_page(3) [OF a u(2)] by auto
        then have n: "a' = ROUNDDOWN (a + PTSIZE) PTSIZE" "\<not> present (frames t from (PPN a div 1024))"
          using st(5) by auto
        then show "\<not> present (pte_at t from v)"
          using table_pages [OF _ _ a u(2), of v] v lt by (simp add: pte_at_def)
      qed
      then show ?thesis using copied_trans [OF ok c(2) _ le(1) _ D] PPN_mono [of a fin] a by simp
    qed
    show "\<exists>a' t'. copy_step to from a t = Some (0, a', t') \<and> a < a' \<and> (a' < fin \<longrightarrow> ?I a' t') \<and>
        (fin \<le> a' \<longrightarrow> (\<exists>F'. copied s F D to from (PPN start) (PPN fin) t' F'))"
      using st(1,2) tr last enough c(1) by (intro exI [of _ a'] exI [of _ t']) auto
  qed
  then show ?thesis using r by (auto simp: copy_range_def user_range_def)
qed

section \<open>Releasing page tables\<close>

text \<open>
  \<open>exit_range\<close> is called on a range whose pages were unmapped; it gives the tables of the range back.
\<close>

definition released :: "mem_state \<Rightarrow> page_ptr set \<Rightarrow> nat set \<Rightarrow> nat \<Rightarrow> nat \<Rightarrow> nat \<Rightarrow> mem_state \<Rightarrow> page_ptr set \<Rightarrow> bool" where
  "released s F D pd lo hi s' F' \<longleftrightarrow> mem_ok s' F' D \<and> same_ctl s' s \<and>
     F' = F \<union> {PPN (frames s pd i) | i. lo \<le> i \<and> i < hi \<and> present (frames s pd i)} \<and>
     (\<forall>i<UPDES. frames s' pd i = (if lo \<le> i \<and> i < hi \<and> present (frames s pd i) then 0 else frames s pd i)) \<and>
     (\<forall>f. f \<noteq> pd \<longrightarrow> frames s' f = frames s f) \<and> tlb s' = tlb s"

lemma clear_pde_pte:
  assumes t: "tables_ok s F D" and pd: "pd \<in> D" and h: "pd' \<in> D" "v < UPAGES"
  shows "pte_at (wr (pd, i) 0 s) pd' v = (if pd' = pd \<and> v div 1024 = i then 0 else pte_at s pd' v)"
proof -
  have f: "frames (wr (pd, i) 0 s) f k = (if f = pd \<and> k = i then 0 else frames s f k)" for f k
    by (simp add: wr_def)
  have "PPN (frames s pd' (v div 1024)) \<noteq> pd" if "present (frames s pd' (v div 1024))"
    using tables_okD(6) [OF t h(1) div_UPDES [OF h(2)] that] pd by auto
  then show ?thesis by (auto simp: pte_at_def f)
qed

lemma free_table_ok:
  assumes ok: "mem_ok s F D" and pd: "pd \<in> D" and i: "i < UPDES" and pr: "present (frames s pd i)"
    and none: "\<And>v. v div 1024 = i \<Longrightarrow> \<not> present (pte_at s pd v)"
    and r: "pmm_rep fa (insert (PPN (frames s pd i)) F)"
    and sp: "\<And>x. same_page (pages fa x)
       (if x = PPN (frames s pd i) then (page_of s x)\<lparr>page_ref := 0\<rparr> else page_of s x)"
  shows "mem_ok (wr (pd, i) 0 (s\<lparr>farea := fa\<rparr>)) (insert (PPN (frames s pd i)) F) D"
proof -
  let ?t = "PPN (frames s pd i)" and ?s = "wr (pd, i) 0 (s\<lparr>farea := fa\<rparr>)"
  note t = mem_okD(3) [OF ok] and m = mem_okD(4) [OF ok]
  have f: "frames ?s f k = (if f = pd \<and> k = i then 0 else frames s f k)" for f k by (simp add: wr_def)
  have res: "PageReserved (page_of ?s x) = PageReserved (page_of s x)" for x
    using sp [of x] by (auto simp: same_page_def page_of_def split: if_splits)
  have ref: "page_ref (page_of (s\<lparr>farea := fa\<rparr>) x) = (if x = ?t then 0 else page_ref (page_of s x))" for x
    using sp [of x] by (auto simp: same_page_def page_of_def split: if_splits)
  have tt: "?t \<in> tables s D" by (rule tablesI [OF pd i pr])
  have t2: "tables_ok ?s (insert ?t F) D"
    unfolding tables_ok_def res
  proof (intro conjI ballI allI impI)
    fix q k assume h: "q \<in> D" "k < UPDES" "present (frames ?s q k)"
    then have h': "present (frames s q k)" "(q, k) \<noteq> (pd, i)" "frames ?s q k = frames s q k"
      by (auto simp: f split: if_splits)
    have "PPN (frames s q k) \<noteq> ?t" using tables_ok_inj [OF t h(1) pd h(2) i h'(1) pr] h'(2) by blast
    then show "PPN (frames ?s q k) < npage ?s" "PPN (frames ?s q k) \<notin> insert ?t F \<union> D"
      "\<not> PageReserved (page_of s (PPN (frames ?s q k)))"
      using tables_okD(4-7) [OF t h(1,2) h'(1)] h'(3) by auto
  next
    fix q q' k k'
    assume h: "q \<in> D" "q' \<in> D" "k < UPDES" "k' < UPDES" "present (frames ?s q k)" "present (frames ?s q' k')"
      "PPN (frames ?s q k) = PPN (frames ?s q' k')"
    then have "present (frames s q k)" "present (frames s q' k')" "PPN (frames s q k) = PPN (frames s q' k')"
      by (auto simp: f split: if_splits)
    then show "q = q'" "k = k'" using tables_ok_inj [OF t h(1-4)] by blast+
  qed (use tables_okD(1-3,6) [OF t] pd i pr in auto)
  have t1: "tables_ok (s\<lparr>farea := fa\<rparr>) F D" using t res by (auto simp: tables_ok_def page_of_def)
  have pte: "mapped ?s pd' v p \<longleftrightarrow> mapped s pd' v p" if "pd' \<in> D" "v < UPAGES" for pd' v p
    using clear_pde_pte [OF t1 pd that] none by (auto simp: mapped_def)
  have us: "use_set ?s D p = use_set s D p" for p using pte by (auto simp: use_set_def)
  have tsub: "tables ?s D \<subseteq> tables s D" by (auto simp: tables_def f split: if_splits)
  have "maps_ok ?s (insert ?t F) D"
    unfolding maps_ok_def us res
  proof (intro ballI allI impI)
    fix pd' v p assume h: "pd' \<in> D" "v < UPAGES" "mapped ?s pd' v p"
    then have "mapped s pd' v p" using pte by simp
    note mp = maps_okD [OF m h(1,2) this]
    then show "p < npage ?s \<and> p \<notin> insert ?t F \<union> D \<union> tables ?s D \<and> \<not> PageReserved (page_of s p) \<and>
        int (card (use_set s D p)) \<le> page_ref (page_of ?s p)"
      using tt tsub by (auto simp: ref)
  qed
  then show ?thesis
    using r t2 mem_okD(2,5,6,7) [OF ok] tables_okD(4,7) [OF t pd i pr] 
    by (auto simp: mem_ok_def ref) (use res in \<open>auto simp: page_of_def\<close>)
qed

definition released_tables :: "mem_state \<Rightarrow> nat \<Rightarrow> nat \<Rightarrow> nat \<Rightarrow> page_ptr set" where
  "released_tables s pd lo hi = {PPN (frames s pd i) | i. lo \<le> i \<and> i < hi \<and> present (frames s pd i)}"

lemma released_eq:
  "released s F D pd lo hi s' F' \<longleftrightarrow> mem_ok s' F' D \<and> same_ctl s' s \<and> F' = F \<union> released_tables s pd lo hi \<and>
     (\<forall>i<UPDES. frames s' pd i = (if lo \<le> i \<and> i < hi \<and> present (frames s pd i) then 0 else frames s pd i)) \<and>
     (\<forall>f. f \<noteq> pd \<longrightarrow> frames s' f = frames s f) \<and> tlb s' = tlb s"
  by (simp add: released_def released_tables_def)

lemma exit_step_ok:
  assumes ok: "mem_ok s F D" and pd: "pd \<in> D" and i: "PDX a < UPDES"
    and none: "\<And>v. v div 1024 = PDX a \<Longrightarrow> \<not> present (pte_at s pd v)"
  shows "\<exists>s' F'. exit_step pd a s = Some (0, a + PTSIZE, s') \<and> released s F D pd (PDX a) (Suc (PDX a)) s' F'"
proof (cases "present (frames s pd (PDX a))")
  case True
  note t = tables_okD [OF mem_okD(3) [OF ok]]
  obtain fa where fa: "free_pages (PPN (frames s pd (PDX a))) 1 s = Some (s\<lparr>farea := fa\<rparr>)"
    "pmm_rep fa (insert (PPN (frames s pd (PDX a))) F)"
    "\<And>x. same_page (pages fa x)
       (if x = PPN (frames s pd (PDX a)) then (page_of s x)\<lparr>page_ref := 0\<rparr> else page_of s x)"
    using free_page_rep [OF mem_okD(1) [OF ok] t(5,7) [OF pd i True]] by blast
  let ?s = "wr (pd, PDX a) 0 (s\<lparr>farea := fa\<rparr>)"
  have "exit_step pd a s = Some (0, a + PTSIZE, ?s)"
    using True fa(1) t(4) [OF pd i True] by (simp add: exit_step_def rd_def pde2page_def pa2page_def)
  moreover have "mem_ok ?s (insert (PPN (frames s pd (PDX a))) F) D"
    by (rule free_table_ok [OF ok pd i True none fa(2,3)])
  moreover have "same_ctl ?s s"
  proof -
    have "PageReserved (pages fa x) = PageReserved (page_of s x)" for x
      using fa(3) [of x] by (auto simp: same_page_def split: if_splits)
    then show ?thesis by (simp add: same_ctl_def page_of_def)
  qed
  moreover have "i = PDX a" if "PDX a \<le> i" "i < Suc (PDX a)" for i using that by simp
  then have "released_tables s pd (PDX a) (Suc (PDX a)) = {PPN (frames s pd (PDX a))}"
    using True unfolding released_tables_def by (auto, metis le_refl lessI)
  ultimately show ?thesis
    using True by (intro exI [of _ ?s] exI [of _ "insert (PPN (frames s pd (PDX a))) F"])
      (auto simp: released_eq wr_def)
next
  case False
  then have "\<not> (PDX a \<le> i \<and> i < Suc (PDX a) \<and> present (frames s pd i))" for i
    by (metis le_antisym less_Suc_eq_le)
  then have "released_tables s pd (PDX a) (Suc (PDX a)) = {}" "released s F D pd (PDX a) (Suc (PDX a)) s F"
    using ok by (auto simp: released_def released_tables_def)
  then show ?thesis using False by (simp add: exit_step_def rd_def) blast
qed

lemma released_trans:
  assumes 1: "released s F D pd lo mid s1 F1" and 2: "released s1 F1 D pd mid hi s2 F2"
    and le: "lo \<le> mid" "mid \<le> hi" "hi \<le> UPDES"
  shows "released s F D pd lo hi s2 F2"
proof -
  have f1: "frames s1 pd i = (if lo \<le> i \<and> i < mid \<and> present (frames s pd i) then 0 else frames s pd i)"
    if "i < UPDES" for i using 1 that by (simp add: released_def)
  have f2: "frames s2 pd i = (if mid \<le> i \<and> i < hi \<and> present (frames s1 pd i) then 0 else frames s1 pd i)"
    if "i < UPDES" for i using 2 that by (simp add: released_def)
  have "frames s2 pd i = (if lo \<le> i \<and> i < hi \<and> present (frames s pd i) then 0 else frames s pd i)"
    if "i < UPDES" for i using f1 [OF that] f2 [OF that] le by auto
  moreover have "released_tables s1 pd mid hi = released_tables s pd mid hi"
  proof -
    have "frames s1 pd i = frames s pd i" if "mid \<le> i" "i < hi" for i using f1 [of i] that le by simp
    then show ?thesis unfolding released_tables_def by (metis (no_types, lifting))
  qed
  moreover have "released_tables s pd lo hi = released_tables s pd lo mid \<union> released_tables s pd mid hi"
  proof -
    have "(lo \<le> i \<and> i < hi) \<longleftrightarrow> (lo \<le> i \<and> i < mid \<or> mid \<le> i \<and> i < hi)" for i using le by auto
    then have "(lo \<le> i \<and> i < hi \<and> P) \<longleftrightarrow> (lo \<le> i \<and> i < mid \<and> P \<or> mid \<le> i \<and> i < hi \<and> P)" for i P by blast
    then show ?thesis unfolding released_tables_def by (simp add: conj_disj_distribL ex_disj_distrib Collect_disj_eq)
  qed
  moreover have "same_ctl s2 s" using 1 2 same_ctl_trans unfolding released_def by blast
  ultimately show ?thesis using 1 2 by (auto simp: released_eq)
qed

lemma next_pde:
  assumes "a < fin" "fin \<le> USERTOP"
  shows "a < a + PTSIZE" "PDX (a + PTSIZE) = Suc (PDX a)" "PPN (a + PTSIZE) = PPN a + 1024"
proof -
  have pt: "unat PTSIZE = 4194304" by (simp add: PTSIZE_def PGSIZE_def NPTEENTRY_def)
  have u: "unat (a + PTSIZE) = unat a + 4194304"
    using unat_less_USERTOP [OF assms] pt by (subst unat_add_lem [THEN iffD1]) simp_all
  then show "a < a + PTSIZE" by (simp add: word_less_nat_alt)
  show "PPN (a + PTSIZE) = PPN a + 1024" by (simp add: PPN_eq u)
  then show "PDX (a + PTSIZE) = Suc (PDX a)" by (simp add: PDX_eq)
qed

lemma PPN_ROUNDDOWN_PTSIZE: "PPN (ROUNDDOWN a PTSIZE) = 1024 * PDX a"
proof -
  have pt: "unat PTSIZE = 4194304" by (simp add: PTSIZE_def PGSIZE_def NPTEENTRY_def)
  have "unat (ROUNDDOWN a PTSIZE) = 4194304 * (unat a div 4194304)"
    by (simp add: unat_ROUNDDOWN pt minus_mod_eq_mult_div)
  then show ?thesis by (simp add: PPN_eq PDX_eq div_mult2_eq [symmetric])
qed

text \<open>The directory entries that cover the pages \<open>[start, fin)\<close>.\<close>

definition pde_end :: "u32 \<Rightarrow> nat" where
  "pde_end fin = (PPN fin + 1023) div 1024"

lemma exit_range_ok:
  assumes ok: "mem_ok s F D" and pd: "pd \<in> D" and r: "user_range start fin"
    and none: "\<And>v. v < UPAGES \<Longrightarrow> \<not> present (pte_at s pd v)"
  shows "\<exists>s' F'. exit_range pd start fin s = Some s' \<and> released s F D pd (PDX start) (pde_end fin) s' F'"
proof -
  note u = user_rangeD [OF r]
  let ?I = "\<lambda>a t. \<exists>F'. PPN a = 1024 * PDX a \<and> PDX start \<le> PDX a \<and> released s F D pd (PDX start) (PDX a) t F'"
  let ?st = "ROUNDDOWN start PTSIZE"
  have st: "?st \<le> start" by (rule ROUNDDOWN_le)
  have px: "PDX ?st = PDX start" using PPN_ROUNDDOWN_PTSIZE [of start] by (simp add: PDX_eq)
  have upt: "PPN fin \<le> UPAGES" using PPN_mono [OF u(2)] by (simp add: UPAGES_def USERTOP_def PPN_eq)
  have "\<exists>s'. range_loop (exit_step pd) fin ?st s = Some (0, s') \<and>
      (\<exists>F'. released s F D pd (PDX start) (pde_end fin) s' F')"
  proof (rule range_loop_rule [where I = ?I])
    have "released s F D pd (PDX start) (PDX start) s F" using ok by (auto simp: released_def)
    then show "?I ?st s" using px PPN_ROUNDDOWN_PTSIZE [of start] by auto
    show "?st < fin" using st u(1) by simp
    fix a t assume "?I a t" and a: "a < fin"
    then obtain F1 where c: "PPN a = 1024 * PDX a" "PDX start \<le> PDX a" "released s F D pd (PDX start) (PDX a) t F1"
      by blast
    have ok1: "mem_ok t F1 D" using c(3) by (metis released_def)
    have lt: "PPN a < PPN fin" by (rule PPN_less_aligned [OF a u(3)])
    have i: "PDX a < UPDES" using lt upt c(1) by (simp add: UPAGES_def UPDES_def)
    have "\<not> present (pte_at t pd v)" if "v div 1024 = PDX a" for v
    proof -
      have v: "v < UPAGES" using that i by (simp add: UPAGES_def UPDES_def)
      have "frames t pd (v div 1024) = frames s pd (v div 1024)"
        using c(3) i that by (simp add: released_def)
      moreover have "frames t f = frames s f" if "f \<noteq> pd" for f using c(3) that by (simp add: released_def)
      moreover have "PPN (frames s pd (v div 1024)) \<noteq> pd" if "present (frames s pd (v div 1024))"
        using tables_okD(6) [OF mem_okD(3) [OF ok] pd div_UPDES [OF v] that] pd by auto
      ultimately show ?thesis using none [OF v] by (auto simp: pte_at_def)
    qed
    then obtain t' F2 where e: "exit_step pd a t = Some (0, a + PTSIZE, t')"
      "released t F1 D pd (PDX a) (Suc (PDX a)) t' F2"
      using exit_step_ok [OF ok1 pd i] by blast
    note nx = next_pde [OF a u(2)]
    have tr: "released s F D pd (PDX start) (PDX (a + PTSIZE)) t' F2"
      unfolding nx(2) by (rule released_trans [OF c(3) e(2) c(2)]) (use i in auto)
    have "pde_end fin = PDX (a + PTSIZE)" if "fin \<le> a + PTSIZE"
      using PPN_mono [OF that] lt c(1) unfolding pde_end_def nx(2,3) by linarith
    then show "\<exists>a' t'. exit_step pd a t = Some (0, a', t') \<and> a < a' \<and> (a' < fin \<longrightarrow> ?I a' t') \<and>
        (fin \<le> a' \<longrightarrow> (\<exists>F'. released s F D pd (PDX start) (pde_end fin) t' F'))"
      using e(1) nx tr c(1,2) by (intro exI [of _ "a + PTSIZE"] exI [of _ t']) auto
  qed
  then show ?thesis using r by (auto simp: exit_range_def user_range_def)
qed

section \<open>An example\<close>

text \<open>
  Ten pages: 0 to 2 and 4 to 6 are free, 3 and 7 hold directories, 8 is a table of directory 7 and maps
  page 9 at address 0x800000.
\<close>

definition ex_mem :: mem_state where
  "ex_mem = \<lparr>farea = ex_area\<lparr>pages := (\<lambda>p. (pages ex_area p)\<lparr>page_ref := (if p \<in> {3, 7, 8, 9} then 1 else 0)\<rparr>)\<rparr>,
     npage = 10,
     frames = (\<lambda>f i. if f = 7 \<and> i = 2 then 0x8007 else if f = 8 \<and> i = 0 then 0x9007
                     else if f = 9 then of_nat i else 0),
     cr3_reg = 0x7000, tlb = (\<lambda>v. None), mms = (\<lambda>m. undefined), check_mm_struct = None, pgfault_num = 0,
     swap_init_ok = False, max_swap_offset = 0, pra_list = [], swap_disk = (\<lambda>n i. 0), ide_ops = 0,
     ide_xfer = (\<lambda>k src dst. (0, src)), slobs = (\<lambda>a. \<lparr>slob_units = 1, slob_next = 4096\<rparr>), slobfree = 4096,
     arena = 4096, bigblocks = []\<rparr>"

abbreviation ex_free :: "page_ptr set" where
  "ex_free \<equiv> {0, 1, 2, 4, 5, 6}"

lemma ex_mem_sel [simp]:
  "npage ex_mem = 10" "swap_init_ok ex_mem = False" "cr3_reg ex_mem = 0x7000" "tlb ex_mem v = None"
  "frames ex_mem f i = (if f = 7 \<and> i = 2 then 0x8007 else if f = 8 \<and> i = 0 then 0x9007
                        else if f = 9 then of_nat i else 0)"
  by (simp_all add: ex_mem_def)

lemma ex_entries [simp]: "present 0x8007" "present 0x9007" "PPN 0x8007 = 8" "PPN 0x9007 = 9"
  by (simp_all add: present_def PTE_P_def PPN_eq)

lemma ex_mem_pte:
  "pd \<in> {3, 7} \<Longrightarrow> pte_at ex_mem pd v = (if pd = 7 \<and> v = 2048 then 0x9007 else 0)"
proof -
  have "v = 2048" if "v div 1024 = 2" "v mod 1024 = 0" for v :: nat
    using div_mult_mod_eq [of v 1024] that by simp
  then show "pd \<in> {3, 7} \<Longrightarrow> pte_at ex_mem pd v = (if pd = 7 \<and> v = 2048 then 0x9007 else 0)"
    by (auto simp: pte_at_def)
qed

lemma ex_mem_ok: "mem_ok ex_mem ex_free {3, 7}"
proof -
  have pg: "page_of ex_mem p = (pages ex_area p)\<lparr>page_ref := (if p \<in> {3, 7, 8, 9} then 1 else 0)\<rparr>" for p
    by (simp add: page_of_def ex_mem_def)
  have res: "\<not> PageReserved (page_of ex_mem p)" for p
    by (simp add: pg) (simp add: ex_area_def PageReserved_def PG_reserved_def test_bit_nr_def)
  have "prop_of (pages (farea ex_mem)) = prop_of (pages ex_area)" "free_list (farea ex_mem) = free_list ex_area"
    "nr_free (farea ex_mem) = nr_free ex_area"
    "\<And>x. PageProperty (pages (farea ex_mem) x) = PageProperty (pages ex_area x)"
    by (simp_all add: ex_mem_def prop_of_def fun_eq_iff)
  then have rep: "pmm_rep (farea ex_mem) ex_free" using ex_area_rep by (simp add: pmm_rep_def)
  have tab: "tables ex_mem {3, 7} = {8}"
  proof
    show "tables ex_mem {3, 7} \<subseteq> {8}" by (auto simp: tables_def split: if_splits)
    show "{8} \<subseteq> tables ex_mem {3, 7}" using tablesI [of 7 "{3, 7}" 2 ex_mem] by (simp add: UPDES_def)
  qed
  have us: "use_set ex_mem {3, 7} 9 = {(7, 2048)}"
    by (auto simp: use_set_def mapped_def ex_mem_pte UPAGES_def split: if_splits)
  have "tables_ok ex_mem ex_free {3, 7}"
    using res unfolding tables_ok_def by (auto split: if_splits)
  moreover have "maps_ok ex_mem ex_free {3, 7}"
    using res unfolding maps_ok_def tab
    by (auto simp: mapped_def ex_mem_pte us pg split: if_splits)
  ultimately show ?thesis using rep res by (auto simp: mem_ok_def pg)
qed

lemma ex_calm: "calm ex_mem ex_free"
  by (simp add: calm_def)

lemma ex_data_page: "data_page ex_mem ex_free {3, 7} 9"
proof -
  have "mapped ex_mem 7 2048 9" by (simp add: mapped_def ex_mem_pte)
  then show ?thesis using maps_okD [OF mem_okD(4) [OF ex_mem_ok], of 7 2048 9]
    by (simp add: data_page_def UPAGES_def)
qed

section \<open>Properties\<close>


lemma ex_page_ref: "page_ref (page_of ex_mem p) = (if p \<in> {3, 7, 8, 9} then 1 else 0)"
  by (simp add: ex_mem_def page_of_def)

lemma ex_data_page_3: "data_page ex_mem ex_free {7} 3"
proof -
  have "tables ex_mem {7} \<subseteq> {8}" "use_set ex_mem {7} 3 = {}"
    by (auto simp: tables_def use_set_def mapped_def ex_mem_pte split: if_splits)
  moreover have "\<not> PageReserved (page_of ex_mem 3)"
    by (simp add: ex_mem_def page_of_def ex_area_def PageReserved_def PG_reserved_def test_bit_nr_def)
  ultimately show ?thesis by (auto simp: data_page_def ex_page_ref)
qed

lemma mem_ok_fewer:
  assumes ok: "mem_ok s F D" and D: "D' \<subseteq> D"
  shows "mem_ok s F D'"
proof -
  note t = mem_okD(3) [OF ok] and m = mem_okD(4) [OF ok]
  have "finite D'" using tables_okD(1) [OF t] D by (rule rev_finite_subset)
  then have "tables_ok s F D'" using t D unfolding tables_ok_def by blast
  moreover have "maps_ok s F D'"
    unfolding maps_ok_def
  proof (intro ballI allI impI)
    fix pd v p assume h: "pd \<in> D'" "v < UPAGES" "mapped s pd v p"
    then have q: "pd \<in> D" using D by blast
    have "card (use_set s D' p) \<le> card (use_set s D p)"
      by (rule card_mono [OF finite_use_set [OF tables_okD(1) [OF t]]]) (use D in \<open>auto simp: use_set_def\<close>)
    moreover have "tables s D' \<subseteq> tables s D" using D by (auto simp: tables_def)
    ultimately show "p < npage s \<and> p \<notin> F \<union> D' \<union> tables s D' \<and> \<not> PageReserved (page_of s p) \<and>
        int (card (use_set s D' p)) \<le> page_ref (page_of s p)"
      using maps_okD [OF m q h(2,3)] D by auto
  qed
  ultimately show ?thesis using ok by (simp add: mem_ok_def)
qed


text \<open>
  C18: \<open>unmap_range\<close> always ends and removes exactly the mappings of its range: those pages are no longer
  present and every other entry of every address space is as before.  The count of each page drops by
  the number of its mappings in the range; the pages that become free are exactly those mapped in the
  range that have no other use; no stale translation stays in the TLB.
\<close>

theorem unmap_range_clears:
  assumes "mem_ok s F D" "pd \<in> D" "user_range start fin"
  shows "\<exists>s'. unmap_range pd start fin s = Some s' \<and>
    (let n = (\<lambda>x. card {v. PPN start \<le> v \<and> v < PPN fin \<and> mapped s pd v x}) in
     mem_ok s' (F \<union> {x. 0 < n x \<and> page_ref (page_of s x) = int (n x)}) D \<and>
     (\<forall>x. page_ref (page_of s' x) = page_ref (page_of s x) - int (n x))) \<and>
    (\<forall>pd'\<in>D. \<forall>v<UPAGES. pte_at s' pd' v =
       (if pd' = pd \<and> PPN start \<le> v \<and> v < PPN fin \<and> present (pte_at s pd v) then 0 else pte_at s pd' v)) \<and>
    (tlb_ok s D \<longrightarrow> tlb_ok s' D)"
proof -
  let ?n = "\<lambda>x. card (uses s pd (PPN start) (PPN fin) x)"
  obtain s' F' where run: "unmap_range pd start fin s = Some s'"
    and c: "cleared s F D pd (PPN start) (PPN fin) s' F'" using unmap_range_ok [OF assms] by blast
  have "F' = F \<union> {x. uses s pd (PPN start) (PPN fin) x \<noteq> {} \<and> page_ref (page_of s' x) = 0}"
    and r: "\<forall>x. page_ref (page_of s' x) = page_ref (page_of s x) - int (?n x)"
    using c unfolding cleared_def by blast+
  moreover have "(uses s pd (PPN start) (PPN fin) x \<noteq> {}) = (0 < ?n x)" for x
    by (simp add: uses_def card_gt_0_iff)
  ultimately have "F' = F \<union> {x. 0 < ?n x \<and> page_ref (page_of s x) = int (?n x)}" by simp
  then show ?thesis using run r c unfolding cleared_def uses_def Let_def by blast
qed

lemma ex_range: "user_range 0x800000 0x801000" "PPN 0x800000 = 2048" "PPN 0x801000 = 2049" "PDX 0x800000 = 2"
  by (simp_all add: user_range_def USER_ACCESS_def USERBASE_def USERTOP_def PGSIZE_def PPN_eq PDX_eq)

theorem unmap_range_clears_witness:
  "\<exists>s'. unmap_range 7 0x800000 0x801000 ex_mem = Some s' \<and> pte_at s' 7 2048 = 0 \<and>
     page_ref (page_of s' 9) = 0 \<and> mem_ok s' (insert 9 ex_free) {3, 7}"
proof -
  have "{v. 2048 \<le> v \<and> v < 2049 \<and> mapped ex_mem 7 v x} = (if x = 9 then {2048} else {})" for x
    by (auto simp: mapped_def ex_mem_pte)
  then have n: "card {v. 2048 \<le> v \<and> v < 2049 \<and> mapped ex_mem 7 v x} = (if x = 9 then 1 else 0)" for x by simp
  have F: "ex_free \<union> {x. 0 < (if x = 9 then 1 else 0 :: nat) \<and> page_ref (page_of ex_mem x) = int (if x = 9 then 1 else 0)} =
      insert 9 ex_free"
    by (auto simp: ex_page_ref split: if_splits)
  obtain s' where s': "unmap_range 7 0x800000 0x801000 ex_mem = Some s'" "mem_ok s' (insert 9 ex_free) {3, 7}"
    "\<forall>x. page_ref (page_of s' x) = page_ref (page_of ex_mem x) - int (if x = 9 then 1 else 0)"
    "\<forall>v<UPAGES. pte_at s' 7 v = (if 2048 \<le> v \<and> v < 2049 \<and> present (pte_at ex_mem 7 v) then 0 else pte_at ex_mem 7 v)"
    using unmap_range_clears [OF ex_mem_ok _ ex_range(1), of 7] unfolding ex_range Let_def n F by auto
  then show ?thesis by (simp add: ex_mem_pte UPAGES_def ex_page_ref)
qed

text \<open>
  C19: \<open>copy_range\<close> copies an address range.  With enough free memory it returns 0; every page mapped in
  the source range is then mapped in the target at the same address with the same user permissions, in
  a page that was free and that has the same contents; pages not mapped in the source are left as they
  were; no other entry of any address space changes.
\<close>

theorem copy_range_copies:
  assumes "mem_ok s F D" "to \<in> D" "from \<in> D" "to \<noteq> from" "user_range start fin"
    and "\<And>v. PPN start \<le> v \<Longrightarrow> v < PPN fin \<Longrightarrow> \<not> present (pte_at s to v)"
    and "2 * (PPN fin - PPN start) \<le> card F"
  shows "\<exists>s' F'. copy_range to from start fin share s = Some (0, s') \<and> mem_ok s' F' D \<and> F' \<subseteq> F \<and>
    (\<forall>v<UPAGES. PPN start \<le> v \<longrightarrow> v < PPN fin \<longrightarrow> copy_at s F s' F' to from v) \<and>
    (\<forall>pd\<in>D. \<forall>v<UPAGES. \<not> (pd = to \<and> PPN start \<le> v \<and> v < PPN fin) \<longrightarrow> pte_at s' pd v = pte_at s pd v) \<and>
    (\<forall>f. f \<notin> F \<union> D \<union> tables s D \<longrightarrow> frames s' f = frames s f)"
  using copy_range_ok [OF assms, of share] unfolding copied_def by blast

theorem copy_range_copies_witness:
  "\<exists>s' q. copy_range 3 7 0x800000 0x801000 False ex_mem = Some (0, s') \<and>
     pte_at s' 3 2048 = page2pa q OR PTE_P OR (0x9007 AND PTE_USER) \<and> frames s' q 5 = 5 \<and> q \<in> ex_free"
proof -
  obtain s' F' where h: "copy_range 3 7 0x800000 0x801000 False ex_mem = Some (0, s')"
    "\<forall>v<UPAGES. 2048 \<le> v \<longrightarrow> v < 2049 \<longrightarrow> copy_at ex_mem ex_free s' F' 3 7 v"
    using copy_range_copies [OF ex_mem_ok _ _ _ ex_range(1), of 3 7 False]
    by (auto simp: ex_mem_pte ex_range)
  then have "copy_at ex_mem ex_free s' F' 3 7 2048" by (simp add: UPAGES_def)
  then obtain q where "q \<in> ex_free - F'" "pte_at s' 3 2048 = page2pa q OR PTE_P OR (0x9007 AND PTE_USER)"
    "frames s' q = frames ex_mem 9"
    by (auto simp: copy_at_def ex_mem_pte)
  then show ?thesis using h(1) by (intro exI [of _ s'] exI [of _ q]) simp
qed

text \<open>
  C20: \<open>exit_range\<close>, called once nothing is mapped any more, gives exactly the page tables that cover the
  range back to the allocator and clears their directory entries.
\<close>

theorem exit_range_releases:
  assumes "mem_ok s F D" "pd \<in> D" "user_range start fin" "\<And>v. v < UPAGES \<Longrightarrow> \<not> present (pte_at s pd v)"
  shows "\<exists>s'. exit_range pd start fin s = Some s' \<and>
    mem_ok s' (F \<union> released_tables s pd (PDX start) (pde_end fin)) D \<and>
    (\<forall>i<UPDES. frames s' pd i =
       (if PDX start \<le> i \<and> i < pde_end fin \<and> present (frames s pd i) then 0 else frames s pd i)) \<and>
    (\<forall>f. f \<noteq> pd \<longrightarrow> frames s' f = frames s f)"
  using exit_range_ok [OF assms] unfolding released_eq by auto

theorem exit_range_releases_witness:
  "\<exists>s s'. unmap_range 7 0x800000 0x801000 ex_mem = Some s \<and> exit_range 7 0x800000 0x801000 s = Some s' \<and>
     frames s' 7 2 = 0 \<and> mem_ok s' (insert 8 (insert 9 ex_free)) {3, 7}"
proof -
  obtain s F where s: "unmap_range 7 0x800000 0x801000 ex_mem = Some s" "cleared ex_mem ex_free {3, 7} 7 2048 2049 s F"
    using unmap_range_ok [OF ex_mem_ok _ ex_range(1), of 7] by (auto simp: ex_range)
  have ok: "mem_ok s F {3, 7}" and fr: "frames s 7 = frames ex_mem 7"
    and F: "F = ex_free \<union> {x. uses ex_mem 7 2048 2049 x \<noteq> {} \<and> page_ref (page_of s x) = 0}"
    and r: "\<forall>x. page_ref (page_of s x) = page_ref (page_of ex_mem x) - int (card (uses ex_mem 7 2048 2049 x))"
    and pte: "\<forall>v<UPAGES. pte_at s 7 v = (if 2048 \<le> v \<and> v < 2049 \<and> present (pte_at ex_mem 7 v) then 0 else pte_at ex_mem 7 v)"
    using s(2) unfolding cleared_def by (blast, blast, blast, blast, auto)
  have "uses ex_mem 7 2048 2049 x = (if x = 9 then {2048} else {})" for x by (auto simp: uses_def mapped_def ex_mem_pte)
  then have "F = insert 9 ex_free" using r by (auto simp: F ex_page_ref split: if_splits)
  moreover have pe: "pde_end 0x801000 = 3" by (simp add: pde_end_def PPN_eq)
  moreover have "released_tables s 7 2 3 = {8}"
    using fr by (auto simp: released_tables_def split: if_splits)
  moreover have "\<not> present (pte_at s 7 v)" if "v < UPAGES" for v using pte that by (simp add: ex_mem_pte)
  ultimately show ?thesis
    using exit_range_releases [OF ok _ ex_range(1), of 7] s(1) fr by (auto simp: ex_range UPDES_def pe)
qed

text \<open>
  C21: When memory runs out while swapping is on but no address space is being checked, \<open>alloc_pages\<close>
  does not return \<open>NULL\<close>: the allocator has no page, \<open>swap_out\<close> is called with the null pointer
  \<open>check_mm_struct\<close>, and the first thing its choice of a victim does is to dereference it, so the kernel
  stops in \<open>swap_out\<close>.  The null pointer is the only reason: given an address space whose list of pages
  is set up and not empty, the same choice succeeds in the same state.
\<close>

theorem alloc_pages_exhausted:
  assumes "pmm_rep (farea s) {}" "swap_init_ok s" "check_mm_struct s = None"
  shows "default_alloc_pages 1 (farea s) = Some (None, farea s) \<and>
    fifo_swap_out_victim (check_mm_struct s) False s = None \<and> swap_out (check_mm_struct s) 1 False s = None \<and>
    (\<forall>m. sm_priv (mms s m) \<and> pra_list s \<noteq> [] \<longrightarrow>
       fifo_swap_out_victim (Some m) False s =
         Some (0, last (pra_list s), s\<lparr>pra_list := seq_del (last (pra_list s)) (pra_list s)\<rparr>)) \<and>
    alloc_pages 1 s = None"
proof -
  have a: "pmm_alloc_pages default_pmm_manager 1 (farea s) = Some (None, farea s)"
    using default_pmm.alloc_law [OF assms(1), of 1] by (fastforce split: option.splits)
  moreover have v: "fifo_swap_out_victim (check_mm_struct s) False s = None"
    using assms(3) by (simp add: fifo_swap_out_victim_def)
  moreover from v have o: "swap_out (check_mm_struct s) 1 False s = None"
    by (simp add: swap_out_def swap_manager_fifo_def)
  moreover from a o have "alloc_pages 1 s = None"
    using assms(2) by (subst alloc_pages.simps) simp
  ultimately show ?thesis by (simp add: default_pmm_manager_def fifo_swap_out_victim_def Let_def)
qed

theorem alloc_pages_exhausted_witness:
  "let s = ex_mem\<lparr>farea := default_init ex_area\<lparr>pages := (\<lambda>p. (pages ex_area p)\<lparr>page_flags := 0\<rparr>)\<rparr>,
     swap_init_ok := True\<rparr> in swap_out (check_mm_struct s) 1 False s = None \<and> alloc_pages 1 s = None"
proof -
  have "pmm_rep (default_init ex_area\<lparr>pages := (\<lambda>p. (pages ex_area p)\<lparr>page_flags := 0\<rparr>)\<rparr>) {}"
    by (simp add: pmm_rep_def blocks_def default_init_def)
  then show ?thesis unfolding Let_def by (intro conjI alloc_pages_exhausted [THEN conjunct2, THEN conjunct2, THEN conjunct1]
    alloc_pages_exhausted [THEN conjunct2, THEN conjunct2, THEN conjunct2, THEN conjunct2]) (simp_all add: ex_mem_def)
qed

end
