(* ===== verification/Kmalloc.thy ===== *)
theory Kmalloc
  imports Pgrange
begin

text \<open>
  The kernel heap of kern/mm/kmalloc.c: a circular list of free blocks ordered by address, first fit
  from a roving pointer, with large requests served by whole pages.  The headers of the blocks live in
  the store \<open>slobs\<close>, indexed by the address of the block in units of 8 bytes; the header of an
  allocated block keeps its size.  A null pointer is \<open>None\<close>.
\<close>

section \<open>The operations\<close>

definition SLOB_UNIT :: nat where "SLOB_UNIT = 8"
definition PAGE_SIZE :: nat where "PAGE_SIZE = 4096"

definition SLOB_UNITS :: "nat \<Rightarrow> nat" where
  "SLOB_UNITS sz = (sz + SLOB_UNIT - 1) div SLOB_UNIT"

definition sizeof_bigblock :: nat where "sizeof_bigblock = 12"

definition upd_slob :: "nat \<Rightarrow> (slob_block \<Rightarrow> slob_block) \<Rightarrow> mem_state \<Rightarrow> mem_state" where
  "upd_slob a f s = s\<lparr>slobs := (slobs s)(a := f (slobs s a))\<rparr>"

definition set_units :: "nat \<Rightarrow> int \<Rightarrow> mem_state \<Rightarrow> mem_state" where
  "set_units a u = upd_slob a (\<lambda>b. b\<lparr>slob_units := u\<rparr>)"

definition set_next :: "nat \<Rightarrow> nat \<Rightarrow> mem_state \<Rightarrow> mem_state" where
  "set_next a n = upd_slob a (\<lambda>b. b\<lparr>slob_next := n\<rparr>)"

abbreviation units_of :: "mem_state \<Rightarrow> nat \<Rightarrow> int" where
  "units_of s a \<equiv> slob_units (slobs s a)"

abbreviation next_of :: "mem_state \<Rightarrow> nat \<Rightarrow> nat" where
  "next_of s a \<equiv> slob_next (slobs s a)"

definition slob_get_free_pages :: "nat \<Rightarrow> mem_state \<Rightarrow> (nat option \<times> mem_state) option" where
  "slob_get_free_pages order s =
     do { (p, s) \<leftarrow> alloc_pages (2 ^ order) s;
          case p of
            None \<Rightarrow> Some (None, s)
          | Some p \<Rightarrow> do { kva \<leftarrow> page2kva p s; Some (Some (512 * kva), s) } }"

definition slob_free_pages :: "nat \<Rightarrow> nat \<Rightarrow> mem_state \<Rightarrow> mem_state option" where
  "slob_free_pages kva order s =
     do { p \<leftarrow> pa2page (page2pa (kva div 512)) s; free_pages p (2 ^ order) s }"

text \<open>The search of \<open>slob_free\<close> for the place of a block.\<close>

partial_function (option) slob_find :: "nat \<Rightarrow> nat \<Rightarrow> mem_state \<Rightarrow> nat option" where
  "slob_find b cur s =
     (if b > cur \<and> b < next_of s cur then Some cur
      else if cur \<ge> next_of s cur \<and> (b > cur \<or> b < next_of s cur) then Some cur
      else slob_find b (next_of s cur) s)"

definition slob_join_next :: "nat \<Rightarrow> nat \<Rightarrow> mem_state \<Rightarrow> mem_state" where
  "slob_join_next b cur s =
     (if int b + units_of s b = int (next_of s cur) then
        let n = next_of s cur; s = set_units b (units_of s b + units_of s n) s
        in set_next b (next_of s n) s
      else set_next b (next_of s cur) s)"

definition slob_join_prev :: "nat \<Rightarrow> nat \<Rightarrow> mem_state \<Rightarrow> mem_state" where
  "slob_join_prev b cur s =
     (if int cur + units_of s cur = int b then
        let s = set_units cur (units_of s cur + units_of s b) s in set_next cur (next_of s b) s
      else set_next cur b s)"

definition slob_free :: "nat option \<Rightarrow> nat \<Rightarrow> mem_state \<Rightarrow> mem_state option" where
  "slob_free block sz s =
     (case block of
        None \<Rightarrow> Some s
      | Some b \<Rightarrow>
          do { let s = (if sz \<noteq> 0 then set_units b (int (SLOB_UNITS sz)) s else s);
               cur \<leftarrow> slob_find b (slobfree s) s;
               let s = slob_join_prev b cur (slob_join_next b cur s);
               Some (s\<lparr>slobfree := cur\<rparr>) })"

text \<open>
  Taking \<open>units\<close> units from the block \<open>cur\<close> after \<open>prev\<close>.  With a non-zero \<open>align\<close>, the head of the
  block is first split off so that the rest is aligned.
\<close>

definition slob_delta :: "nat \<Rightarrow> nat \<Rightarrow> nat" where
  "slob_delta align cur =
     (if align \<noteq> 0 then (8 * cur + align - 1) div align * align div 8 - cur else 0)"

definition slob_take :: "nat \<Rightarrow> nat \<Rightarrow> nat \<Rightarrow> nat \<Rightarrow> mem_state \<Rightarrow> nat \<times> mem_state" where
  "slob_take units delta prev cur s =
     (let (prev, cur, s) =
        (if delta \<noteq> 0 then
           let a = cur + delta;
               s = set_units a (units_of s cur - int delta) s;
               s = set_next a (next_of s cur) s;
               s = set_next cur a s;
               s = set_units cur (int delta) s
           in (cur, a, s)
         else (prev, cur, s));
          s = (if units_of s cur = int units then set_next prev (next_of s cur) s
               else let s = set_next prev (cur + units) s;
                        s = set_units (cur + units) (units_of s cur - int units) s;
                        s = set_next (cur + units) (next_of s cur) s
                    in set_units cur (int units) s)
      in (cur, s\<lparr>slobfree := prev\<rparr>))"

partial_function (option) slob_search ::
  "nat \<Rightarrow> nat \<Rightarrow> nat \<Rightarrow> nat \<Rightarrow> nat \<Rightarrow> mem_state \<Rightarrow> (nat option \<times> mem_state) option" where
  "slob_search sz units align prev cur s =
     (if units_of s cur \<ge> int (units + slob_delta align cur) then
        let (b, s) = slob_take units (slob_delta align cur) prev cur s in Some (Some b, s)
      else if cur = slobfree s then
        (if sz = PAGE_SIZE then Some (None, s)
         else do { (p, s) \<leftarrow> slob_get_free_pages 0 s;
                   case p of
                     None \<Rightarrow> Some (None, s)
                   | Some pg \<Rightarrow>
                       do { s \<leftarrow> slob_free (Some pg) PAGE_SIZE s;
                            slob_search sz units align (slobfree s) (next_of s (slobfree s)) s } })
      else slob_search sz units align cur (next_of s cur) s)"

definition slob_alloc :: "nat \<Rightarrow> nat \<Rightarrow> mem_state \<Rightarrow> (nat option \<times> mem_state) option" where
  "slob_alloc sz align s =
     do { kassert (sz + SLOB_UNIT < PAGE_SIZE);
          slob_search sz (SLOB_UNITS sz) align (slobfree s) (next_of s (slobfree s)) s }"

text \<open>
  The argument of \<open>find_order\<close> is a signed \<open>int\<close>: the comparison is signed and \<open>>>=\<close> shifts the sign in.
  \<open>kmalloc\<close> takes a \<open>size_t\<close>, a number below \<open>2 ^ 32\<close>, which the call of \<open>find_order\<close> converts.
\<close>

function find_order :: "u32 \<Rightarrow> nat" where
  "find_order sz = (if sint sz > 4096 then Suc (find_order (signed_drop_bit 1 sz)) else 0)"
  by pat_completeness auto
termination
  by (relation "measure (\<lambda>sz. nat (sint sz))") (auto simp: sint_signed_drop_bit_eq drop_bit_eq_div)

declare find_order.simps [simp del]

definition kmalloc :: "nat \<Rightarrow> mem_state \<Rightarrow> (nat option \<times> mem_state) option" where
  "kmalloc sz s =
     (if sz < PAGE_SIZE - SLOB_UNIT then
        do { (m, s) \<leftarrow> slob_alloc (sz + SLOB_UNIT) 0 s; Some (map_option Suc m, s) }
      else
        do { (m, s) \<leftarrow> slob_alloc sizeof_bigblock 0 s;
             case m of
               None \<Rightarrow> Some (None, s)
             | Some bb \<Rightarrow>
                 do { let order = find_order (of_nat sz);
                      (p, s) \<leftarrow> slob_get_free_pages order s;
                      case p of
                        Some pg \<Rightarrow>
                          Some (Some pg, s\<lparr>bigblocks := \<lparr>bb_at = bb, bb_order = order, bb_pages = pg\<rparr> # bigblocks s\<rparr>)
                      | None \<Rightarrow> do { s \<leftarrow> slob_free (Some bb) sizeof_bigblock s; Some (None, s) } } })"

definition kfree :: "nat option \<Rightarrow> mem_state \<Rightarrow> mem_state option" where
  "kfree block s =
     (case block of
        None \<Rightarrow> Some s
      | Some a \<Rightarrow>
          (case (if a mod 512 = 0 then find (\<lambda>bb. bb_pages bb = a) (bigblocks s) else None) of
             Some bb \<Rightarrow>
               do { let s = s\<lparr>bigblocks := remove1 bb (bigblocks s)\<rparr>;
                    s \<leftarrow> slob_free_pages a (bb_order bb) s;
                    slob_free (Some (bb_at bb)) sizeof_bigblock s }
           | None \<Rightarrow> slob_free (Some (a - 1)) 0 s))"

definition ksize :: "nat option \<Rightarrow> mem_state \<Rightarrow> nat" where
  "ksize block s =
     (case block of
        None \<Rightarrow> 0
      | Some a \<Rightarrow>
          (case (if a mod 512 = 0 then find (\<lambda>bb. bb_pages bb = a) (bigblocks s) else None) of
             Some bb \<Rightarrow> PAGE_SIZE * 2 ^ bb_order bb
           | None \<Rightarrow> nat (units_of s (a - 1)) * SLOB_UNIT))"

section \<open>The free list\<close>

text \<open>\<open>chain nx a xs z\<close>: following \<open>nx\<close> from \<open>a\<close> visits \<open>xs\<close> and then comes to \<open>z\<close>.\<close>

fun chain :: "(nat \<Rightarrow> nat) \<Rightarrow> nat \<Rightarrow> nat list \<Rightarrow> nat \<Rightarrow> bool" where
  "chain nx a [] z \<longleftrightarrow> nx a = z"
| "chain nx a (x # xs) z \<longleftrightarrow> nx a = x \<and> chain nx x xs z"

lemma chain_append: "chain nx a (xs @ y # ys) z \<longleftrightarrow> chain nx a xs y \<and> chain nx y ys z"
  by (induction xs arbitrary: a) auto

lemma chain_cong:
  "(\<And>x. x \<in> insert a (set xs) \<Longrightarrow> nx' x = nx x) \<Longrightarrow> chain nx' a xs z = chain nx a xs z"
  by (induction xs arbitrary: a) auto

lemma chain_upd [simp]: "y \<notin> insert a (set xs) \<Longrightarrow> chain (nx(y := v)) a xs z = chain nx a xs z"
  by (rule chain_cong) auto

text \<open>The last link of a chain can be redirected.\<close>

lemma chain_redirect:
  assumes "chain nx a xs y" "distinct (a # xs)"
  shows "chain (nx(last (a # xs) := v)) a xs v"
  using assms
proof (induction xs arbitrary: a)
  case (Cons x xs)
  then have "a \<noteq> last (x # xs)" by auto
  then show ?case using Cons by simp
qed simp

definition unit_sz :: "mem_state \<Rightarrow> nat \<Rightarrow> nat" where
  "unit_sz s a = nat (units_of s a)"

text \<open>
  \<open>heap_list s xs\<close>: the free list is the arena header followed by the blocks \<open>xs\<close>, in the order of
  their addresses.  The arena header is never next to a block, so it always keeps its size 1.
\<close>

definition heap_list :: "mem_state \<Rightarrow> nat list \<Rightarrow> bool" where
  "heap_list s xs \<longleftrightarrow> chain (next_of s) (arena s) xs (arena s) \<and> blocks (unit_sz s) xs \<and>
     (\<forall>b \<in> set xs. arena s + 1 < b) \<and> units_of s (arena s) = 1 \<and> slobfree s \<in> insert (arena s) (set xs)"

definition heap_rep :: "mem_state \<Rightarrow> nat set \<Rightarrow> bool" where
  "heap_rep s U \<longleftrightarrow> (\<exists>xs. heap_list s xs \<and> area (unit_sz s) xs = U)"

lemma heap_listD:
  assumes "heap_list s xs"
  shows "chain (next_of s) (arena s) xs (arena s)" "blocks (unit_sz s) xs" "b \<in> set xs \<Longrightarrow> arena s + 1 < b"
    "units_of s (arena s) = 1" "slobfree s \<in> insert (arena s) (set xs)" "distinct (arena s # xs)"
    "sorted_wrt (<) (arena s # xs)"
proof -
  show h: "chain (next_of s) (arena s) xs (arena s)" "blocks (unit_sz s) xs"
    "b \<in> set xs \<Longrightarrow> arena s + 1 < b" for b using assms by (simp_all add: heap_list_def)
  show "units_of s (arena s) = 1" "slobfree s \<in> insert (arena s) (set xs)"
    using assms by (simp_all add: heap_list_def)
  show "distinct (arena s # xs)" using blocks_distinct [OF h(2)] h(3) by fastforce
  have "sorted_wrt (<) xs"
    using h(2) unfolding blocks_def by (auto elim!: sorted_wrt_mono_rel [rotated])
  then show "sorted_wrt (<) (arena s # xs)" using h(3) by fastforce
qed

lemma units_pos: "heap_list s xs \<Longrightarrow> b \<in> set xs \<Longrightarrow> units_of s b = int (unit_sz s b) \<and> 0 < unit_sz s b"
  using blocks_pos [OF heap_listD(2)] by (fastforce simp: unit_sz_def)

section \<open>Finding the place of a block\<close>

lemma slob_find_up:
  assumes "chain (next_of s) c Q (arena s)" "sorted_wrt (<) (c # Q)" "arena s \<le> c" "c < b" "b \<notin> set Q"
  shows "\<exists>P c' Q'. slob_find b c s = Some c' \<and> c # Q = P @ c' # Q' \<and> (\<forall>x\<in>set P. x < b) \<and> c' < b \<and>
    (\<forall>x\<in>set Q'. b < x)"
  using assms
proof (induction Q arbitrary: c)
  case Nil
  then have "slob_find b c s = Some c" by (subst slob_find.simps) auto
  then show ?case using Nil by (intro exI [of _ "[]"] exI [of _ c]) simp
next
  case (Cons q Q)
  show ?case
  proof (cases "b < q")
    case True
    have "slob_find b c s = Some c" using Cons.prems True by (subst slob_find.simps) simp
    moreover have "\<forall>x\<in>set (q # Q). b < x" using True Cons.prems(2) by fastforce
    ultimately show ?thesis using Cons.prems by (intro exI [of _ "[]"] exI [of _ c] exI [of _ "q # Q"]) simp
  next
    case False
    have "arena s \<le> q" "q < b" using Cons.prems False by auto
    then obtain P c' Q' where IH: "slob_find b q s = Some c'" "q # Q = P @ c' # Q'" "\<forall>x\<in>set P. x < b" "c' < b"
      "\<forall>x\<in>set Q'. b < x" using Cons.IH [of q] Cons.prems by auto
    have "slob_find b c s = slob_find b q s" using Cons.prems False by (subst slob_find.simps) auto
    then show ?thesis using IH Cons.prems(4) by (intro exI [of _ "c # P"] exI [of _ c'] exI [of _ Q']) auto
  qed
qed

lemma slob_find_wrap:
  assumes "chain (next_of s) c Q (arena s)" "sorted_wrt (<) (c # Q)" "arena s < b" "b < c"
  shows "slob_find b c s = slob_find b (arena s) s"
  using assms
proof (induction Q arbitrary: c)
  case Nil
  then show ?case by (subst slob_find.simps) auto
next
  case (Cons q Q)
  then have "slob_find b c s = slob_find b q s" by (subst slob_find.simps) auto
  then show ?case using Cons by auto
qed

lemma slob_find_ok:
  assumes h: "heap_list s xs" and c: "c \<in> insert (arena s) (set xs)" and b: "arena s < b" "b \<notin> set xs"
  shows "\<exists>P c' Q. slob_find b c s = Some c' \<and> arena s # xs = P @ c' # Q \<and> (\<forall>x\<in>set P. x < b) \<and> c' < b \<and>
    (\<forall>x\<in>set Q. b < x)"
proof -
  note d = heap_listD [OF h]
  have start: "\<exists>P c' Q. slob_find b (arena s) s = Some c' \<and> arena s # xs = P @ c' # Q \<and> (\<forall>x\<in>set P. x < b) \<and>
      c' < b \<and> (\<forall>x\<in>set Q. b < x)"
    using slob_find_up [OF d(1) d(7) _ b] by simp
  obtain P Q where pq: "arena s # xs = P @ c # Q" using c by (metis list.set(2) split_list)
  have ch: "chain (next_of s) c Q (arena s)"
  proof (cases P)
    case (Cons a P')
    then have "chain (next_of s) (arena s) (P' @ c # Q) (arena s)" using pq d(1) by simp
    then show ?thesis by (simp add: chain_append)
  qed (use pq d(1) in simp)
  have so: "sorted_wrt (<) (P @ c # Q)" using d(7) pq by simp
  consider "c = arena s" | "b < c" | "c < b" "arena s < c" using b c d(3) by fastforce
  then show ?thesis
  proof cases
    case 2
    then show ?thesis using start slob_find_wrap [OF ch] so b(1) by (simp add: sorted_wrt_append)
  next
    case 3
    have "b \<notin> set Q" using b pq by (metis Un_iff list.set_intros(2) set_append set_ConsD nat_neq_iff)
    then obtain P' c' Q' where f: "slob_find b c s = Some c'" "c # Q = P' @ c' # Q'" "\<forall>x\<in>set P'. x < b" "c' < b"
      "\<forall>x\<in>set Q'. b < x" using slob_find_up [OF ch _ _ 3(1)] so 3(2) by (auto simp: sorted_wrt_append)
    have "\<forall>x\<in>set P. x < b" using so 3(1) by (auto simp: sorted_wrt_append)
    then show ?thesis using f pq by (intro exI [of _ "P @ P'"] exI [of _ c'] exI [of _ Q']) auto
  qed (use start in simp)
qed

section \<open>Giving a block back\<close>

lemma set_units_sel [simp]:
  "next_of (set_units a u s) x = next_of s x" "units_of (set_units a u s) x = (if x = a then u else units_of s x)"
  "arena (set_units a u s) = arena s" "slobfree (set_units a u s) = slobfree s"
  by (simp_all add: set_units_def upd_slob_def)

lemma set_next_sel [simp]:
  "next_of (set_next a n s) x = (if x = a then n else next_of s x)" "units_of (set_next a n s) x = units_of s x"
  "arena (set_next a n s) = arena s" "slobfree (set_next a n s) = slobfree s"
  by (simp_all add: set_next_def upd_slob_def)

lemma join_next_ok:
  assumes ch: "chain (next_of s) c Q a" and bl: "blocks (unit_sz s) Q" and u: "0 < units_of s b"
    and b: "b \<notin> insert c (set Q)" "a < b" and le: "\<And>q. q \<in> set Q \<Longrightarrow> b + unit_sz s b \<le> q"
  shows "\<exists>Q'. chain (next_of (slob_join_next b c s)) b Q' a \<and> blocks (unit_sz (slob_join_next b c s)) (b # Q') \<and>
    area (unit_sz (slob_join_next b c s)) (b # Q') = {b..<b + unit_sz s b} \<union> area (unit_sz s) Q \<and> set Q' \<subseteq> set Q \<and>
    0 < units_of (slob_join_next b c s) b \<and>
    (\<forall>x. x \<noteq> b \<longrightarrow> next_of (slob_join_next b c s) x = next_of s x \<and> units_of (slob_join_next b c s) x = units_of s x)"
proof -
  let ?s = "slob_join_next b c s"
  have ub: "int (unit_sz s b) = units_of s b" using u by (simp add: unit_sz_def)
  have oth: "unit_sz ?s x = unit_sz s x" if "x \<noteq> b" for x
    using that by (simp add: slob_join_next_def Let_def unit_sz_def)
  have bQ: "blocks (unit_sz ?s) Q'" "area (unit_sz ?s) Q' = area (unit_sz s) Q'" if "set Q' \<subseteq> set Q" "blocks (unit_sz s) Q'" for Q'
  proof -
    have e: "unit_sz ?s x = unit_sz s x" if "x \<in> set Q'" for x
      by (rule oth) (use that \<open>set Q' \<subseteq> set Q\<close> b in auto)
    show "blocks (unit_sz ?s) Q'" using that(2) blocks_cong [OF e] by simp
    show "area (unit_sz ?s) Q' = area (unit_sz s) Q'" by (rule area_cong [OF e])
  qed
  show ?thesis
  proof (cases Q)
    case Nil
    then have n: "next_of s c = a" using ch by simp
    then have s: "?s = set_next b a s" using b(2) u by (simp add: slob_join_next_def)
    then show ?thesis using Nil u ub by (intro exI [of _ "[]"]) (auto simp: blocks_def unit_sz_def)
  next
    case (Cons q Q')
    then have n: "next_of s c = q" "chain (next_of s) q Q' a" using ch by auto
    have q: "0 < unit_sz s q" "\<And>x. x \<in> set Q' \<Longrightarrow> q + unit_sz s q \<le> x" "blocks (unit_sz s) Q'"
      using bl Cons by (simp_all add: blocks_Cons)
    have chb: "chain (\<lambda>x. if x = b then v else next_of s x) b R a = (if R = [] then v = a else v = hd R \<and> chain (next_of s) (hd R) (tl R) a)"
      if "set R \<subseteq> set Q" for R v
    proof (cases R)
      case (Cons r R')
      then have "chain (\<lambda>x. if x = b then v else next_of s x) r R' a = chain (next_of s) r R' a"
        using that b by (intro chain_cong) auto
      then show ?thesis using Cons by auto
    qed simp
    show ?thesis
    proof (cases "b + unit_sz s b = q")
      case True
      then have s: "?s = set_next b (next_of s q) (set_units b (units_of s b + units_of s q) s)"
        using n ub b Cons by (simp add: slob_join_next_def Let_def)
      have uq: "0 < units_of s q" using q(1) by (simp add: unit_sz_def)
      have szb: "unit_sz ?s b = unit_sz s b + unit_sz s q" using u uq by (simp add: s unit_sz_def nat_add_distrib)
      have nx: "next_of ?s = (\<lambda>x. if x = b then next_of s q else next_of s x)" by (simp add: s fun_eq_iff)
      have ch': "chain (next_of ?s) b Q' a"
      proof -
        have "set Q' \<subseteq> set Q" using Cons by auto
        then show ?thesis unfolding nx using chb [of Q' "next_of s q"] n(2) by (cases Q') simp_all
      qed
      have ar: "area (unit_sz ?s) (b # Q') = {b..<b + unit_sz s b} \<union> area (unit_sz s) Q"
      proof -
        have "{b..<b + unit_sz ?s b} = {b..<b + unit_sz s b} \<union> {q..<q + unit_sz s q}"
          unfolding szb True [symmetric] by auto
        moreover have "area (unit_sz ?s) Q' = area (unit_sz s) Q'" using bQ(2) [OF _ q(3)] Cons by auto
        ultimately show ?thesis using Cons by (simp add: Un_assoc)
      qed
      have "blocks (unit_sz ?s) (b # Q')"
        using szb q bQ(1) [of Q'] Cons u uq True by (auto simp: blocks_Cons add.assoc)
      moreover have "0 < units_of ?s b" using u uq by (simp add: s)
      moreover have "\<forall>x. x \<noteq> b \<longrightarrow> next_of ?s x = next_of s x \<and> units_of ?s x = units_of s x" by (simp add: s)
      ultimately show ?thesis using ch' ar Cons by (intro exI [of _ Q']) auto
    next
      case False
      then have "int b + units_of s b \<noteq> int q" using ub by linarith
      then have s: "?s = set_next b q s" using n by (simp add: slob_join_next_def)
      have szb: "unit_sz ?s b = unit_sz s b" using s by (simp add: unit_sz_def)
      have "chain (next_of ?s) b Q a" using s n Cons chb [of Q q] by simp
      then show ?thesis
        using szb bQ [of Q] bl s u le ub by (intro exI [of _ Q]) (auto simp: blocks_Cons)
    qed
  qed
qed

lemma chain_same:
  assumes "chain (next_of s) a P z" "\<And>x. x \<in> insert a (set P) \<Longrightarrow> next_of s' x = next_of s x"
  shows "chain (next_of s') a P z"
  using assms chain_cong [of a P "next_of s'" "next_of s"] by blast

lemma sz_same:
  assumes "blocks (unit_sz s) P" "\<And>x. x \<in> set P \<Longrightarrow> units_of s' x = units_of s x"
  shows "blocks (unit_sz s') P" "area (unit_sz s') P = area (unit_sz s) P"
proof -
  have e: "unit_sz s' x = unit_sz s x" if "x \<in> set P" for x using assms(2) [OF that] by (simp add: unit_sz_def)
  show "blocks (unit_sz s') P" using assms(1) blocks_cong [OF e] by simp
  show "area (unit_sz s') P = area (unit_sz s) P" by (rule area_cong [OF e])
qed

text \<open>
  Linking block \<open>b\<close>, followed by \<open>Q\<close>, behind \<open>c\<close>: the blocks before \<open>c\<close> are \<open>P\<close>, after the arena
  header \<open>a\<close>.
\<close>

lemma join_prev_arena:
  assumes "chain (next_of s) b Q a" "b \<notin> insert a (set Q)" "a \<notin> set Q" "int a + units_of s a \<noteq> int b"
  shows "chain (next_of (slob_join_prev b a s)) a (b # Q) a" "units_of (slob_join_prev b a s) x = units_of s x"
proof -
  have s': "slob_join_prev b a s = set_next a b s" using assms(4) by (simp add: slob_join_prev_def)
  have "chain (next_of (set_next a b s)) b Q a" by (rule chain_same [OF assms(1)]) (use assms in auto)
  then show "chain (next_of (slob_join_prev b a s)) a (b # Q) a" by (simp add: s')
  show "units_of (slob_join_prev b a s) x = units_of s x" by (simp add: s')
qed

lemma join_prev_block:
  assumes ch: "chain (next_of s) a P c" "chain (next_of s) b Q a"
    and bl: "blocks (unit_sz s) (P @ [c])" "blocks (unit_sz s) (b # Q)" and ub: "0 < units_of s b"
    and d: "b \<notin> insert a (set (P @ c # Q))" "c \<notin> insert a (set (P @ Q))"
    and le: "c + unit_sz s c \<le> b" "\<And>x. x \<in> set P \<Longrightarrow> x + unit_sz s x \<le> c"
  shows "\<exists>ys. chain (next_of (slob_join_prev b c s)) a ys a \<and> blocks (unit_sz (slob_join_prev b c s)) ys \<and>
    area (unit_sz (slob_join_prev b c s)) ys = area (unit_sz s) (P @ c # b # Q) \<and>
    set ys \<subseteq> set (P @ c # b # Q) \<and> c \<in> set ys \<and> (\<exists>y \<in> set ys. unit_sz s b \<le> unit_sz (slob_join_prev b c s) y) \<and>
    (\<forall>x. x \<noteq> c \<longrightarrow> slobs (slob_join_prev b c s) x = slobs s x)"
proof (cases "c + unit_sz s c = b")
  case True
  have uc: "0 < units_of s c" using bl(1) by (auto simp: blocks_append blocks_Cons unit_sz_def)
  then have "int c + units_of s c = int b" using True by (auto simp: unit_sz_def)
  then have s': "slob_join_prev b c s = set_next c (next_of s b) (set_units c (units_of s c + units_of s b) s)"
    using d by (simp add: slob_join_prev_def Let_def)
  let ?s = "slob_join_prev b c s"
  have oth: "slobs ?s x = slobs s x" if "x \<noteq> c" for x using that by (simp add: s' set_next_def set_units_def upd_slob_def)
  have szc: "unit_sz ?s c = unit_sz s c + unit_sz s b" using ub uc by (simp add: s' unit_sz_def nat_add_distrib)
  have oP: "slobs ?s x = slobs s x" if "x \<in> insert a (set (P @ b # Q))" for x
    by (rule oth) (use that d in auto)
  have nxc: "next_of ?s c = next_of s b" by (simp add: s')
  have "chain (next_of ?s) a P c" by (rule chain_same [OF ch(1)]) (auto simp: oP)
  moreover have "chain (next_of ?s) c Q a"
  proof (cases Q)
    case (Cons q R)
    then have "chain (next_of s) q R a" using ch(2) by simp
    then have "chain (next_of ?s) q R a" by (rule chain_same) (use Cons in \<open>auto simp: oP\<close>)
    then show ?thesis using ch(2) Cons nxc by simp
  qed (use ch(2) nxc in simp)
  ultimately have chain: "chain (next_of ?s) a (P @ c # Q) a" by (simp add: chain_append)
  have blP: "blocks (unit_sz ?s) P" "area (unit_sz ?s) P = area (unit_sz s) P"
    using sz_same [of s P ?s] bl(1) oP by (simp_all add: blocks_append)
  have blQ: "blocks (unit_sz ?s) Q" "area (unit_sz ?s) Q = area (unit_sz s) Q"
    using sz_same [of s Q ?s] bl(2) oP by (simp_all add: blocks_Cons)
  have szo: "unit_sz ?s x = unit_sz s x" if "x \<in> set P" for x using oP [of x] that by (simp add: unit_sz_def)
  have bq: "b + unit_sz s b \<le> q" if "q \<in> set Q" for q using bl(2) that by (simp add: blocks_Cons)
  have cb: "c < b" "c + unit_sz ?s c = b + unit_sz s b" using True uc szc by (auto simp: unit_sz_def)
  have "\<forall>x \<in> set P. \<forall>y \<in> set (c # Q). x + unit_sz ?s x \<le> y"
  proof (intro ballI)
    fix x y assume x: "x \<in> set P" and y: "y \<in> set (c # Q)"
    then have "c \<le> y" using bq cb(1) by fastforce
    then show "x + unit_sz ?s x \<le> y" using le(2) [OF x] szo [OF x] by simp
  qed
  moreover have "0 < unit_sz ?s c" unfolding szc using uc by (simp add: unit_sz_def)
  ultimately have blk: "blocks (unit_sz ?s) (P @ c # Q)"
    using blP(1) blQ(1) bq unfolding blocks_append blocks_Cons cb(2) by simp
  have "{c..<c + unit_sz ?s c} = {c..<c + unit_sz s c} \<union> {b..<b + unit_sz s b}"
    using ivl_disj_un_two(3) [of c b "b + unit_sz s b"] cb(1) unfolding cb(2) True by simp
  then have "area (unit_sz ?s) (P @ c # Q) = area (unit_sz s) (P @ c # b # Q)"
    using blP(2) blQ(2) by (simp add: Un_assoc)
  then show ?thesis using chain blk oth szc by (intro exI [of _ "P @ c # Q"]) auto
next
  case False
  then have "int c + units_of s c \<noteq> int b" using bl(1) by (auto simp: unit_sz_def blocks_append blocks_Cons)
  then have s': "slob_join_prev b c s = set_next c b s" by (simp add: slob_join_prev_def)
  have "chain (next_of (set_next c b s)) a P c" by (rule chain_same [OF ch(1)]) (use d in auto)
  moreover have "chain (next_of (set_next c b s)) b Q a" by (rule chain_same [OF ch(2)]) (use d in auto)
  ultimately have chain: "chain (next_of (set_next c b s)) a (P @ c # b # Q) a" by (simp add: chain_append)
  have bq: "b + unit_sz s b \<le> q" if "q \<in> set Q" for q using bl(2) that by (simp add: blocks_Cons)
  have "c + unit_sz s c \<le> y \<and> c \<le> y" if "y \<in> set (b # Q)" for y using that le(1) bq by fastforce
  then have "blocks (unit_sz s) (P @ c # b # Q)"
    using bl le unfolding blocks_append blocks_Cons by (auto dest: le_trans)
  moreover have "unit_sz (set_next c b s) = unit_sz s" by (simp add: unit_sz_def fun_eq_iff)
  ultimately show ?thesis
    using chain unfolding s' by (intro exI [of _ "P @ c # b # Q"]) (auto simp: set_next_def upd_slob_def)
qed

text \<open>Only the free list changes; \<open>heap_only s' s\<close> says the rest of the state is the same.\<close>

definition heap_only :: "mem_state \<Rightarrow> mem_state \<Rightarrow> bool" where
  "heap_only s' s \<longleftrightarrow> (\<exists>h f. s' = s\<lparr>slobs := h, slobfree := f\<rparr>)"

lemma heap_onlyI: "heap_only (s\<lparr>slobs := h, slobfree := f\<rparr>) s"
  by (auto simp: heap_only_def)

lemma heap_only_refl [simp]: "heap_only s s"
  using heap_onlyI [where s = s and h = "slobs s" and f = "slobfree s"] by simp

lemma heap_only_trans: "heap_only s2 s1 \<Longrightarrow> heap_only s1 s \<Longrightarrow> heap_only s2 s"
  by (fastforce simp: heap_only_def)

lemma heap_only_upd [simp]:
  "heap_only (set_units a u s) s" "heap_only (set_next a n s) s" "heap_only (s\<lparr>slobfree := f\<rparr>) s"
  using heap_onlyI [where s = s and f = "slobfree s"] heap_onlyI [where s = s and h = "slobs s" and f = f]
  by (simp_all add: set_units_def set_next_def upd_slob_def)

lemmas heap_only_steps = heap_only_trans [OF heap_only_upd(1)] heap_only_trans [OF heap_only_upd(2)]
  heap_only_trans [OF heap_only_upd(3)]

lemma heap_only_join: "heap_only (slob_join_next b c s) s" "heap_only (slob_join_prev b c s) s"
  using heap_only_trans [OF heap_only_upd(2) heap_only_upd(1)]
  by (auto simp: slob_join_next_def slob_join_prev_def Let_def)

lemma heap_only_sel:
  assumes "heap_only s' s"
  shows "arena s' = arena s" "farea s' = farea s" "frames s' = frames s" "npage s' = npage s" "mms s' = mms s"
    "swap_init_ok s' = swap_init_ok s" "check_mm_struct s' = check_mm_struct s" "bigblocks s' = bigblocks s"
    "tlb s' = tlb s" "cr3_reg s' = cr3_reg s" "pgfault_num s' = pgfault_num s" "page_of s' = page_of s"
  using assms by (auto simp: heap_only_def page_of_def fun_eq_iff)

lemma join_next_other: "x \<noteq> b \<Longrightarrow> slobs (slob_join_next b c s) x = slobs s x"
  by (simp add: slob_join_next_def Let_def set_units_def set_next_def upd_slob_def)

lemma heap_parts:
  assumes h: "heap_list s xs" and sp: "arena s # xs = P @ c # Q"
  shows "chain (next_of s) c Q (arena s)" "blocks (unit_sz s) Q"
    "P \<noteq> [] \<Longrightarrow> P = arena s # tl P \<and> xs = tl P @ c # Q" "P = [] \<Longrightarrow> c = arena s \<and> xs = Q"
proof -
  note d = heap_listD [OF h]
  show a: "P \<noteq> [] \<Longrightarrow> P = arena s # tl P \<and> xs = tl P @ c # Q" "P = [] \<Longrightarrow> c = arena s \<and> xs = Q"
    using sp by (cases P; auto)+
  show "chain (next_of s) c Q (arena s)" "blocks (unit_sz s) Q"
    using a d(1,2) by (cases "P = []"; auto simp: chain_append blocks_append blocks_Cons)+
qed

lemma unit_sz_slobfree [simp]: "unit_sz (s\<lparr>slobfree := f\<rparr>) = unit_sz s" "unit_sz (s\<lparr>farea := fa\<rparr>) = unit_sz s"
  by (simp_all add: unit_sz_def fun_eq_iff)

lemma heap_listI:
  assumes "chain (next_of s) (arena s) ys (arena s)" "blocks (unit_sz s) ys" "\<And>y. y \<in> set ys \<Longrightarrow> arena s + 1 < y"
    "units_of s (arena s) = 1" "f \<in> insert (arena s) (set ys)"
  shows "heap_list (s\<lparr>slobfree := f\<rparr>) ys"
  using assms by (simp add: heap_list_def)

lemma blocks_Nil: "blocks pr []"
  by (simp add: blocks_def)

lemma area_start: "blocks pr xs \<Longrightarrow> x \<in> set xs \<Longrightarrow> x \<in> area pr xs"
  using blocks_pos by (fastforce simp: area_def)

lemma join_next_ge:
  assumes "heap_list s xs" "next_of s c \<in> insert (arena s) (set xs)"
  shows "unit_sz s b \<le> unit_sz (slob_join_next b c s) b"
  using assms heap_listD(4) [OF assms(1)] units_pos [OF assms(1), of "next_of s c"]
  by (auto simp: slob_join_next_def Let_def unit_sz_def)

text \<open>A block in use is put on the free list, joined with its neighbours.\<close>

lemma slob_link_ok:
  assumes h: "heap_list s xs" and b: "arena s + 1 < b" and u: "0 < units_of s b"
    and dis: "{b..<b + unit_sz s b} \<inter> area (unit_sz s) xs = {}"
  shows "\<exists>c ys. slob_find b (slobfree s) s = Some c \<and>
    heap_list ((slob_join_prev b c (slob_join_next b c s))\<lparr>slobfree := c\<rparr>) ys \<and>
    area (unit_sz (slob_join_prev b c (slob_join_next b c s))) ys = area (unit_sz s) xs \<union> {b..<b + unit_sz s b} \<and>
    (\<exists>y \<in> set ys. unit_sz s b \<le> unit_sz (slob_join_prev b c (slob_join_next b c s)) y) \<and>
    (\<forall>x. x \<notin> insert b (insert (arena s) (set xs)) \<longrightarrow>
       slobs (slob_join_prev b c (slob_join_next b c s)) x = slobs s x)"
proof -
  note d = heap_listD [OF h]
  have ub: "0 < unit_sz s b" using u by (simp add: unit_sz_def)
  have ap: "q + unit_sz s q \<le> b \<or> b + unit_sz s b \<le> q" if "q \<in> set xs" for q
  proof -
    have "{q..<q + unit_sz s q} \<subseteq> area (unit_sz s) xs" using that by (auto simp: area_def)
    then show ?thesis using intervals_apart [OF ub blocks_pos [OF d(2) that], of b q] dis by blast
  qed
  have bx: "b \<notin> set xs" using ap [of b] blocks_pos [OF d(2), of b] ub by auto
  obtain P c Q where f: "slob_find b (slobfree s) s = Some c" "arena s # xs = P @ c # Q" "\<forall>x\<in>set P. x < b" "c < b"
    "\<forall>x\<in>set Q. b < x" using slob_find_ok [OF h d(5) _ bx] b by auto
  note hp = heap_parts [OF h f(2)]
  have dist: "distinct (P @ c # Q)" using d(6) f(2) by simp
  have Qx: "set Q \<subseteq> set xs" using hp(3,4) by (cases "P = []") auto
  have bQ: "b + unit_sz s b \<le> q" if "q \<in> set Q" for q using ap [of q] that f(5) Qx by fastforce
  let ?s1 = "slob_join_next b c s"
  obtain Q' where j: "chain (next_of ?s1) b Q' (arena s)" "blocks (unit_sz ?s1) (b # Q')"
    "area (unit_sz ?s1) (b # Q') = {b..<b + unit_sz s b} \<union> area (unit_sz s) Q" "set Q' \<subseteq> set Q" "0 < units_of ?s1 b"
    "\<forall>x. x \<noteq> b \<longrightarrow> next_of ?s1 x = next_of s x \<and> units_of ?s1 x = units_of s x"
    using join_next_ok [OF hp(1,2) u, of] bQ f(4,5) b by fastforce
  let ?s2 = "slob_join_prev b c ?s1"
  have "next_of s c \<in> insert (arena s) (set xs)" using hp(1) Qx by (cases Q) auto
  note ge = join_next_ge [OF h this, of b]
  note ho = heap_only_sel(1) [OF heap_only_join(1)] heap_only_sel(1) [OF heap_only_join(2)]
  have a1: "units_of ?s1 (arena s) = 1" using j(6) d(4) b by simp
  have aQ: "arena s \<notin> set Q'" "b \<notin> set Q'" "\<And>y. y \<in> set Q' \<Longrightarrow> arena s + 1 < y"
    using j(4) Qx d(6) bx d(3) by auto
  show ?thesis
  proof (cases "P = []")
    case True
    then have c: "c = arena s" "xs = Q" using hp(4) by auto
    note jp = join_prev_arena [OF j(1)]
    have nb: "b \<notin> insert (arena s) (set Q')" "int (arena s) + units_of ?s1 (arena s) \<noteq> int b"
      using aQ b a1 by auto
    note jp = join_prev_arena [OF j(1) nb(1) aQ(1) nb(2)]
    have un: "unit_sz ?s2 = unit_sz ?s1" using jp(2) c by (simp add: unit_sz_def fun_eq_iff)
    have "heap_list (?s2\<lparr>slobfree := c\<rparr>) (b # Q')"
      by (rule heap_listI) (use jp c j(2) un aQ b a1 ho in auto)
    moreover have "slobs ?s2 x = slobs s x" if "x \<noteq> b" "x \<noteq> arena s" for x
      using that c nb(2) join_next_other [of x b c s]
      by (simp add: slob_join_prev_def set_next_def upd_slob_def)
    ultimately show ?thesis
      using f(1) j(3) un c ge by (intro exI [of _ c] exI [of _ "b # Q'"]) (auto simp: Un_commute)
  next
    case False
    then obtain P' where P: "P = arena s # P'" "xs = P' @ c # Q" using hp(3) by (metis)
    have cx: "c \<in> set xs" "set P' \<subseteq> set xs" using P(2) by auto
    have pre: "chain (next_of s) (arena s) P' c" "blocks (unit_sz s) (P' @ [c])"
      "\<And>x. x \<in> set P' \<Longrightarrow> x + unit_sz s x \<le> c"
      using d(1,2) P(2) by (auto simp: chain_append blocks_append blocks_Cons blocks_Nil)
    have neb: "x \<noteq> b" if "x \<in> insert (arena s) (set (P' @ [c]))" for x using that bx P(2) b by auto
    have sz1: "unit_sz ?s1 x = unit_sz s x" if "x \<noteq> b" for x using j(6) that by (simp add: unit_sz_def)
    have ch1: "chain (next_of ?s1) (arena s) P' c" by (rule chain_same [OF pre(1)]) (use j(6) neb in auto)
    have bl1: "blocks (unit_sz ?s1) (P' @ [c])" "area (unit_sz ?s1) (P' @ [c]) = area (unit_sz s) (P' @ [c])"
      using sz_same [OF pre(2), of ?s1] j(6) neb by auto
    have cle: "c + unit_sz ?s1 c \<le> b" using ap [OF cx(1)] f(4) sz1 [of c] by fastforce
    have ple: "x + unit_sz ?s1 x \<le> c" if "x \<in> set P'" for x using pre(3) [OF that] sz1 [OF neb] that by simp
    have dis1: "b \<notin> insert (arena s) (set (P' @ c # Q'))" "c \<notin> insert (arena s) (set (P' @ Q'))"
      using aQ(2) bx P(2) b dist j(4) P(1) by auto
    obtain ys where ys: "chain (next_of ?s2) (arena s) ys (arena s)" "blocks (unit_sz ?s2) ys"
      "area (unit_sz ?s2) ys = area (unit_sz ?s1) (P' @ c # b # Q')" "set ys \<subseteq> set (P' @ c # b # Q')" "c \<in> set ys" "\<exists>y \<in> set ys. unit_sz ?s1 b \<le> unit_sz ?s2 y"
      "\<forall>x. x \<noteq> c \<longrightarrow> slobs ?s2 x = slobs ?s1 x"
      using join_prev_block [OF ch1 j(1) bl1(1) j(2,5) dis1 cle ple] by blast
    have "heap_list (?s2\<lparr>slobfree := c\<rparr>) ys"
    proof (rule heap_listI)
      show "arena ?s2 + 1 < y" if "y \<in> set ys" for y
      proof -
        have "y = b \<or> y \<in> set xs" using that ys(4) j(4) Qx cx by auto
        then show ?thesis using d(3) b by (auto simp: ho)
      qed
      show "units_of ?s2 (arena ?s2) = 1" using ys(7) dis1(2) a1 ho by auto
    qed (use ys ho in auto)
    moreover have "area (unit_sz ?s2) ys = area (unit_sz s) xs \<union> {b..<b + unit_sz s b}"
      using ys(3) bl1(2) j(3) P(2) by auto
    moreover have "slobs ?s2 x = slobs s x" if "x \<notin> insert b (insert (arena s) (set xs))" for x
      using that ys(7) cx join_next_other [of x b c s] by auto
    moreover have "\<exists>y \<in> set ys. unit_sz s b \<le> unit_sz ?s2 y" using ys(6) ge by (meson le_trans)
    ultimately show ?thesis using f(1) by blast
  qed
qed

lemma heap_list_units:
  "b \<notin> insert (arena s) (set xs) \<Longrightarrow> heap_list s xs \<Longrightarrow> heap_list (set_units b u s) xs"
  "b \<notin> set xs \<Longrightarrow> area (unit_sz (set_units b u s)) xs = area (unit_sz s) xs"
proof -
  have cg: "unit_sz (set_units b u s) x = unit_sz s x" if "b \<notin> set xs" "x \<in> set xs" for x
    using that by (auto simp: unit_sz_def)
  show "b \<notin> set xs \<Longrightarrow> area (unit_sz (set_units b u s)) xs = area (unit_sz s) xs"
    using cg by (intro area_cong) auto
  show "heap_list (set_units b u s) xs" if "b \<notin> insert (arena s) (set xs)" "heap_list s xs"
    using that blocks_cong [of xs "unit_sz (set_units b u s)" "unit_sz s"] cg by (auto simp: heap_list_def)
qed

definition block_units :: "nat \<Rightarrow> nat \<Rightarrow> mem_state \<Rightarrow> int" where
  "block_units b sz s = (if sz \<noteq> 0 then int (SLOB_UNITS sz) else units_of s b)"

lemma slob_free_rep:
  assumes r: "heap_rep s U" and b: "arena s + 1 < b" and n: "block_units b sz s = int n" "0 < n"
    and dis: "{b..<b + n} \<inter> U = {}"
  shows "\<exists>s'. slob_free (Some b) sz s = Some s' \<and> heap_only s' s \<and> (\<exists>ys. heap_list s' ys \<and> area (unit_sz s') ys = U \<union> {b..<b + n} \<and> (\<exists>y \<in> set ys. n \<le> unit_sz s' y)) \<and>
    (\<forall>x. x \<notin> insert (arena s) (U \<union> {b..<b + n}) \<longrightarrow> slobs s' x = slobs s x)"
proof -
  let ?s = "if sz \<noteq> 0 then set_units b (int (SLOB_UNITS sz)) s else s"
  obtain xs where h: "heap_list s xs" and U: "area (unit_sz s) xs = U" using r by (auto simp: heap_rep_def)
  have "b \<notin> U" using dis n(2) by (auto simp: set_eq_iff)
  then have bx: "b \<notin> insert (arena s) (set xs)"
    using area_start [OF heap_listD(2) [OF h], of b] U b by auto
  have h1: "heap_list ?s xs" "area (unit_sz ?s) xs = U" "arena ?s = arena s" using heap_list_units [where b = b and s = s and xs = xs] h bx U by auto
  have un: "units_of ?s b = int n" "unit_sz ?s b = n" using n by (auto simp: block_units_def unit_sz_def)
  obtain c ys where l: "slob_find b (slobfree ?s) ?s = Some c"
    "heap_list ((slob_join_prev b c (slob_join_next b c ?s))\<lparr>slobfree := c\<rparr>) ys"
    "area (unit_sz (slob_join_prev b c (slob_join_next b c ?s))) ys = area (unit_sz ?s) xs \<union> {b..<b + unit_sz ?s b}"
    "\<exists>y \<in> set ys. unit_sz ?s b \<le> unit_sz (slob_join_prev b c (slob_join_next b c ?s)) y"
    "\<forall>x. x \<notin> insert b (insert (arena ?s) (set xs)) \<longrightarrow>
       slobs (slob_join_prev b c (slob_join_next b c ?s)) x = slobs ?s x"
    using slob_link_ok [OF h1(1), of b] b un n(2) dis h1(2,3) by auto
  let ?t = "(slob_join_prev b c (slob_join_next b c ?s))\<lparr>slobfree := c\<rparr>"
  have fr: "slob_free (Some b) sz s = Some ?t" using l(1) by (simp add: slob_free_def Let_def)
  have "heap_only ?s s" by auto
  then have ho: "heap_only ?t s" using heap_only_trans [OF heap_only_upd(3)] heap_only_trans [OF heap_only_join(1)]
      heap_only_trans [OF heap_only_join(2)] by blast
  have rep: "\<exists>ys. heap_list ?t ys \<and> area (unit_sz ?t) ys = U \<union> {b..<b + n} \<and> (\<exists>y \<in> set ys. n \<le> unit_sz ?t y)"
    using l(2,3,4) h1(2) un(2) by (intro exI [of _ ys]) simp
  have "slobs ?t x = slobs s x" if "x \<notin> insert (arena s) (U \<union> {b..<b + n})" for x
  proof -
    have "x \<noteq> b" "x \<notin> set xs" using that n(2) area_start [OF heap_listD(2) [OF h], of x] U by auto
    then show ?thesis using that l(5) h1(3) by (auto simp: set_units_def upd_slob_def)
  qed
  then show ?thesis using fr ho rep by blast
qed

section \<open>Taking a block\<close>

lemma chain_map: "chain nx a xs z \<Longrightarrow> map nx (a # xs) = xs @ [z]"
  by (induction xs arbitrary: a) auto

lemma chain_inj:
  assumes "chain nx a xs a" "distinct (a # xs)"
  shows "inj_on nx (insert a (set xs))"
proof -
  have "distinct (map nx (a # xs))" using assms chain_map [OF assms(1)] by simp
  then show ?thesis by (metis distinct_map list.set(2))
qed

lemma chain_last: "chain nx a xs z \<Longrightarrow> nx (last (a # xs)) = z"
  by (induction xs arbitrary: a) auto

lemma chain_skip: "chain nx a A (nx c) \<Longrightarrow> chain nx c B z \<Longrightarrow> chain nx a (A @ B) z"
  by (cases B) (auto simp: chain_append)

lemma chain_head: "chain nx c B z \<Longrightarrow> nx' d = nx c \<Longrightarrow> (\<And>x. x \<in> set B \<Longrightarrow> nx' x = nx x) \<Longrightarrow> chain nx' d B z"
proof (cases B)
  case (Cons b B')
  assume "chain nx c B z" "nx' d = nx c" and "\<And>x. x \<in> set B \<Longrightarrow> nx' x = nx x"
  then show ?thesis using Cons chain_cong [of b B' nx' nx z] by auto
qed simp

lemma unit_sz_set_next [simp]: "unit_sz (set_next a n s) = unit_sz s"
  by (simp add: unit_sz_def fun_eq_iff)

lemma slob_split_list:
  assumes h: "heap_list s (A @ c # B)" and p: "p = last (arena s # A)" and n: "0 < n" "n < unit_sz s c"
    and t: "t = set_units c (int n) (set_next (c + n) (next_of s c)
      (set_units (c + n) (units_of s c - int n) (set_next p (c + n) s)))"
  shows "heap_list (t\<lparr>slobfree := p\<rparr>) (A @ (c + n) # B)"
    "area (unit_sz t) (A @ (c + n) # B) = area (unit_sz s) (A @ c # B) - {c..<c + n}"
proof -
  note d = heap_listD [OF h]
  note sp = alloc_split [OF d(2) n]
  have ch: "chain (next_of s) (arena s) A c" "chain (next_of s) c B (arena s)" using d(1) by (auto simp: chain_append)
  have pA: "p \<in> insert (arena s) (set A)" "p \<notin> set B" "p \<noteq> c" "distinct (arena s # A)" "c \<notin> insert (arena s) (set A)"
    using p d(6) last_in_set [of "arena s # A"] by auto
  have cn: "c + n \<notin> insert (arena s) (set (A @ c # B))" "c + n \<noteq> p" using sp(1) d(3) [of c] pA(1) by auto
  have nx: "next_of t = (next_of s)(p := c + n, c + n := next_of s c)" using pA(3) by (auto simp: t fun_eq_iff)
  have un: "unit_sz t x = ((unit_sz s)(c + n := unit_sz s c - n)) x" if "x \<in> set (A @ (c + n) # B)" for x
    using that d(6) n by (auto simp: t unit_sz_def)
  have ar: "arena t = arena s" "arena s + 1 < c + n" using d(3) [of c] by (simp_all add: t)
  show "area (unit_sz t) (A @ (c + n) # B) = area (unit_sz s) (A @ c # B) - {c..<c + n}"
    by (rule trans [OF area_cong [OF un] sp(3)])
  show "heap_list (t\<lparr>slobfree := p\<rparr>) (A @ (c + n) # B)"
  proof (rule heap_listI)
    have "chain (next_of t) (arena s) A (c + n)"
      using chain_redirect [OF ch(1) pA(4), of "c + n"] p cn(1) by (simp add: nx)
    moreover have "chain (next_of t) (c + n) B (arena s)"
      by (rule chain_head [OF ch(2)]) (use cn pA in \<open>auto simp: fun_cong [OF nx]\<close>)
    ultimately show "chain (next_of t) (arena t) (A @ (c + n) # B) (arena t)" by (simp add: chain_append ar)
    show "blocks (unit_sz t) (A @ (c + n) # B)" by (rule blocks_cong [OF un, THEN iffD2, OF _ sp(2)])
    show "units_of t (arena t) = 1" using d(4) cn(1) pA(5) by (auto simp: t)
  qed (use d(3) pA(1) ar in auto)
qed

text \<open>\<open>n\<close> units are taken from the block \<open>c\<close>, the successor of \<open>p\<close>.\<close>

lemma slob_take_rep:
  assumes h: "heap_list s xs" and p: "p \<in> insert (arena s) (set xs)" "next_of s p = c" and c: "c \<in> set xs"
    and n: "int n \<le> units_of s c" "0 < n"
  shows "\<exists>s'. slob_take n 0 p c s = (c, s') \<and> heap_only s' s \<and>
    heap_rep s' (area (unit_sz s) xs - {c..<c + n}) \<and> {c..<c + n} \<subseteq> area (unit_sz s) xs \<and> units_of s' c = int n \<and>
    (\<forall>x. x \<notin> insert (arena s) (area (unit_sz s) xs) \<longrightarrow> slobs s' x = slobs s x)"
proof -
  note d = heap_listD [OF h]
  obtain A B where xs: "xs = A @ c # B" using c by (meson split_list)
  have ch: "chain (next_of s) (arena s) A c" "chain (next_of s) c B (arena s)" using d(1) xs by (auto simp: chain_append)
  let ?q = "last (arena s # A)"
  have "?q \<in> insert (arena s) (set xs)" using last_in_set [of "arena s # A"] xs by auto
  then have pq: "p = ?q" using inj_onD [OF chain_inj [OF d(1,6)]] p chain_last [OF ch(1)] by metis
  have di: "distinct (arena s # A @ c # B)" using d(6) xs by simp
  then have pA: "p \<in> insert (arena s) (set A)" "p \<notin> set B" "p \<noteq> c" "distinct (arena s # A)"
    using pq last_in_set [of "arena s # A"] by auto
  have sz: "units_of s c = int (unit_sz s c)" "0 < unit_sz s c" using units_pos [OF h c] by auto
  have bl: "blocks (unit_sz s) (A @ c # B)" using d(2) xs by simp
  have sub: "{c..<c + n} \<subseteq> area (unit_sz s) xs" using xs n(1) sz(1) by auto
  have outs: "x \<notin> insert c (insert p (insert (c + n) {}))"
    if "x \<notin> insert (arena s) (area (unit_sz s) xs)" "int n < units_of s c" for x
  proof -
    have "c + n \<in> area (unit_sz s) xs" using xs that(2) sz by auto
    moreover have "c \<in> area (unit_sz s) xs" using area_start [OF d(2) c] .
    moreover have "p \<in> insert (arena s) (area (unit_sz s) xs)" using p(1) area_start [OF d(2), of p] by auto
    ultimately show ?thesis using that(1) by auto
  qed
  have pos: "p \<in> insert (arena s) (set (A @ B))" "\<And>y. y \<in> set (A @ B) \<Longrightarrow> arena s + 1 < y" using pA d(3) xs by auto
  show ?thesis
  proof (cases "units_of s c = int n")
    case True
    let ?t = "set_next p (next_of s c) s"
    have "slob_take n 0 p c s = (c, ?t\<lparr>slobfree := p\<rparr>)" using True by (simp add: slob_take_def)
    moreover have "heap_list (?t\<lparr>slobfree := p\<rparr>) (A @ B)"
    proof (rule heap_listI)
      have "chain ((next_of s)(p := next_of s c)) (arena s) A (next_of s c)"
        using chain_redirect [OF ch(1) pA(4)] pq by simp
      moreover have "chain ((next_of s)(p := next_of s c)) c B (arena s)" using ch(2) pA by simp
      ultimately have "chain ((next_of s)(p := next_of s c)) (arena s) (A @ B) (arena s)"
        using pA(3) by (intro chain_skip [where c = c]) auto
      moreover have "next_of ?t = (next_of s)(p := next_of s c)" by (simp add: fun_eq_iff)
      ultimately show "chain (next_of ?t) (arena ?t) (A @ B) (arena ?t)" by simp
      show "blocks (unit_sz ?t) (A @ B)" using alloc_whole(1) [OF bl] by simp
    qed (use pos d(4) in auto)
    moreover have "area (unit_sz ?t) (A @ B) = area (unit_sz s) xs - {c..<c + n}"
      using alloc_whole(2) [OF bl] True sz(1) xs by simp
    moreover have "slobs (?t\<lparr>slobfree := p\<rparr>) x = slobs s x" if "x \<notin> insert (arena s) (area (unit_sz s) xs)" for x
      using that p(1) area_start [OF d(2), of p] by (auto simp: set_next_def upd_slob_def)
    moreover have "heap_only (?t\<lparr>slobfree := p\<rparr>) s" using heap_only_trans [OF heap_only_upd(3) heap_only_upd(2)] .
    moreover have "units_of (?t\<lparr>slobfree := p\<rparr>) c = int n" using True by simp
    ultimately show ?thesis using sub by (auto simp: heap_rep_def)
  next
    case False
    then have lt: "n < unit_sz s c" using n(1) sz(1) by simp
    let ?t = "set_units c (int n) (set_next (c + n) (next_of s c)
      (set_units (c + n) (units_of s c - int n) (set_next p (c + n) s)))"
    note sp = alloc_split [OF bl n(2) lt]
    have cn: "c + n \<notin> insert (arena s) (set (A @ c # B))" "c + n \<noteq> p" using sp(1) d(3) [OF c] pA(1) by auto
    have "slob_take n 0 p c s = (c, ?t\<lparr>slobfree := p\<rparr>)" using False cn pA(3) n(2) by (simp add: slob_take_def Let_def)
    moreover have "heap_list (?t\<lparr>slobfree := p\<rparr>) (A @ (c + n) # B)" 
      "area (unit_sz ?t) (A @ (c + n) # B) = area (unit_sz s) xs - {c..<c + n}"
      using slob_split_list [OF _ pq n(2) lt refl] h xs by simp_all
    moreover have "slobs (?t\<lparr>slobfree := p\<rparr>) x = slobs s x" if "x \<notin> insert (arena s) (area (unit_sz s) xs)" for x
      using outs [OF that] lt sz(1) by (simp add: set_next_def set_units_def upd_slob_def)
    moreover have "heap_only (?t\<lparr>slobfree := p\<rparr>) s" by (intro heap_only_steps heap_only_refl)
    moreover have "units_of (?t\<lparr>slobfree := p\<rparr>) c = int n" by simp
    ultimately show ?thesis using sub by (auto simp: heap_rep_def)
  qed
qed

text \<open>The search starts behind the roving pointer and goes round the ring.\<close>

lemma heap_ring:
  assumes h: "heap_list s xs"
  shows "\<exists>ws. chain (next_of s) (slobfree s) ws (slobfree s) \<and> insert (slobfree s) (set ws) = insert (arena s) (set xs) \<and>
    slobfree s \<notin> set ws"
proof -
  note d = heap_listD [OF h]
  obtain P Q where pq: "arena s # xs = P @ slobfree s # Q" using d(5) by (metis list.set(2) split_list)
  note hp = heap_parts [OF h pq]
  show ?thesis
  proof (cases "P = []")
    case True
    then have "slobfree s = arena s" "xs = Q" using hp(4) by auto
    then show ?thesis using d(1,6) by (intro exI [of _ xs]) simp
  next
    case False
    then obtain P' where P: "P = arena s # P'" "xs = P' @ slobfree s # Q" using hp(3) by metis
    then have "chain (next_of s) (slobfree s) (Q @ P) (slobfree s)" using hp(1) d(1) by (simp add: chain_append)
    moreover have "insert (slobfree s) (set (Q @ P)) = insert (arena s) (set xs)" using P by auto
    moreover have "slobfree s \<notin> set (Q @ P)" using d(6) P by auto
    ultimately show ?thesis by blast
  qed
qed

lemma slob_search_hit:
  "int n \<le> units_of s c \<Longrightarrow> slob_search sz n 0 p c s = Some (let (b, t) = slob_take n 0 p c s in (Some b, t))"
  by (subst slob_search.simps) (simp add: slob_delta_def split: prod.splits)

lemma slob_scan:
  assumes "chain (next_of s) prev ws (slobfree s)" "slobfree s \<notin> set ws"
  shows "(\<exists>p c. p \<in> insert prev (set ws) \<and> next_of s p = c \<and> c \<in> insert (slobfree s) (set ws) \<and>
      int n \<le> units_of s c \<and> slob_search sz n 0 prev (next_of s prev) s =
        Some (let (b, t) = slob_take n 0 p c s in (Some b, t))) \<or>
    (\<exists>p. (\<forall>c \<in> insert (slobfree s) (set ws). units_of s c < int n) \<and>
       slob_search sz n 0 prev (next_of s prev) s = slob_search sz n 0 p (slobfree s) s)"
  using assms
proof (induction ws arbitrary: prev)
  case Nil
  then show ?case
    using slob_search_hit [of n s "slobfree s" sz prev] by (cases "int n \<le> units_of s (slobfree s)") auto
next
  case (Cons w ws)
  show ?case
  proof (cases "int n \<le> units_of s w")
    case True
    then have "slob_search sz n 0 prev (next_of s prev) s = Some (let (b, t) = slob_take n 0 prev w s in (Some b, t))"
      using Cons.prems slob_search_hit by simp
    then show ?thesis using True Cons.prems by (intro disjI1 exI [of _ prev] exI [of _ w]) simp
  next
    case False
    then have "slob_search sz n 0 prev (next_of s prev) s = slob_search sz n 0 w (next_of s w) s"
      using Cons.prems by (subst slob_search.simps) (auto simp: slob_delta_def)
    then show ?thesis using Cons.IH [of w] Cons.prems False by (simp add: not_le) (metis)
  qed
qed

lemma slob_search_fits:
  assumes h: "heap_list s xs" and n: "2 \<le> n"
  shows "(\<exists>c s'. slob_search sz n 0 (slobfree s) (next_of s (slobfree s)) s = Some (Some c, s') \<and> heap_only s' s \<and>
      heap_rep s' (area (unit_sz s) xs - {c..<c + n}) \<and> {c..<c + n} \<subseteq> area (unit_sz s) xs \<and> units_of s' c = int n \<and>
      (\<forall>x. x \<notin> insert (arena s) (area (unit_sz s) xs) \<longrightarrow> slobs s' x = slobs s x)) \<or>
    (\<exists>p. (\<forall>c \<in> set xs. unit_sz s c < n) \<and>
      slob_search sz n 0 (slobfree s) (next_of s (slobfree s)) s = slob_search sz n 0 p (slobfree s) s)"
proof -
  obtain ws where ws: "chain (next_of s) (slobfree s) ws (slobfree s)" "insert (slobfree s) (set ws) = insert (arena s) (set xs)"
    "slobfree s \<notin> set ws" using heap_ring [OF h] by blast
  consider (hit) p c where "p \<in> insert (arena s) (set xs)" "next_of s p = c" "c \<in> insert (arena s) (set xs)"
      "int n \<le> units_of s c" "slob_search sz n 0 (slobfree s) (next_of s (slobfree s)) s =
        Some (let (b, t) = slob_take n 0 p c s in (Some b, t))"
    | (miss) p where "\<forall>c \<in> insert (arena s) (set xs). units_of s c < int n"
      "slob_search sz n 0 (slobfree s) (next_of s (slobfree s)) s = slob_search sz n 0 p (slobfree s) s"
    using slob_scan [OF ws(1) ws(3), where n = n and sz = sz] unfolding ws(2) by blast
  then show ?thesis
  proof cases
    case hit
    then have "c \<in> set xs" using heap_listD(4) [OF h] n by auto
    then obtain s' where "slob_take n 0 p c s = (c, s')" "heap_only s' s \<and>
      heap_rep s' (area (unit_sz s) xs - {c..<c + n}) \<and> {c..<c + n} \<subseteq> area (unit_sz s) xs \<and> units_of s' c = int n \<and>
      (\<forall>x. x \<notin> insert (arena s) (area (unit_sz s) xs) \<longrightarrow> slobs s' x = slobs s x)"
      using slob_take_rep [OF h hit(1,2) _ hit(4)] n by auto
    then show ?thesis using hit(5) by auto
  next
    case miss
    have "\<forall>c \<in> set xs. unit_sz s c < n" using miss(1) units_pos [OF h] by fastforce
    then show ?thesis using miss(2) by blast
  qed
qed

text \<open>
  The heap and the page allocator: the free units of the heap lie outside the free pages \<open>F\<close>, and the
  arena header lies below them.
\<close>

definition page_units :: "page_ptr set \<Rightarrow> nat set" where
  "page_units P = {x. x div 512 \<in> P}"

definition heap_ok :: "mem_state \<Rightarrow> page_ptr set \<Rightarrow> nat set \<Rightarrow> bool" where
  "heap_ok s F U \<longleftrightarrow> heap_rep s U \<and> U \<inter> page_units F = {} \<and> (\<forall>p \<in> F. arena s + 1 < 512 * p) \<and>
     pmm_rep (farea s) F \<and> (\<forall>p \<in> F. p < npage s) \<and> npage s \<le> 2 ^ 20"

definition heap_grown :: "mem_state \<Rightarrow> mem_state \<Rightarrow> bool" where
  "heap_grown s' s \<longleftrightarrow> (\<exists>fa h f. s' = s\<lparr>farea := fa, slobs := h, slobfree := f\<rparr>) \<and>
     (\<forall>p. same_page (page_of s' p) (page_of s p))"

lemma page_units_page: "{512 * p..<512 * p + 512} = page_units {p}"
  by (auto simp: page_units_def)

lemma heap_ok_only:
  assumes "heap_ok s F U" "heap_only s' s" "heap_rep s' U'" "U' \<subseteq> U"
  shows "heap_ok s' F U'"
  using assms heap_only_sel [OF assms(2)] by (auto simp: heap_ok_def)

text \<open>The free list gets a page when no block is large enough.\<close>

lemma slob_grow:
  assumes ok: "heap_ok s F U" and c: "calm s F"
  shows "(F = {} \<and> slob_get_free_pages 0 s = Some (None, s)) \<or>
    (\<exists>p s1 s2 ys. p \<in> F \<and> slob_get_free_pages 0 s = Some (Some (512 * p), s1) \<and>
       slob_free (Some (512 * p)) PAGE_SIZE s1 = Some s2 \<and> heap_grown s2 s \<and> heap_ok s2 (F - {p}) (U \<union> page_units {p}) \<and>
       heap_list s2 ys \<and> area (unit_sz s2) ys = U \<union> page_units {p} \<and> (\<exists>y \<in> set ys. 512 \<le> unit_sz s2 y) \<and>
       (\<forall>x. x \<notin> insert (arena s) (U \<union> page_units F) \<longrightarrow> slobs s2 x = slobs s x))"
proof (cases "F = {}")
  case True
  then show ?thesis using alloc_page_calm [of s F] ok c by (auto simp: heap_ok_def slob_get_free_pages_def)
next
  case False
  then obtain p fa where a: "p \<in> F" "alloc_pages 1 s = Some (Some p, s\<lparr>farea := fa\<rparr>)" "pmm_rep fa (F - {p})"
    "\<forall>x. same_page (pages fa x) (page_of s x)"
    using alloc_page_calm [of s F] ok c by (auto simp: heap_ok_def)
  have p: "p < npage s" "npage s \<le> 2 ^ 20" using ok a(1) by (auto simp: heap_ok_def)
  let ?s1 = "s\<lparr>farea := fa\<rparr>"
  have "page2kva p ?s1 = Some p" using p by (simp add: page2kva_def KADDR_def)
  then have get: "slob_get_free_pages 0 s = Some (Some (512 * p), ?s1)" using a(2) by (simp add: slob_get_free_pages_def)
  have r1: "heap_rep ?s1 U" using ok by (simp add: heap_ok_def heap_rep_def heap_list_def)
  have bu: "block_units (512 * p) PAGE_SIZE ?s1 = int 512"
    by (simp add: block_units_def PAGE_SIZE_def SLOB_UNITS_def SLOB_UNIT_def)
  have dis: "{512 * p..<512 * p + 512} \<inter> U = {}" using ok a(1) unfolding page_units_page
    by (auto simp: heap_ok_def page_units_def)
  obtain s2 where f: "slob_free (Some (512 * p)) PAGE_SIZE ?s1 = Some s2" "heap_only s2 ?s1"
    "\<exists>ys. heap_list s2 ys \<and> area (unit_sz s2) ys = U \<union> {512 * p..<512 * p + 512} \<and> (\<exists>y \<in> set ys. 512 \<le> unit_sz s2 y)"
    "\<forall>x. x \<notin> insert (arena ?s1) (U \<union> {512 * p..<512 * p + 512}) \<longrightarrow> slobs s2 x = slobs ?s1 x"
    using slob_free_rep [OF r1 _ bu _ dis] ok a(1) by (auto simp: heap_ok_def)
  obtain ys where ys: "heap_list s2 ys" "area (unit_sz s2) ys = U \<union> page_units {p}" "\<exists>y \<in> set ys. 512 \<le> unit_sz s2 y"
    using f(3) unfolding page_units_page by blast
  have "heap_grown s2 s" using f(2) a(4) unfolding heap_only_def heap_grown_def by (auto simp: page_of_def)
  moreover have "heap_ok s2 (F - {p}) (U \<union> page_units {p})"
    using ok heap_only_sel [OF f(2)] ys(1,2) a(3) by (auto simp: heap_ok_def heap_rep_def page_units_def)
  moreover have "slobs s2 x = slobs s x" if "x \<notin> insert (arena s) (U \<union> page_units F)" for x
    using that f(4) a(1) unfolding page_units_page by (auto simp: page_units_def)
  ultimately show ?thesis using a(1) get f(1) ys by blast
qed

text \<open>
  An allocation takes \<open>SLOB_UNITS sz\<close> units that were free in the heap or in the page it got; it fails
  only when there is no free page.
\<close>

definition slob_taken :: "nat \<Rightarrow> nat \<Rightarrow> mem_state \<Rightarrow> page_ptr set \<Rightarrow> nat set \<Rightarrow> mem_state \<Rightarrow> page_ptr set \<Rightarrow> nat set \<Rightarrow> bool" where
  "slob_taken b n s' F' U' s F U \<longleftrightarrow> heap_grown s' s \<and> heap_ok s' F' U' \<and> F' \<subseteq> F \<and>
     U' \<union> {b..<b + n} = U \<union> page_units (F - F') \<and> {b..<b + n} \<inter> U' = {} \<and> units_of s' b = int n \<and>
     (\<forall>x. x \<notin> insert (arena s) (U \<union> page_units F) \<longrightarrow> slobs s' x = slobs s x)"

lemma heap_only_grown: "heap_only s' s \<Longrightarrow> heap_grown s' s"
  by (auto simp: heap_only_def heap_grown_def page_of_def same_page_def) (metis mem_state.surjective mem_state.update_convs(1))

lemma heap_grown_trans: "heap_grown s2 s1 \<Longrightarrow> heap_grown s1 s \<Longrightarrow> heap_grown s2 s"
  unfolding heap_grown_def by (elim conjE exE) (simp add: same_page_def page_of_def, blast)

lemma slob_alloc_ok:
  assumes ok: "heap_ok s F U" and c: "calm s F" and sz: "SLOB_UNIT < sz" "sz + SLOB_UNIT < PAGE_SIZE"
  shows "(F = {} \<and> slob_alloc sz 0 s = Some (None, s)) \<or>
    (\<exists>b s' F' U'. slob_alloc sz 0 s = Some (Some b, s') \<and> slob_taken b (SLOB_UNITS sz) s' F' U' s F U)"
proof -
  let ?n = "SLOB_UNITS sz"
  let ?go = "\<lambda>s. slob_search sz ?n 0 (slobfree s) (next_of s (slobfree s)) s"
  have n: "2 \<le> ?n" "?n \<le> 512" "sz \<noteq> PAGE_SIZE" using sz by (auto simp: SLOB_UNITS_def SLOB_UNIT_def PAGE_SIZE_def)
  have al: "slob_alloc sz 0 s = ?go s" using sz by (simp add: slob_alloc_def)
  obtain xs where h: "heap_list s xs" "area (unit_sz s) xs = U" using ok by (auto simp: heap_ok_def heap_rep_def)
  show ?thesis
    using slob_search_fits [OF h(1) n(1), of sz]
  proof (elim disjE exE conjE)
    fix b s' assume g: "?go s = Some (Some b, s')" "heap_only s' s" "heap_rep s' (area (unit_sz s) xs - {b..<b + ?n})"
      "{b..<b + ?n} \<subseteq> area (unit_sz s) xs" "units_of s' b = int ?n"
      "\<forall>x. x \<notin> insert (arena s) (area (unit_sz s) xs) \<longrightarrow> slobs s' x = slobs s x"
    have "slob_taken b ?n s' F (U - {b..<b + ?n}) s F U"
      using g heap_ok_only [OF ok g(2)] heap_only_grown [OF g(2)] h(2) by (auto simp: slob_taken_def page_units_def)
    then show ?thesis using g(1) al by auto
  next
    fix p assume small: "\<forall>c \<in> set xs. unit_sz s c < ?n" and go: "?go s = slob_search sz ?n 0 p (slobfree s) s"
    have "units_of s (slobfree s) < int ?n"
      using heap_listD(4,5) [OF h(1)] small n(1) units_pos [OF h(1)] by auto
    then have grow: "?go s = do { (p, s) \<leftarrow> slob_get_free_pages 0 s;
        case p of None \<Rightarrow> Some (None, s) | Some pg \<Rightarrow> do { s \<leftarrow> slob_free (Some pg) PAGE_SIZE s; ?go s } }"
      unfolding go using n(3) by (subst slob_search.simps) (simp add: slob_delta_def)
    show ?thesis
      using slob_grow [OF ok c]
    proof (elim disjE exE conjE)
      assume "F = {}" "slob_get_free_pages 0 s = Some (None, s)"
      then show ?thesis using al grow by simp
    next
      fix p s1 s2 ys
      assume g: "p \<in> F" "slob_get_free_pages 0 s = Some (Some (512 * p), s1)"
        "slob_free (Some (512 * p)) PAGE_SIZE s1 = Some s2" "heap_grown s2 s" "heap_ok s2 (F - {p}) (U \<union> page_units {p})"
        "heap_list s2 ys" "area (unit_sz s2) ys = U \<union> page_units {p}" "\<exists>y \<in> set ys. 512 \<le> unit_sz s2 y"
        "\<forall>x. x \<notin> insert (arena s) (U \<union> page_units F) \<longrightarrow> slobs s2 x = slobs s x"
      have "slob_alloc sz 0 s = ?go s2" using al grow g(2,3) by simp
      moreover have "\<not> (\<forall>c \<in> set ys. unit_sz s2 c < ?n)" using g(8) n(2) by (meson le_trans not_le)
      ultimately obtain b s' where t: "slob_alloc sz 0 s = Some (Some b, s')" "heap_only s' s2"
        "heap_rep s' (U \<union> page_units {p} - {b..<b + ?n})" "{b..<b + ?n} \<subseteq> U \<union> page_units {p}" "units_of s' b = int ?n"
        "\<forall>x. x \<notin> insert (arena s2) (U \<union> page_units {p}) \<longrightarrow> slobs s' x = slobs s2 x"
        using slob_search_fits [OF g(6) n(1), of sz] unfolding g(7) by metis
      have "arena s2 = arena s" using g(4) by (auto simp: heap_grown_def)
      then have "slobs s' x = slobs s x" if "x \<notin> insert (arena s) (U \<union> page_units F)" for x
        using that t(6) g(1,9) by (auto simp: page_units_def)
      then have "slob_taken b ?n s' (F - {p}) (U \<union> page_units {p} - {b..<b + ?n}) s F U"
        using t heap_ok_only [OF g(5) t(2,3)] heap_grown_trans [OF heap_only_grown [OF t(2)] g(4)] g(1)
        by (auto simp: slob_taken_def page_units_def)
      then show ?thesis using t(1) by blast
    qed
  qed
qed

section \<open>The properties\<close>

lemma heap_ok_above:
  assumes ok: "heap_ok s F U" and x: "x \<in> U \<union> page_units F"
  shows "arena s + 1 < x"
proof (cases "x \<in> U")
  case True
  then obtain xs where "heap_list s xs" "x \<in> area (unit_sz s) xs" using ok by (auto simp: heap_ok_def heap_rep_def)
  then show ?thesis by (auto simp: area_def dest!: heap_listD(3))
next
  case False
  then have "arena s + 1 < 512 * (x div 512)" using ok x by (auto simp: heap_ok_def page_units_def)
  then show ?thesis by (rule less_le_trans) simp
qed

lemma kmalloc_small:
  "sz < 4080 \<Longrightarrow> kmalloc sz s = do { (m, s) \<leftarrow> slob_alloc (sz + SLOB_UNIT) 0 s; Some (map_option Suc m, s) }"
  by (simp add: kmalloc_def PAGE_SIZE_def SLOB_UNIT_def)

lemma slob_units_ge: "sz \<le> 8 * (SLOB_UNITS (sz + SLOB_UNIT) - 1)" "0 < sz \<Longrightarrow> 2 \<le> SLOB_UNITS (sz + SLOB_UNIT)"
  by (simp_all add: SLOB_UNITS_def SLOB_UNIT_def)

text \<open>
  C22: A small \<open>kmalloc\<close> always returns.  The block it hands out has room for the request behind its
  header, consists of units that were free in the heap or lie in pages that were free, and is no longer
  among the free units, so it overlaps nothing in use; headers of blocks in use, page contents and the
  rest of the state are not touched.  It fails only when no page is free.
\<close>

theorem kmalloc_fresh:
  assumes "heap_ok s F U" "calm s F" "0 < sz" "sz < 4080"
  shows "(F = {} \<and> kmalloc sz s = Some (None, s)) \<or>
    (\<exists>b n s' F' U'. kmalloc sz s = Some (Some (b + 1), s') \<and> sz \<le> 8 * (n - 1) \<and> units_of s' b = int n \<and>
       heap_ok s' F' U' \<and> F' \<subseteq> F \<and> {b..<b + n} \<subseteq> U \<union> page_units (F - F') \<and> {b..<b + n} \<inter> U' = {} \<and>
       U' \<union> {b..<b + n} = U \<union> page_units (F - F') \<and> frames s' = frames s \<and>
       (\<forall>x. x \<notin> insert (arena s) (U \<union> page_units F) \<longrightarrow> slobs s' x = slobs s x))"
proof -
  have "SLOB_UNIT < sz + SLOB_UNIT" "sz + SLOB_UNIT + SLOB_UNIT < PAGE_SIZE"
    using assms(3,4) by (simp_all add: SLOB_UNIT_def PAGE_SIZE_def)
  note a = slob_alloc_ok [OF assms(1,2) this]
  show ?thesis
    using a
  proof (elim disjE exE conjE)
    fix b s' F' U'
    assume t: "slob_alloc (sz + SLOB_UNIT) 0 s = Some (Some b, s')" "slob_taken b (SLOB_UNITS (sz + SLOB_UNIT)) s' F' U' s F U"
    then have "kmalloc sz s = Some (Some (b + 1), s')" using assms(4) by (simp add: kmalloc_small)
    moreover have "frames s' = frames s" using t(2) by (auto simp: slob_taken_def heap_grown_def)
    moreover have "{b..<b + SLOB_UNITS (sz + SLOB_UNIT)} \<subseteq> U \<union> page_units (F - F')" using t(2) unfolding slob_taken_def by blast
    ultimately show ?thesis using t(2) slob_units_ge(1) [of sz] unfolding slob_taken_def
      by (intro disjI2 exI [of _ b] exI [of _ "SLOB_UNITS (sz + SLOB_UNIT)"] exI [of _ s'] exI [of _ F'] exI [of _ U'])
        simp
  qed (use assms(4) in \<open>simp add: kmalloc_small\<close>)
qed

definition ex_heap :: mem_state where
  "ex_heap = ex_mem\<lparr>farea := \<lparr>pages = (\<lambda>p. \<lparr>page_ref = 0, page_flags = (if p = 4 then 2 else 0),
     property = (if p = 4 then 3 else 0), zone_num = 0, pra_vaddr = 0\<rparr>), free_list = [4], nr_free = 3\<rparr>,
     slobs := (\<lambda>a. \<lparr>slob_units = 1, slob_next = 9\<rparr>), slobfree := 9, arena := 9\<rparr>"

lemma ex_heap_ok: "heap_ok ex_heap {4, 5, 6} {}" and ex_heap_calm: "calm ex_heap {4, 5, 6}"
  and ex_heap_big: "bigblocks ex_heap = []"
proof -
  have "area (prop_of (pages (farea ex_heap))) [4] = {4, 5, 6}" by (auto simp: ex_heap_def prop_of_def)
  then have "pmm_rep (farea ex_heap) {4, 5, 6}"
    by (simp add: pmm_rep_def ex_heap_def blocks_def prop_of_def PageProperty_def PG_property_def test_bit_nr_def)
  moreover have "heap_list ex_heap []" by (simp add: heap_list_def ex_heap_def blocks_def)
  ultimately show "heap_ok ex_heap {4, 5, 6} {}"
    by (auto simp: heap_ok_def heap_rep_def) (simp_all add: ex_heap_def)
  show "calm ex_heap {4, 5, 6}" by (simp add: calm_def)
  show "bigblocks ex_heap = []" by (simp add: ex_heap_def ex_mem_def)
qed

theorem kmalloc_fresh_witness:
  "\<exists>b n s' F' U'. kmalloc 100 ex_heap = Some (Some (b + 1), s') \<and> units_of s' b = int n \<and> 100 \<le> 8 * (n - 1) \<and>
     heap_ok s' F' U' \<and> {b..<b + n} \<inter> U' = {}"
  using kmalloc_fresh [OF ex_heap_ok ex_heap_calm, of 100] by (simp del: One_nat_def) blast

text \<open>
  C23: \<open>kfree\<close> undoes a small \<open>kmalloc\<close>: it ends, and the free units are those from before, together with
  the pages the heap has grown by.  \<open>ksize\<close> of the block covers the request.
\<close>

theorem kmalloc_kfree:
  assumes "heap_ok s F U" "calm s F" "0 < sz" "sz < 4080"
    and big: "\<forall>bb \<in> set (bigblocks s). bb_pages bb \<notin> U \<union> page_units F"
    and m: "kmalloc sz s = Some (Some a, s')"
  shows "\<exists>s'' F'. kfree (Some a) s' = Some s'' \<and> heap_ok s'' F' (U \<union> page_units (F - F')) \<and> F' \<subseteq> F \<and>
    frames s'' = frames s \<and> sz \<le> ksize (Some a) s'"
proof -
  have sz: "SLOB_UNIT < sz + SLOB_UNIT" "sz + SLOB_UNIT + SLOB_UNIT < PAGE_SIZE"
    using assms(3,4) by (simp_all add: SLOB_UNIT_def PAGE_SIZE_def)
  let ?n = "SLOB_UNITS (sz + SLOB_UNIT)"
  obtain b F' U' where t: "a = Suc b" "slob_taken b ?n s' F' U' s F U"
    using slob_alloc_ok [OF assms(1,2) sz] m assms(4) by (auto simp: kmalloc_small)
  have g: "heap_grown s' s" "heap_ok s' F' U'" "F' \<subseteq> F" "U' \<union> {b..<b + ?n} = U \<union> page_units (F - F')"
    "{b..<b + ?n} \<inter> U' = {}" "units_of s' b = int ?n" using t(2) unfolding slob_taken_def by auto
  have "page_units (F - F') \<subseteq> page_units F" by (auto simp: page_units_def)
  then have sub: "{b..<b + ?n} \<subseteq> U \<union> page_units F" using g(4) by blast
  have bs: "b \<in> {b..<b + ?n}" "Suc b \<in> {b..<b + ?n}" using slob_units_ge(2) [OF assms(3)] by simp_all
  then have "Suc b \<in> U \<union> page_units F" using sub by blast
  moreover have "bigblocks s' = bigblocks s" using g(1) by (auto simp: heap_grown_def)
  ultimately have nb: "find (\<lambda>bb. bb_pages bb = Suc b) (bigblocks s') = None"
    using big unfolding find_None_iff by metis
  have "sz \<le> ksize (Some a) s'" using nb t(1) g(6) slob_units_ge(1) [of sz] by (auto simp: ksize_def SLOB_UNIT_def)
  moreover have "b \<in> U \<union> page_units F" using bs(1) sub by blast
  then have "arena s' + 1 < b" using heap_ok_above [OF assms(1)] g(1) by (auto simp: heap_grown_def)
  moreover have "block_units b 0 s' = int ?n" "0 < ?n" using g(6) slob_units_ge(2) [OF assms(3)] by (simp_all add: block_units_def)
  moreover have "heap_rep s' U'" using g(2) by (simp add: heap_ok_def)
  ultimately obtain s'' where f: "slob_free (Some b) 0 s' = Some s''" "heap_only s'' s'" "heap_rep s'' (U' \<union> {b..<b + ?n})"
    using slob_free_rep [of s' U' b 0 ?n] g(5) unfolding heap_rep_def by blast
  have "kfree (Some a) s' = Some s''" using nb t(1) f(1) by (simp add: kfree_def)
  moreover have "heap_ok s'' F' (U \<union> page_units (F - F'))"
    using g(2,3) heap_only_sel [OF f(2)] f(3) assms(1) unfolding g(4) by (auto simp: heap_ok_def page_units_def)
  moreover have "frames s'' = frames s" using heap_only_sel(3) [OF f(2)] g(1) by (auto simp: heap_grown_def)
  ultimately show ?thesis using g(3) \<open>sz \<le> ksize (Some a) s'\<close> by blast
qed

theorem kmalloc_kfree_witness:
  "\<exists>a s' s'' F'. kmalloc 100 ex_heap = Some (Some a, s') \<and> kfree (Some a) s' = Some s'' \<and>
     heap_ok s'' F' (page_units ({4, 5, 6} - F')) \<and> 100 \<le> ksize (Some a) s'"
proof -
  have "SLOB_UNIT < 100 + SLOB_UNIT" "100 + SLOB_UNIT + SLOB_UNIT < PAGE_SIZE" by (simp_all add: SLOB_UNIT_def PAGE_SIZE_def)
  then obtain a s' where "kmalloc 100 ex_heap = Some (Some a, s')"
    using slob_alloc_ok [OF ex_heap_ok ex_heap_calm, of "100 + SLOB_UNIT"] by (auto simp: kmalloc_small)
  then show ?thesis using kmalloc_kfree [OF ex_heap_ok ex_heap_calm, of 100 a s'] by (auto simp: ex_heap_big)
qed

text \<open>
  C24: A request of 4080 to 4087 bytes stops the kernel: it is below the limit of \<open>__kmalloc\<close> for small
  blocks but, with its header, above the limit \<open>slob_alloc\<close> asserts.
\<close>

theorem kmalloc_gap:
  assumes "4080 \<le> sz" "sz < 4088"
  shows "kmalloc sz s = None"
  using assms by (simp add: kmalloc_def slob_alloc_def PAGE_SIZE_def SLOB_UNIT_def)

theorem kmalloc_gap_witness: "kmalloc 4080 ex_heap = None"
  by (rule kmalloc_gap) simp_all

lemma sint_in_range: "- (2 ^ 31) \<le> i \<Longrightarrow> i < 2 ^ 31 \<Longrightarrow> sint (word_of_int i :: u32) = i"
  by (subst sint_sbintrunc') (simp add: signed_take_bit_int_eq_self)

lemma find_order_nat:
  assumes "n < 2 ^ 31"
  shows "find_order (of_nat n) = (if 4096 < n then Suc (find_order (of_nat (n div 2))) else 0)"
proof -
  have sint: "sint (of_nat m :: u32) = int m" if "m < 2 ^ 31" for m
    using sint_in_range [of "int m"] that by simp
  have "sint (signed_drop_bit 1 (of_nat n :: u32)) = sint (of_nat (n div 2) :: u32)"
    using assms sint [of n] sint [of "n div 2"] by (simp add: sint_signed_drop_bit_eq drop_bit_eq_div zdiv_int)
  then have "signed_drop_bit 1 (of_nat n :: u32) = of_nat (n div 2)" by (rule signed_word_eqI)
  then show ?thesis using sint [OF assms] by (subst find_order.simps) simp
qed

lemma find_order_spec:
  "n < 2 ^ 31 \<Longrightarrow> n div 2 ^ find_order (of_nat n) \<le> 4096 \<and> (\<forall>i < find_order (of_nat n). 4096 < n div 2 ^ i)"
proof (induction n rule: less_induct)
  case (less n)
  show ?case
  proof (cases "4096 < n")
    case True
    have h: "n div 2 < n" "n div 2 < 2 ^ 31" using True less.prems by simp_all
    have "4096 < n div 2 ^ i" if "i < Suc (find_order (of_nat (n div 2)))" for i
      using less.IH [OF h] that True by (cases i) (auto simp: div_mult2_eq)
    then show ?thesis using less.IH [OF h] True find_order_nat [OF less.prems] by (auto simp: div_mult2_eq)
  qed (simp add: find_order_nat [OF less.prems])
qed

lemma find_order_negative:
  assumes "2 ^ 31 \<le> n" "n < 2 ^ 32"
  shows "find_order (of_nat n) = 0"
proof -
  have "(of_nat n :: u32) = word_of_int (int n - 2 ^ 32)"
    by simp
  then have "sint (of_nat n :: u32) = int n - 2 ^ 32" using sint_in_range [of "int n - 2 ^ 32"] assms by (simp only:) simp
  then show ?thesis by (subst find_order.simps) (use assms in simp)
qed

text \<open>
  C25: \<open>find_order\<close> gives too few pages for exactly these sizes: those of 2 GiB and more, which it takes
  for negative numbers, and those that exceed a power of two of pages by less than that power, because it
  rounds down while it halves the size (8193 bytes get two pages).  For all other sizes the pages are enough,
  and below 2 GiB no smaller power of two of pages would do.
\<close>

theorem find_order_short:
  assumes "n < 2 ^ 32"
  shows "(PAGE_SIZE * 2 ^ find_order (of_nat n) < n \<longleftrightarrow>
      2 ^ 31 \<le> n \<or> (\<exists>k r. 0 < r \<and> r < 2 ^ k \<and> n = 4096 * 2 ^ k + r)) \<and>
    (\<forall>i < find_order (of_nat n). PAGE_SIZE * 2 ^ i < n)"
proof (cases "2 ^ 31 \<le> n")
  case True
  then show ?thesis using find_order_negative [OF True assms] by (simp add: PAGE_SIZE_def)
next
  case False
  let ?k = "find_order (of_nat n)"
  have h: "n div 2 ^ ?k \<le> 4096" and l: "\<And>i. i < ?k \<Longrightarrow> 4096 < n div 2 ^ i"
    using find_order_spec [of n] False by auto
  have low: "4096 * 2 ^ i < n" if "i < ?k" for i
  proof -
    have "4097 \<le> n div 2 ^ i" using l [OF that] by simp
    then have "4097 * 2 ^ i \<le> n" by (simp add: less_eq_div_iff_mult_less_eq)
    moreover have "4096 * 2 ^ i < 4097 * (2 :: nat) ^ i" by simp
    ultimately show ?thesis by (rule less_le_trans [rotated])
  qed
  have "\<exists>k r. 0 < r \<and> r < 2 ^ k \<and> n = 4096 * 2 ^ k + r" if m: "4096 * 2 ^ ?k < n"
  proof (intro exI conjI)
    have "4096 \<le> n div 2 ^ ?k" using m by (simp add: less_eq_div_iff_mult_less_eq)
    then show n: "n = 4096 * 2 ^ ?k + n mod 2 ^ ?k" using h div_mult_mod_eq [of n "2 ^ ?k"] by simp
    show "0 < n mod 2 ^ ?k" using m n by linarith
    show "n mod 2 ^ ?k < 2 ^ ?k" by simp
  qed
  moreover have "4096 * 2 ^ ?k < n" if r: "0 < r" "r < 2 ^ k" "n = 4096 * 2 ^ k + r" for k r
  proof -
    have "n div 2 ^ k = 4096" using r by simp
    then have "?k \<le> k" using l [of k] by (metis leI less_irrefl)
    then have "(2 :: nat) ^ ?k \<le> 2 ^ k" by simp
    then show ?thesis using r by linarith
  qed
  ultimately show ?thesis using low False by (auto simp: PAGE_SIZE_def)
qed

theorem find_order_short_witness:
  "PAGE_SIZE * 2 ^ find_order 8193 < 8193 \<and> PAGE_SIZE * 2 ^ find_order 0x80000000 < 0x80000000"
proof -
  have "\<exists>k r. 0 < r \<and> r < 2 ^ k \<and> (8193 :: nat) = 4096 * 2 ^ k + r" by (intro exI [of _ 1]) simp
  then show ?thesis using find_order_short [of 8193] find_order_short [of "0x80000000"] by simp
qed

end
