(* ===== verification/Vmm.thy ===== *)
theory Vmm
  imports Kmalloc
begin

text \<open>
  Address spaces: kern/mm/vmm.c and kern/mm/vmm.h, with \<open>swap_in\<close> of kern/mm/swap.c.  The list of a
  \<open>mm_struct\<close> holds the areas in the order of their start addresses.  A block of the kernel heap is named
  in units of 8 bytes; \<open>kptr\<close> is the kernel address of a block and \<open>kblock\<close> the block at an address.
\<close>

section \<open>Creating address spaces and areas\<close>

definition kptr :: "nat \<Rightarrow> u32" where
  "kptr a = KERNBASE + of_nat (8 * a)"

definition kblock :: "u32 \<Rightarrow> nat" where
  "kblock p = unat (p - KERNBASE) div 8"

definition sizeof_mm :: nat where "sizeof_mm = 44"
definition sizeof_vma :: nat where "sizeof_vma = 24"

definition set_mm_count :: "mm_ptr \<Rightarrow> int \<Rightarrow> mem_state \<Rightarrow> mem_state" where
  "set_mm_count m v = upd_mm m (\<lambda>r. r\<lparr>mm_count := v\<rparr>)"

definition mm_count_inc :: "mm_ptr \<Rightarrow> mem_state \<Rightarrow> int \<times> mem_state" where
  "mm_count_inc m s = (let s = upd_mm m (\<lambda>r. r\<lparr>mm_count := mm_count r + 1\<rparr>) s in (mm_count (mms s m), s))"

definition mm_count_dec :: "mm_ptr \<Rightarrow> mem_state \<Rightarrow> int \<times> mem_state" where
  "mm_count_dec m s = (let s = upd_mm m (\<lambda>r. r\<lparr>mm_count := mm_count r - 1\<rparr>) s in (mm_count (mms s m), s))"

definition mm_create :: "mem_state \<Rightarrow> (mm_ptr option \<times> mem_state) option" where
  "mm_create s =
     do { (a, s) \<leftarrow> kmalloc sizeof_mm s;
          case a of
            None \<Rightarrow> Some (None, s)
          | Some a \<Rightarrow>
              do { let m = kptr a;
                   let s = upd_mm m (\<lambda>r. r\<lparr>mmap_list := [], mmap_cache := None, pgdir := None, map_count := 0\<rparr>) s;
                   s \<leftarrow> (if swap_init_ok s then do { (_, s) \<leftarrow> swap_init_mm (Some m) s; Some s }
                        else Some (upd_mm m (\<lambda>r. r\<lparr>sm_priv := False\<rparr>) s));
                   let s = set_mm_count m 0 s;
                   Some (Some m, upd_mm m (\<lambda>r. r\<lparr>mm_sem := 1\<rparr>) s) } }"

definition vma_create :: "u32 \<Rightarrow> u32 \<Rightarrow> u32 \<Rightarrow> mem_state \<Rightarrow> (vma_struct option \<times> mem_state) option" where
  "vma_create start fin flags s =
     do { (a, s) \<leftarrow> kmalloc sizeof_vma s;
          Some (map_option (\<lambda>a. \<lparr>vma_at = kptr a, vm_start = start, vm_end = fin, vm_flags = flags\<rparr>) a, s) }"

section \<open>Searching and inserting areas\<close>

definition vma_has :: "u32 \<Rightarrow> vma_struct \<Rightarrow> bool" where
  "vma_has addr v \<longleftrightarrow> vm_start v \<le> addr \<and> addr < vm_end v"

definition find_vma :: "mm_ptr option \<Rightarrow> u32 \<Rightarrow> mem_state \<Rightarrow> vma_struct option \<times> mem_state" where
  "find_vma mm addr s =
     (case mm of
        None \<Rightarrow> (None, s)
      | Some m \<Rightarrow>
          let vma = mmap_cache (mms s m);
              vma = (if \<not> (case vma of None \<Rightarrow> False | Some v \<Rightarrow> vm_start v \<le> addr \<and> vm_end v > addr) then
                       find (vma_has addr) (mmap_list (mms s m))
                     else vma)
          in (vma, if vma \<noteq> None then upd_mm m (\<lambda>r. r\<lparr>mmap_cache := vma\<rparr>) s else s))"

definition check_vma_overlap :: "vma_struct \<Rightarrow> vma_struct \<Rightarrow> unit option" where
  "check_vma_overlap prev nxt =
     do { kassert (vm_start prev < vm_end prev);
          kassert (vm_end prev \<le> vm_start nxt);
          kassert (vm_start nxt < vm_end nxt) }"

definition insert_vma_struct :: "mm_ptr \<Rightarrow> vma_struct \<Rightarrow> mem_state \<Rightarrow> mem_state option" where
  "insert_vma_struct m vma s =
     do { kassert (vm_start vma < vm_end vma);
          let before = takeWhile (\<lambda>v. \<not> vm_start v > vm_start vma) (mmap_list (mms s m));
          let after = dropWhile (\<lambda>v. \<not> vm_start v > vm_start vma) (mmap_list (mms s m));
          (if before \<noteq> [] then check_vma_overlap (last before) vma else Some ());
          (if after \<noteq> [] then check_vma_overlap vma (hd after) else Some ());
          Some (upd_mm m (\<lambda>r. r\<lparr>mmap_list := before @ vma # after, map_count := map_count r + 1\<rparr>) s) }"

fun free_vmas :: "mm_ptr \<Rightarrow> vma_struct list \<Rightarrow> mem_state \<Rightarrow> mem_state option" where
  "free_vmas m [] s = Some s"
| "free_vmas m (v # vs) s =
     do { let s = upd_mm m (\<lambda>r. r\<lparr>mmap_list := vs\<rparr>) s;
          s \<leftarrow> kfree (Some (kblock (vma_at v))) s;
          free_vmas m vs s }"

definition mm_destroy :: "mm_ptr \<Rightarrow> mem_state \<Rightarrow> mem_state option" where
  "mm_destroy m s =
     do { kassert (mm_count (mms s m) = 0);
          s \<leftarrow> free_vmas m (mmap_list (mms s m)) s;
          kfree (Some (kblock m)) s }"

definition mm_map :: "mm_ptr option \<Rightarrow> u32 \<Rightarrow> u32 \<Rightarrow> u32 \<Rightarrow> mem_state \<Rightarrow> (int \<times> vma_struct option \<times> mem_state) option" where
  "mm_map mm addr len flags s =
     (let start = ROUNDDOWN addr PGSIZE; fin = ROUNDUP (addr + len) PGSIZE in
      if \<not> USER_ACCESS start fin then Some (err E_INVAL, None, s)
      else
        do { m \<leftarrow> mm;
             let (v, s) = find_vma (Some m) start s;
             if (case v of None \<Rightarrow> False | Some v \<Rightarrow> fin > vm_start v) then Some (err E_INVAL, None, s)
             else
               do { (v, s) \<leftarrow> vma_create start fin flags s;
                    case v of
                      None \<Rightarrow> Some (err E_NO_MEM, None, s)
                    | Some v \<Rightarrow> do { s \<leftarrow> insert_vma_struct m v s; Some (0, Some v, s) } } })"

section \<open>Copying and leaving an address space\<close>

text \<open>\<open>dup_mmap\<close> goes through the areas from the last to the first.\<close>

fun dup_vmas :: "mm_ptr \<Rightarrow> mm_ptr \<Rightarrow> vma_struct list \<Rightarrow> mem_state \<Rightarrow> (int \<times> mem_state) option" where
  "dup_vmas to_mm from_mm [] s = Some (0, s)"
| "dup_vmas to_mm from_mm (v # vs) s =
     do { (n, s) \<leftarrow> vma_create (vm_start v) (vm_end v) (vm_flags v) s;
          case n of
            None \<Rightarrow> Some (err E_NO_MEM, s)
          | Some n \<Rightarrow>
              do { s \<leftarrow> insert_vma_struct to_mm n s;
                   to_pd \<leftarrow> pgdir (mms s to_mm);
                   from_pd \<leftarrow> pgdir (mms s from_mm);
                   (r, s) \<leftarrow> copy_range to_pd from_pd (vm_start v) (vm_end v) False s;
                   if r \<noteq> 0 then Some (err E_NO_MEM, s) else dup_vmas to_mm from_mm vs s } }"

definition dup_mmap :: "mm_ptr option \<Rightarrow> mm_ptr option \<Rightarrow> mem_state \<Rightarrow> (int \<times> mem_state) option" where
  "dup_mmap to_mm from_mm s =
     do { to_mm \<leftarrow> to_mm;
          from_mm \<leftarrow> from_mm;
          dup_vmas to_mm from_mm (rev (mmap_list (mms s from_mm))) s }"

fun unmap_vmas :: "nat option \<Rightarrow> vma_struct list \<Rightarrow> mem_state \<Rightarrow> mem_state option" where
  "unmap_vmas pd [] s = Some s"
| "unmap_vmas pd (v # vs) s =
     do { d \<leftarrow> pd; s \<leftarrow> unmap_range d (vm_start v) (vm_end v) s; unmap_vmas pd vs s }"

fun exit_vmas :: "nat option \<Rightarrow> vma_struct list \<Rightarrow> mem_state \<Rightarrow> mem_state option" where
  "exit_vmas pd [] s = Some s"
| "exit_vmas pd (v # vs) s =
     do { d \<leftarrow> pd; s \<leftarrow> exit_range d (vm_start v) (vm_end v) s; exit_vmas pd vs s }"

definition exit_mmap :: "mm_ptr option \<Rightarrow> mem_state \<Rightarrow> mem_state option" where
  "exit_mmap mm s =
     do { m \<leftarrow> mm;
          kassert (mm_count (mms s m) = 0);
          let pd = pgdir (mms s m);
          let vs = mmap_list (mms s m);
          s \<leftarrow> unmap_vmas pd vs s;
          exit_vmas pd vs s }"

section \<open>Page faults\<close>

definition swap_in :: "mm_ptr \<Rightarrow> u32 \<Rightarrow> mem_state \<Rightarrow> (int \<times> page_ptr \<times> mem_state) option" where
  "swap_in m addr s =
     do { (r, s) \<leftarrow> alloc_pages 1 s;
          p \<leftarrow> r;
          pd \<leftarrow> pgdir (mms s m);
          a \<leftarrow> lookup_pte pd addr s;
          ptep \<leftarrow> a;
          (r, s) \<leftarrow> swapfs_read (rd s ptep) p s;
          (if r \<noteq> 0 then kassert (r \<noteq> 0) else Some ());
          Some (0, p, s) }"

text \<open>The check of the error code against the flags of the area.\<close>

definition pgfault_denied :: "u32 \<Rightarrow> vma_struct \<Rightarrow> bool" where
  "pgfault_denied error_code v =
     (let c = error_code AND 3 in
      if c = 1 then True
      else if c = 0 then vm_flags v AND (VM_READ OR VM_EXEC) = 0
      else vm_flags v AND VM_WRITE = 0)"

definition pgfault_map :: "mm_ptr \<Rightarrow> u32 \<Rightarrow> u32 \<Rightarrow> mem_state \<Rightarrow> (int \<times> mem_state) option" where
  "pgfault_map m addr perm s =
     do { pd \<leftarrow> pgdir (mms s m);
          (r, s) \<leftarrow> get_pte pd addr True s;
          case r of
            None \<Rightarrow> Some (err E_NO_MEM, s)
          | Some ptep \<Rightarrow>
              if rd s ptep = 0 then
                do { (p, s) \<leftarrow> pgdir_alloc_page pd addr perm s;
                     Some (if p = None then err E_NO_MEM else 0, s) }
              else
                do { kassert (\<not> present (rd s ptep));
                     if swap_init_ok s then
                       do { (ret, p, s) \<leftarrow> swap_in m addr s;
                            if ret \<noteq> 0 then Some (ret, s)
                            else
                              do { (_, s) \<leftarrow> page_insert pd p addr perm s;
                                   (_, s) \<leftarrow> swap_map_swappable (Some m) addr p True s;
                                   Some (0, mod_page p (\<lambda>r. r\<lparr>pra_vaddr := addr\<rparr>) s) } }
                     else Some (err E_NO_MEM, s) } }"

definition do_pgfault :: "mm_ptr option \<Rightarrow> u32 \<Rightarrow> u32 \<Rightarrow> mem_state \<Rightarrow> (int \<times> mem_state) option" where
  "do_pgfault mm error_code addr s =
     (let (vma, s) = find_vma mm addr s; s = s\<lparr>pgfault_num := pgfault_num s + 1\<rparr> in
      case vma of
        None \<Rightarrow> Some (err E_INVAL, s)
      | Some v \<Rightarrow>
          if vm_start v > addr then Some (err E_INVAL, s)
          else if pgfault_denied error_code v then Some (err E_INVAL, s)
          else
            do { let perm = (if vm_flags v AND VM_WRITE \<noteq> 0 then PTE_U OR PTE_W else PTE_U);
                 m \<leftarrow> mm;
                 pgfault_map m (ROUNDDOWN addr PGSIZE) perm s })"

section \<open>Checking user memory\<close>

lemma find_vma_has: "find_vma mm addr s = (Some v, s') \<Longrightarrow> vma_has addr v"
  by (auto simp: find_vma_def Let_def vma_has_def find_Some_iff split: option.splits if_splits)

function user_mem_loop :: "mm_ptr \<Rightarrow> bool \<Rightarrow> u32 \<Rightarrow> u32 \<Rightarrow> mem_state \<Rightarrow> bool \<times> mem_state" where
  "user_mem_loop m wflag start fin s =
     (if start < fin then
        case find_vma (Some m) start s of
          (None, s) \<Rightarrow> (False, s)
        | (Some v, s) \<Rightarrow>
            if start < vm_start v then (False, s)
            else if vm_flags v AND (if wflag then VM_WRITE else VM_READ) = 0 then (False, s)
            else if wflag \<and> vm_flags v AND VM_STACK \<noteq> 0 \<and> start < vm_start v + PGSIZE then (False, s)
            else user_mem_loop m wflag (vm_end v) fin s
      else (True, s))"
  by pat_completeness auto
termination
  by (relation "measure (\<lambda>(m, w, start, fin, s). unat fin - unat start)")
    (auto dest!: find_vma_has [OF sym] simp: vma_has_def word_less_nat_alt)

declare user_mem_loop.simps [simp del]

definition user_mem_check :: "mm_ptr option \<Rightarrow> u32 \<Rightarrow> u32 \<Rightarrow> bool \<Rightarrow> mem_state \<Rightarrow> bool \<times> mem_state" where
  "user_mem_check mm addr len wflag s =
     (case mm of
        Some m \<Rightarrow>
          if \<not> USER_ACCESS addr (addr + len) then (False, s)
          else user_mem_loop m wflag addr (addr + len) s
      | None \<Rightarrow> (KERN_ACCESS addr (addr + len), s))"

section \<open>The areas of an address space\<close>

definition vmas_ok :: "vma_struct list \<Rightarrow> bool" where
  "vmas_ok vs \<longleftrightarrow> sorted_wrt (\<lambda>a b. vm_end a \<le> vm_start b) vs \<and> (\<forall>v \<in> set vs. vm_start v < vm_end v)"

definition mm_ok :: "mem_state \<Rightarrow> mm_ptr \<Rightarrow> bool" where
  "mm_ok s m \<longleftrightarrow> vmas_ok (mmap_list (mms s m)) \<and> map_count (mms s m) = int (length (mmap_list (mms s m))) \<and>
     (\<forall>v. mmap_cache (mms s m) = Some v \<longrightarrow> v \<in> set (mmap_list (mms s m)))"

definition apart :: "vma_struct \<Rightarrow> vma_struct \<Rightarrow> bool" where
  "apart v w \<longleftrightarrow> vm_end v \<le> vm_start w \<or> vm_end w \<le> vm_start v"

lemma vmas_ok_append:
  "vmas_ok (xs @ ys) \<longleftrightarrow> vmas_ok xs \<and> vmas_ok ys \<and> (\<forall>x \<in> set xs. \<forall>y \<in> set ys. vm_end x \<le> vm_start y)"
  by (auto simp: vmas_ok_def sorted_wrt_append)

lemma vmas_ok_Cons:
  "vmas_ok (v # vs) \<longleftrightarrow> vm_start v < vm_end v \<and> vmas_ok vs \<and> (\<forall>w \<in> set vs. vm_end v \<le> vm_start w)"
  by (auto simp: vmas_ok_def)

lemma vmas_ok_unique:
  assumes "vmas_ok vs" "v \<in> set vs" "w \<in> set vs" "vma_has a v" "vma_has a w"
  shows "v = w"
  using assms
proof (induction vs)
  case (Cons x vs)
  then show ?case by (auto simp: vmas_ok_Cons vma_has_def)
qed simp

lemma vmas_ok_apart:
  assumes "vmas_ok vs" "v \<in> set vs" "w \<in> set vs" "w \<noteq> v"
  shows "apart v w"
  using assms by (induction vs) (auto simp: vmas_ok_Cons apart_def)

text \<open>Where the new area goes.\<close>

lemma insert_split:
  assumes ok: "vmas_ok vs" and v: "vm_start v < vm_end v"
    and pre: "pre = takeWhile (\<lambda>w. \<not> vm_start w > vm_start v) vs" and post: "post = dropWhile (\<lambda>w. \<not> vm_start w > vm_start v) vs"
  shows "vs = pre @ post" "w \<in> set pre \<Longrightarrow> apart v w \<longleftrightarrow> vm_end w \<le> vm_start v"
    "w \<in> set post \<Longrightarrow> apart v w \<longleftrightarrow> vm_end v \<le> vm_start w"
proof -
  show vs: "vs = pre @ post" by (simp add: pre post)
  show "apart v w \<longleftrightarrow> vm_end w \<le> vm_start v" if "w \<in> set pre"
  proof -
    have "vm_start w \<le> vm_start v" using that set_takeWhileD [of w _ vs] by (fastforce simp: pre)
    then show ?thesis using v by (auto simp: apart_def)
  qed
  show "apart v w \<longleftrightarrow> vm_end v \<le> vm_start w" if w: "w \<in> set post"
  proof -
    obtain h t where ht: "post = h # t" using w by (cases post) auto
    have "vm_start v < vm_start h" using hd_dropWhile [of "\<lambda>w. \<not> vm_start w > vm_start v" vs, folded post] ht by simp
    moreover have "vm_start w < vm_end w" using w ok by (simp add: vs vmas_ok_def)
    moreover have "vm_start h \<le> vm_start w" using w ok ht by (fastforce simp: vs vmas_ok_append vmas_ok_Cons)
    ultimately show ?thesis by (auto simp: apart_def)
  qed
qed

lemma last_before:
  "vmas_ok pre \<Longrightarrow> pre \<noteq> [] \<Longrightarrow> (\<forall>w \<in> set pre. vm_end w \<le> a) \<longleftrightarrow> vm_end (last pre) \<le> a"
proof (induction pre rule: rev_induct)
  case (snoc x xs)
  then show ?case by (auto simp: vmas_ok_append vmas_ok_Cons)
qed simp

lemma hd_after:
  "vmas_ok post \<Longrightarrow> post \<noteq> [] \<Longrightarrow> (\<forall>w \<in> set post. a \<le> vm_start w) \<longleftrightarrow> a \<le> vm_start (hd post)"
  by (cases post) (fastforce simp: vmas_ok_Cons)+

lemma insert_vma_struct_eq:
  assumes ok: "vmas_ok (mmap_list (mms s m))"
  shows "insert_vma_struct m v s =
    (if vm_start v < vm_end v \<and> (\<forall>w \<in> set (mmap_list (mms s m)). apart v w) then
       Some (upd_mm m (\<lambda>r. r\<lparr>mmap_list := takeWhile (\<lambda>w. \<not> vm_start w > vm_start v) (mmap_list (mms s m)) @
         v # dropWhile (\<lambda>w. \<not> vm_start w > vm_start v) (mmap_list (mms s m)), map_count := map_count r + 1\<rparr>) s)
     else None)"
proof (cases "vm_start v < vm_end v")
  case True
  define pre where pre: "pre = takeWhile (\<lambda>w. \<not> vm_start w > vm_start v) (mmap_list (mms s m))"
  define post where post: "post = dropWhile (\<lambda>w. \<not> vm_start w > vm_start v) (mmap_list (mms s m))"
  note sp = insert_split [OF ok True pre post]
  have okp: "vmas_ok pre" "vmas_ok post" using ok unfolding sp(1) vmas_ok_append by blast+
  have "(\<forall>w \<in> set (mmap_list (mms s m)). apart v w) \<longleftrightarrow> (\<forall>w \<in> set pre. apart v w) \<and> (\<forall>w \<in> set post. apart v w)"
    unfolding sp(1) by auto
  also have "\<dots> \<longleftrightarrow> (pre = [] \<or> vm_end (last pre) \<le> vm_start v) \<and> (post = [] \<or> vm_end v \<le> vm_start (hd post))"
    using last_before [OF okp(1), of "vm_start v"] hd_after [OF okp(2), of "vm_end v"] sp(2,3)
    by (cases "pre = []"; cases "post = []") simp_all
  finally have all: "(\<forall>w \<in> set (mmap_list (mms s m)). apart v w) \<longleftrightarrow>
    (pre = [] \<or> vm_end (last pre) \<le> vm_start v) \<and> (post = [] \<or> vm_end v \<le> vm_start (hd post))" .
  have ne: "pre \<noteq> [] \<Longrightarrow> vm_start (last pre) < vm_end (last pre)" "post \<noteq> [] \<Longrightarrow> vm_start (hd post) < vm_end (hd post)"
    using okp by (auto simp: vmas_ok_def)
  show ?thesis unfolding insert_vma_struct_def check_vma_overlap_def Let_def all pre [symmetric] post [symmetric]
    using True ne by (cases "pre = []"; cases "post = []") (simp_all add: kassert_def)
qed (simp add: insert_vma_struct_def kassert_def)

lemma insert_vmas_ok:
  assumes ok: "vmas_ok vs" and v: "vm_start v < vm_end v" and ap: "\<forall>w \<in> set vs. apart v w"
  shows "vmas_ok (takeWhile (\<lambda>w. \<not> vm_start w > vm_start v) vs @ v # dropWhile (\<lambda>w. \<not> vm_start w > vm_start v) vs)"
proof -
  define pre where pre: "pre = takeWhile (\<lambda>w. \<not> vm_start w > vm_start v) vs"
  define post where post: "post = dropWhile (\<lambda>w. \<not> vm_start w > vm_start v) vs"
  note sp = insert_split [OF ok v pre post]
  have "vmas_ok (pre @ v # post)"
    using ok ap v sp(2,3) unfolding sp(1) vmas_ok_append vmas_ok_Cons by auto
  then show ?thesis by (simp add: pre post)
qed

lemma upd_mm_sel [simp]: "mms (upd_mm m f s) m' = (if m' = m then f (mms s m) else mms s m')"
  by (simp add: upd_mm_def)

lemma set_takeWhile_dropWhile: "set (takeWhile P xs) \<union> set (dropWhile P xs) = set xs"
  by (metis set_append takeWhile_dropWhile_id)

section \<open>Looking up an address\<close>

text \<open>The search of \<open>find_vma\<close>, without its cache.\<close>

definition vma_at_addr :: "vma_struct list \<Rightarrow> u32 \<Rightarrow> vma_struct option" where
  "vma_at_addr vs addr = find (vma_has addr) vs"

lemma vma_at_addrD: "vma_at_addr vs a = Some v \<Longrightarrow> v \<in> set vs \<and> vma_has a v"
  by (auto simp: vma_at_addr_def find_Some_iff)

lemma vma_at_addrI:
  assumes "vmas_ok vs" "v \<in> set vs" "vma_has a v"
  shows "vma_at_addr vs a = Some v"
proof -
  have "vma_at_addr vs a \<noteq> None" using assms(2,3) unfolding vma_at_addr_def find_None_iff by blast
  then obtain w where w: "vma_at_addr vs a = Some w" by blast
  then show ?thesis using vmas_ok_unique [OF assms(1), of v w a] vma_at_addrD [OF w] assms by simp
qed

definition cache_only :: "mm_ptr \<Rightarrow> mem_state \<Rightarrow> mem_state \<Rightarrow> bool" where
  "cache_only m s' s \<longleftrightarrow> (\<exists>c. s' = upd_mm m (\<lambda>r. r\<lparr>mmap_cache := c\<rparr>) s)"

lemma cache_only_refl [simp]: "cache_only m s s"
  by (auto simp: cache_only_def upd_mm_def intro!: exI [of _ "mmap_cache (mms s m)"])

lemma cache_only_trans: "cache_only m s2 s1 \<Longrightarrow> cache_only m s1 s \<Longrightarrow> cache_only m s2 s"
  by (auto simp: cache_only_def upd_mm_def)

lemma cache_only_sel:
  assumes "cache_only m s' s"
  shows "mmap_list (mms s' m) = mmap_list (mms s m)" "pgdir (mms s' m) = pgdir (mms s m)"
    "sm_priv (mms s' m) = sm_priv (mms s m)" "frames s' = frames s" "farea s' = farea s"
  using assms by (auto simp: cache_only_def upd_mm_def)

lemma find_vma_ok:
  assumes ok: "mm_ok s m"
  shows "\<exists>s'. find_vma (Some m) a s = (vma_at_addr (mmap_list (mms s m)) a, s') \<and> cache_only m s' s \<and> mm_ok s' m"
proof -
  let ?vs = "mmap_list (mms s m)"
  have cached: "vma_at_addr ?vs a = mmap_cache (mms s m)"
    if "(case mmap_cache (mms s m) of None \<Rightarrow> False | Some v \<Rightarrow> vm_start v \<le> a \<and> vm_end v > a)"
    using that ok vma_at_addrI [of ?vs _ a] by (auto simp: mm_ok_def vma_has_def split: option.splits)
  obtain v s' where f: "find_vma (Some m) a s = (v, s')" by fastforce
  then have v: "v = vma_at_addr ?vs a" using cached by (auto simp: find_vma_def Let_def vma_at_addr_def split: if_splits)
  have s': "s' = (if v \<noteq> None then upd_mm m (\<lambda>r. r\<lparr>mmap_cache := v\<rparr>) s else s)"
    using f by (auto simp: find_vma_def Let_def)
  then have "cache_only m s' s" by (cases "v = None") (simp, auto simp only: cache_only_def not_False_eq_True if_True)
  moreover have "mm_ok s' m" using ok v vma_at_addrD [of ?vs a] by (auto simp: s' mm_ok_def)
  ultimately show ?thesis using f v by blast
qed

section \<open>Access to a range\<close>

text \<open>What \<open>user_mem_check\<close> asks of the area that holds an address of the range from \<open>start\<close>.\<close>

definition usable :: "bool \<Rightarrow> u32 \<Rightarrow> vma_struct \<Rightarrow> bool" where
  "usable wflag start v \<longleftrightarrow> vm_flags v AND (if wflag then VM_WRITE else VM_READ) \<noteq> 0 \<and>
     \<not> (wflag \<and> vm_flags v AND VM_STACK \<noteq> 0 \<and> max start (vm_start v) < vm_start v + PGSIZE)"

definition covered :: "vma_struct list \<Rightarrow> bool \<Rightarrow> u32 \<Rightarrow> u32 \<Rightarrow> bool" where
  "covered vs wflag start fin \<longleftrightarrow> (\<forall>a. start \<le> a \<and> a < fin \<longrightarrow> (\<exists>v \<in> set vs. vma_has a v \<and> usable wflag start v))"

lemma covered_step:
  assumes ok: "vmas_ok vs" and v: "v \<in> set vs" "vma_has start v" and lt: "start < fin"
  shows "covered vs wflag start fin \<longleftrightarrow> usable wflag start v \<and> covered vs wflag (vm_end v) fin"
proof -
  have only: "u = v" if "u \<in> set vs" "vma_has start u" for u using vmas_ok_unique [OF ok that(1) v(1) that(2) v(2)] .
  have inside: "vma_has a v" if "start \<le> a" "a < vm_end v" for a using v(2) that by (auto simp: vma_has_def)
  have later: "usable wflag (vm_end v) u \<longleftrightarrow> usable wflag start u" if "u \<in> set vs" "vma_has a u" "vm_end v \<le> a" for a u
  proof -
    have "u \<noteq> v" using that(2,3) by (auto simp: vma_has_def)
    then have "vm_end v \<le> vm_start u \<or> vm_end u \<le> vm_start v"
      using vmas_ok_apart [OF ok v(1) that(1)] by (auto simp: apart_def)
    then have "vm_end v \<le> vm_start u" using that(2,3) v(2) by (auto simp: vma_has_def)
    moreover have "start < vm_end v" using v(2) by (simp add: vma_has_def)
    ultimately have "max (vm_end v) (vm_start u) = vm_start u" "max start (vm_start u) = vm_start u"
      by (auto intro!: max_absorb2)
    then show ?thesis unfolding usable_def by simp
  qed
  show ?thesis
  proof (intro iffI conjI)
    assume c: "covered vs wflag start fin"
    then obtain u where "u \<in> set vs" "vma_has start u" "usable wflag start u" using lt unfolding covered_def by blast
    then show "usable wflag start v" using only by blast
    show "covered vs wflag (vm_end v) fin"
      unfolding covered_def
    proof (intro allI impI)
      fix a assume a: "vm_end v \<le> a \<and> a < fin"
      then have "start \<le> a" using v(2) by (auto simp: vma_has_def)
      then show "\<exists>u \<in> set vs. vma_has a u \<and> usable wflag (vm_end v) u" using c a later unfolding covered_def by blast
    qed
  next
    assume c: "usable wflag start v \<and> covered vs wflag (vm_end v) fin"
    show "covered vs wflag start fin"
      unfolding covered_def
    proof (intro allI impI)
      fix a assume a: "start \<le> a \<and> a < fin"
      show "\<exists>u \<in> set vs. vma_has a u \<and> usable wflag start u"
      proof (cases "a < vm_end v")
        case True
        then show ?thesis using inside a c v(1) by blast
      next
        case False
        then show ?thesis using c a later unfolding covered_def by (metis not_less)
      qed
    qed
  qed
qed

lemma user_mem_loop_ok:
  assumes "mm_ok s m"
  shows "\<exists>s'. user_mem_loop m wflag start fin s = (covered (mmap_list (mms s m)) wflag start fin, s') \<and>
    cache_only m s' s \<and> mm_ok s' m"
  using assms
proof (induction m wflag start fin s rule: user_mem_loop.induct)
  case (1 m wflag start fin s)
  obtain s1 where f: "find_vma (Some m) start s = (vma_at_addr (mmap_list (mms s m)) start, s1)" "cache_only m s1 s" "mm_ok s1 m"
    using find_vma_ok [OF "1.prems"] by blast
  let ?vs = "mmap_list (mms s m)"
  have ok: "vmas_ok ?vs" using "1.prems" by (simp add: mm_ok_def)
  show ?case
  proof (cases "start < fin")
    case False
    then show ?thesis using "1.prems" by (subst user_mem_loop.simps) (auto simp: covered_def)
  next
    case lt: True
    show ?thesis
    proof (cases "vma_at_addr ?vs start")
      case None
      then have "\<not> covered ?vs wflag start fin" using lt unfolding covered_def vma_at_addr_def find_None_iff by blast
      then show ?thesis using f None lt by (subst user_mem_loop.simps) auto
    next
      case (Some v)
      note v = vma_at_addrD [OF Some]
      have st: "\<not> start < vm_start v" "max start (vm_start v) = start" using v by (auto simp: vma_has_def max_def)
      note step = covered_step [OF ok conjunct1 [OF v] conjunct2 [OF v] lt, of wflag]
      show ?thesis
      proof (cases "usable wflag start v")
        case True
        then have "user_mem_loop m wflag start fin s = user_mem_loop m wflag (vm_end v) fin s1"
          using f Some lt st unfolding usable_def by (subst user_mem_loop.simps) auto
        moreover obtain s2 where "user_mem_loop m wflag (vm_end v) fin s1 = (covered (mmap_list (mms s1 m)) wflag (vm_end v) fin, s2)"
          "cache_only m s2 s1" "mm_ok s2 m"
          using "1.IH" [OF lt f(1) [symmetric] Some st(1)] True f(3) st(2) unfolding usable_def by auto
        ultimately show ?thesis using step True cache_only_sel(1) [OF f(2)] cache_only_trans [OF _ f(2)] by auto
      next
        case False
        then have "user_mem_loop m wflag start fin s = (False, s1)"
          using f Some lt st unfolding usable_def by (subst user_mem_loop.simps) auto
        then show ?thesis using f(2,3) step False by simp
      qed
    qed
  qed
qed

section \<open>Demand paging\<close>

text \<open>A page that has just been allocated can be mapped.\<close>

lemma alloc_data_page:
  assumes ok: "mem_ok s F D" and c: "calm s F"
  shows "(F = {} \<and> alloc_pages 1 s = Some (None, s)) \<or>
    (\<exists>p fa. p \<in> F \<and> alloc_pages 1 s = Some (Some p, s\<lparr>farea := fa\<rparr>) \<and> mem_ok (s\<lparr>farea := fa\<rparr>) (F - {p}) D \<and>
       data_page (s\<lparr>farea := fa\<rparr>) (F - {p}) D p \<and> page_ref (pages fa p) = 0 \<and> same_ctl (s\<lparr>farea := fa\<rparr>) s \<and>
       (\<forall>x. same_page (pages fa x) (page_of s x)))"
proof (cases "F = {}")
  case True
  then show ?thesis using alloc_page_calm [OF mem_okD(1) [OF ok] c] by blast
next
  case False
  then obtain p fa where al: "p \<in> F" "alloc_pages 1 s = Some (Some p, s\<lparr>farea := fa\<rparr>)" "pmm_rep fa (F - {p})"
    "\<forall>x. same_page (pages fa x) (page_of s x)"
    using alloc_page_calm [OF mem_okD(1) [OF ok] c] by blast
  note t = mem_okD(3) [OF ok]
  have p: "p < npage s" "p \<notin> D \<union> tables s D"
    using mem_okD(5) [OF ok al(1)] al(1) tables_okD(3) [OF t] tables_free [OF t] by blast+
  have ok1: "mem_ok (s\<lparr>farea := fa\<rparr>) (F - {p}) D" by (rule mem_ok_alloc [OF ok al(3) _ al(4)]) auto
  have us: "use_set (s\<lparr>farea := fa\<rparr>) D p = {}"
    using maps_okD(2) [OF mem_okD(4) [OF ok]] al(1) by (fastforce simp: use_set_def mapped_def)
  have r0: "page_ref (pages fa p) = 0" using al(4) mem_okD(7) [OF ok al(1)] by (simp add: same_page_def)
  have "data_page (s\<lparr>farea := fa\<rparr>) (F - {p}) D p"
    using p us mem_okD(6) [OF ok al(1)] al(4) r0 by (simp add: data_page_def page_of_def same_page_def)
  moreover have "same_ctl (s\<lparr>farea := fa\<rparr>) s" using al(4) by (simp add: same_ctl_def page_of_def same_page_def)
  ultimately show ?thesis using al ok1 r0 by blast
qed

lemma PPN_ROUNDDOWN: "PPN (ROUNDDOWN a PGSIZE) = PPN a" and user_la_ROUNDDOWN: "user_la a \<Longrightarrow> user_la (ROUNDDOWN a PGSIZE)"
proof -
  have "unat (ROUNDDOWN a PGSIZE) = 4096 * (unat a div 4096)"
    by (simp add: unat_ROUNDDOWN PGSIZE_def minus_mod_eq_mult_div)
  then show "PPN (ROUNDDOWN a PGSIZE) = PPN a" by (simp add: PPN_eq)
  show "user_la a \<Longrightarrow> user_la (ROUNDDOWN a PGSIZE)"
    using ROUNDDOWN_le [of a PGSIZE] by (simp add: user_la_def)
qed

text \<open>A page with no frame gets a fresh one.\<close>

lemma pgdir_alloc_page_ok:
  assumes ok: "mem_ok s F D" and c: "calm s F" and nc: "check_mm_struct s = None" and pd: "pd \<in> D" and la: "user_la la"
    and tab: "present (frames s pd (PDX la))" and e: "\<not> present (pte_at s pd (PPN la))" and perm: "perm < 4096"
  shows "(F = {} \<and> pgdir_alloc_page pd la perm s = Some (None, s)) \<or>
    (\<exists>p s'. pgdir_alloc_page pd la perm s = Some (Some p, s') \<and> p \<in> F \<and> mem_ok s' (F - {p}) D \<and>
       (\<forall>pd' \<in> D. \<forall>v < UPAGES. pte_at s' pd' v =
          (if pd' = pd \<and> v = PPN la then page2pa p OR PTE_P OR perm else pte_at s pd' v)) \<and>
       page_ref (page_of s' p) = 1 \<and> same_ctl s' s \<and> (tlb_ok s D \<longrightarrow> tlb_ok s' D))"
proof (cases "F = {}")
  case True
  then show ?thesis using alloc_data_page [OF ok c] by (auto simp: pgdir_alloc_page_def)
next
  case False
  then obtain p fa where al: "p \<in> F" "alloc_pages 1 s = Some (Some p, s\<lparr>farea := fa\<rparr>)" "mem_ok (s\<lparr>farea := fa\<rparr>) (F - {p}) D"
    "data_page (s\<lparr>farea := fa\<rparr>) (F - {p}) D p" "page_ref (pages fa p) = 0" "same_ctl (s\<lparr>farea := fa\<rparr>) s"
    using alloc_data_page [OF ok c] by blast
  let ?s = "s\<lparr>farea := fa\<rparr>"
  have e1: "\<not> mapped ?s pd (PPN la) p" "dropped ?s pd (PPN la) p = {}" using e by (auto simp: mapped_def dropped_def)
  obtain s' where i: "page_insert pd p la perm ?s = Some (0, s')" "mem_ok s' (F - {p}) D"
    "remapped ?s (F - {p}) D pd (PPN la) (page2pa p OR PTE_P OR perm) s' (F - {p})"
    "page_ref (page_of s' p) = page_ref (page_of ?s p) + 1"
    using page_insert_ok [OF al(3) _ pd la al(4) perm] tab e1 by (auto simp: moved_ref_def)
  have "same_ctl s' ?s" using i(3) by (simp add: remapped_def)
  then have ctl: "same_ctl s' s" using al(6) by (rule same_ctl_trans)
  then have "pgdir_alloc_page pd la perm s = Some (Some p, s')"
    using al(2) i(1) nc by (simp add: pgdir_alloc_page_def same_ctl_def)
  moreover have "page_ref (page_of s' p) = 1" using i(4) al(5) by (simp add: page_of_def)
  moreover have "tlb_ok s D \<Longrightarrow> tlb_ok ?s D" by (simp add: tlb_ok_def)
  ultimately show ?thesis using al(1) i(2,3) ctl by (auto simp: remapped_def)
qed

definition roomy :: "mem_state \<Rightarrow> page_ptr set \<Rightarrow> bool" where
  "roomy s F \<longleftrightarrow> (swap_init_ok s \<longrightarrow> 2 \<le> card F)"

definition same_ptes :: "mem_state \<Rightarrow> mem_state \<Rightarrow> nat set \<Rightarrow> bool" where
  "same_ptes s' s D \<longleftrightarrow> (\<forall>pd \<in> D. \<forall>v < UPAGES. pte_at s' pd v = pte_at s pd v)"

definition maps_fresh :: "nat \<Rightarrow> u32 \<Rightarrow> u32 \<Rightarrow> mem_state \<Rightarrow> page_ptr set \<Rightarrow> mem_state \<Rightarrow> page_ptr set \<Rightarrow> nat set \<Rightarrow> bool" where
  "maps_fresh pd la perm s' F' s F D \<longleftrightarrow> mem_ok s' F' D \<and> F' \<subseteq> F \<and> (tlb_ok s D \<longrightarrow> tlb_ok s' D) \<and>
     (\<exists>p \<in> F - F'. page_ref (page_of s' p) = 1 \<and> (\<forall>pd' \<in> D. \<forall>v < UPAGES. pte_at s' pd' v =
          (if pd' = pd \<and> v = PPN la then page2pa p OR PTE_P OR perm else pte_at s pd' v)))"

lemma pgfault_map_ok:
  assumes ok: "mem_ok s F D" and c: "roomy s F" and nc: "check_mm_struct s = None" and m: "pgdir (mms s m) = Some pd" "pd \<in> D"
    and la: "user_la la" and e: "pte_at s pd (PPN la) = 0" and perm: "perm < 4096"
  shows "if card F < (if present (frames s pd (PDX la)) then 1 else 2)
    then \<exists>s'. pgfault_map m la perm s = Some (err E_NO_MEM, s') \<and> mem_ok s' {} D \<and> same_ptes s' s D
    else \<exists>s' F'. pgfault_map m la perm s = Some (0, s') \<and> maps_fresh pd la perm s' F' s F D"
proof -
  have fin: "finite F" by (rule finite_free [OF ok])
  have calm: "calm s F" using c by (auto simp: calm_def roomy_def)
  consider (none) "F = {}" "\<not> present (frames s pd (PDX la))" "get_pte pd la True s = Some (None, s)"
    | (pte) a s1 F1 where "get_pte pd la True s = Some (Some a, s1)" "entry_of s1 pd (PPN la) a" "mem_ok s1 F1 D" "grown s F s1 F1 D"
        "present (frames s pd (PDX la)) \<longrightarrow> F1 = F" "\<not> present (frames s pd (PDX la)) \<longrightarrow> card F = Suc (card F1)"
    using get_pte_create [OF ok _ m(2) la] calm by blast
  then show ?thesis
  proof cases
    case none
    then show ?thesis using m ok by (simp add: pgfault_map_def same_ptes_def)
  next
    case pte
    have g: "card F \<le> Suc (card F1)" "F1 \<subseteq> F" "same_ctl s1 s" "same_ptes s1 s D" "tlb_ok s D \<Longrightarrow> tlb_ok s1 D"
      using pte(4) grown_tlb [OF pte(4)] by (simp_all add: grown_def same_ptes_def)
    have v: "PPN la < UPAGES" by (rule user_la_PPN [OF la])
    have e1: "pte_at s1 pd (PPN la) = 0" using g(4) e m(2) v by (simp add: same_ptes_def)
    have tab: "present (frames s1 pd (PDX la))" using pte(2) by (simp add: entry_of_def PPN_PDX)
    have c1: "calm s1 F1" using c g(1,3) by (auto simp: calm_def roomy_def same_ctl_def)
    have nc1: "check_mm_struct s1 = None" using nc g(3) by (simp add: same_ctl_def)
    have ne: "\<not> present (pte_at s1 pd (PPN la))" using e1 by (simp add: present_def)
    have run: "pgfault_map m la perm s =
        do { (p, s) \<leftarrow> pgdir_alloc_page pd la perm s1; Some (if p = None then err E_NO_MEM else 0, s) }"
      using m(1) pte(1) entry_of_rd [OF pte(2)] e1 by (simp add: pgfault_map_def)
    show ?thesis
      using pgdir_alloc_page_ok [OF pte(3) c1 nc1 m(2) la tab ne perm]
    proof (elim disjE exE conjE)
      assume "F1 = {}" "pgdir_alloc_page pd la perm s1 = Some (None, s1)"
      moreover from this have "card F < (if present (frames s pd (PDX la)) then 1 else 2)" using pte(5,6) by auto
      ultimately show ?thesis using run pte(3) g(4) by simp
    next
      fix p s' assume a: "pgdir_alloc_page pd la perm s1 = Some (Some p, s')" "p \<in> F1" "mem_ok s' (F1 - {p}) D"
        "\<forall>pd' \<in> D. \<forall>v < UPAGES. pte_at s' pd' v = (if pd' = pd \<and> v = PPN la then page2pa p OR PTE_P OR perm else pte_at s1 pd' v)"
        "page_ref (page_of s' p) = 1" "tlb_ok s1 D \<longrightarrow> tlb_ok s' D"
      have "maps_fresh pd la perm s' (F1 - {p}) s F D"
        unfolding maps_fresh_def using a g by (auto simp: same_ptes_def intro!: bexI [of _ p])
      moreover have "0 < card F1" using a(2) g(2) fin finite_subset by (auto simp: card_gt_0_iff)
      then have "\<not> card F < (if present (frames s pd (PDX la)) then 1 else 2)" using pte(5,6) by auto
      ultimately show ?thesis using run a(1) by auto
    qed
  qed
qed

text \<open>Only the cache of the address space and the fault counter change before the page is mapped.\<close>

lemma mem_ok_counted:
  assumes "cache_only m s1 s" "s2 = s1\<lparr>pgfault_num := n\<rparr>"
  shows "mem_ok s2 F D = mem_ok s F D" "pte_at s2 = pte_at s" "same_ptes s' s2 D = same_ptes s' s D"
    "tlb_ok s2 D = tlb_ok s D" "pgdir (mms s2 m) = pgdir (mms s m)" "check_mm_struct s2 = check_mm_struct s"
    "swap_init_ok s2 = swap_init_ok s" "frames s2 = frames s"
proof -
  obtain c where s2: "s2 = (upd_mm m (\<lambda>r. r\<lparr>mmap_cache := c\<rparr>) s)\<lparr>pgfault_num := n\<rparr>"
    using assms by (auto simp: cache_only_def)
  have fr: "frames s2 = frames s" "farea s2 = farea s" "npage s2 = npage s" by (simp_all add: s2 upd_mm_def)
  then show "frames s2 = frames s" by blast
  show pte: "pte_at s2 = pte_at s" using fr by (simp add: pte_at_def fun_eq_iff)
  show "mem_ok s2 F D = mem_ok s F D" using mem_ok_frame [of s F D s2] mem_ok_frame [of s2 F D s] fr by auto
  show "same_ptes s' s2 D = same_ptes s' s D" using pte by (simp add: same_ptes_def)
  show "tlb_ok s2 D = tlb_ok s D" "pgdir (mms s2 m) = pgdir (mms s m)" "check_mm_struct s2 = check_mm_struct s"
    "swap_init_ok s2 = swap_init_ok s" using pte by (auto simp: tlb_ok_def s2) (simp_all add: upd_mm_def)
qed

lemma kmalloc_returns:
  assumes "heap_ok s F U" "F \<noteq> {}" "0 < sz" "sz < 4080"
  shows "\<exists>a s' F' U'. kmalloc sz s = Some (Some a, s') \<and> heap_grown s' s \<and> heap_ok s' F' U'"
proof -
  have "calm s F" "SLOB_UNIT < sz + SLOB_UNIT" "sz + SLOB_UNIT + SLOB_UNIT < PAGE_SIZE"
    using assms by (simp_all add: calm_def SLOB_UNIT_def PAGE_SIZE_def)
  from slob_alloc_ok [OF assms(1) this] show ?thesis
    using assms(2,4) by (auto simp: kmalloc_small slob_taken_def)
qed

lemma vma_create_returns:
  assumes "heap_ok s F U" "F \<noteq> {}"
  shows "\<exists>v s'. vma_create start fin flags s = Some (Some v, s') \<and> heap_grown s' s \<and>
    vm_start v = start \<and> vm_end v = fin \<and> vm_flags v = flags"
  using kmalloc_returns [OF assms, of sizeof_vma] by (fastforce simp: vma_create_def sizeof_vma_def)

section \<open>An example\<close>

definition ex_vm :: mem_state where
  "ex_vm = ex_heap\<lparr>mms := (\<lambda>m. \<lparr>mmap_list = [\<lparr>vma_at = 0, vm_start = 0x800000, vm_end = 0x802000, vm_flags = 3\<rparr>],
     mmap_cache = None, pgdir = Some 3, map_count = 1, sm_priv = False, mm_count = 1, mm_sem = 1, locked_by = 0\<rparr>)\<rparr>"

lemma ex_vm_sel [simp]:
  "mms ex_vm m = \<lparr>mmap_list = [\<lparr>vma_at = 0, vm_start = 0x800000, vm_end = 0x802000, vm_flags = 3\<rparr>],
     mmap_cache = None, pgdir = Some 3, map_count = 1, sm_priv = False, mm_count = 1, mm_sem = 1, locked_by = 0\<rparr>"
  by (simp add: ex_vm_def)

lemma ex_vm_mm_ok: "mm_ok ex_vm m"
  by (simp add: mm_ok_def vmas_ok_def)

lemma ex_vm_heap: "heap_ok ex_vm {4, 5, 6} {}"
proof -
  have "unit_sz ex_vm = unit_sz ex_heap" by (simp add: unit_sz_def ex_vm_def fun_eq_iff)
  then show ?thesis using ex_heap_ok by (simp add: heap_ok_def heap_rep_def heap_list_def) (simp add: ex_vm_def)
qed

section \<open>Properties\<close>

text \<open>
  C26: \<open>insert_vma_struct\<close> keeps the areas of an address space sorted, non-empty and disjoint.  It adds
  exactly the new area, and it stops the kernel exactly when that area is empty or overlaps another.
\<close>

theorem insert_vma_keeps:
  assumes "mm_ok s m"
  shows "(insert_vma_struct m v s \<noteq> None \<longleftrightarrow> vm_start v < vm_end v \<and> (\<forall>w \<in> set (mmap_list (mms s m)). apart v w)) \<and>
    (\<forall>s'. insert_vma_struct m v s = Some s' \<longrightarrow> mm_ok s' m \<and>
       set (mmap_list (mms s' m)) = insert v (set (mmap_list (mms s m))) \<and> (\<forall>m'. m' \<noteq> m \<longrightarrow> mms s' m' = mms s m'))"
proof (intro conjI allI impI)
  note ok = assms [unfolded mm_ok_def]
  note eq = insert_vma_struct_eq [OF conjunct1 [OF ok], of v]
  show "insert_vma_struct m v s \<noteq> None \<longleftrightarrow> vm_start v < vm_end v \<and> (\<forall>w \<in> set (mmap_list (mms s m)). apart v w)"
    unfolding eq by simp
  fix s' assume s': "insert_vma_struct m v s = Some s'"
  let ?P = "\<lambda>w. \<not> vm_start w > vm_start v" and ?vs = "mmap_list (mms s m)"
  have v: "vm_start v < vm_end v" "\<forall>w \<in> set ?vs. apart v w"
    and e: "s' = upd_mm m (\<lambda>r. r\<lparr>mmap_list := takeWhile ?P ?vs @ v # dropWhile ?P ?vs, map_count := map_count r + 1\<rparr>) s"
    using s' unfolding eq by (auto split: if_splits)
  have l: "length (takeWhile ?P ?vs) + length (dropWhile ?P ?vs) = length ?vs"
    by (metis length_append takeWhile_dropWhile_id)
  show st: "set (mmap_list (mms s' m)) = insert v (set ?vs)" using set_takeWhile_dropWhile [of ?P ?vs] by (auto simp: e)
  show "mm_ok s' m"
    using insert_vmas_ok [OF conjunct1 [OF ok] v] ok st l by (auto simp: e mm_ok_def)
  show "mms s' m' = mms s m'" if "m' \<noteq> m" for m' using that by (simp add: e)
qed

theorem insert_vma_keeps_witness:
  "\<exists>s'. insert_vma_struct 0 \<lparr>vma_at = 8, vm_start = 0x400000, vm_end = 0x401000, vm_flags = 1\<rparr> ex_vm = Some s' \<and> mm_ok s' 0"
  using insert_vma_keeps [OF ex_vm_mm_ok, of 0 "\<lparr>vma_at = 8, vm_start = 0x400000, vm_end = 0x401000, vm_flags = 1\<rparr>"]
  by (auto simp: apart_def)

text \<open>
  C27: The cache of \<open>find_vma\<close> is transparent: the result is the one of a search through the whole list,
  which is the only area that holds the address; nothing but the cache changes.
\<close>

theorem find_vma_search:
  assumes "mm_ok s m"
  shows "\<exists>s'. find_vma (Some m) a s = (find (vma_has a) (mmap_list (mms s m)), s') \<and> mm_ok s' m \<and> cache_only m s' s \<and>
    (\<forall>v. find (vma_has a) (mmap_list (mms s m)) = Some v \<longleftrightarrow> v \<in> set (mmap_list (mms s m)) \<and> vma_has a v)"
proof -
  have "vmas_ok (mmap_list (mms s m))" using assms by (simp add: mm_ok_def)
  then have "vma_at_addr (mmap_list (mms s m)) a = Some v \<longleftrightarrow> v \<in> set (mmap_list (mms s m)) \<and> vma_has a v" for v
    using vma_at_addrI vma_at_addrD by blast
  then show ?thesis using find_vma_ok [OF assms, of a] by (auto simp: vma_at_addr_def)
qed

theorem find_vma_search_witness: "\<exists>v s'. find_vma (Some 0) 0x801234 ex_vm = (Some v, s') \<and> vm_start v = 0x800000 \<and> mm_ok s' 0"
  using find_vma_search [OF ex_vm_mm_ok, of 0 "0x801234"] by (auto simp: vma_has_def)

text \<open>
  C28: \<open>mm_map\<close> with memory to spare.  It refuses a range whose first page lies in an area, adds an area
  for a range that overlaps none, and stops the kernel on a range that overlaps areas only further up,
  because it looks for an overlap at the first page only.
\<close>

theorem mm_map_cases:
  assumes ok: "mm_ok s m" and h: "heap_ok s F U" "F \<noteq> {}"
    and r: "start = ROUNDDOWN addr PGSIZE" "fin = ROUNDUP (addr + len) PGSIZE" "USER_ACCESS start fin"
  shows "(if \<exists>w \<in> set (mmap_list (mms s m)). vma_has start w then
       \<exists>s'. mm_map (Some m) addr len flags s = Some (err E_INVAL, None, s') \<and> cache_only m s' s
     else if \<exists>w \<in> set (mmap_list (mms s m)). vm_start w < fin \<and> start < vm_end w then mm_map (Some m) addr len flags s = None
     else \<exists>v s'. mm_map (Some m) addr len flags s = Some (0, Some v, s') \<and> vm_start v = start \<and> vm_end v = fin \<and>
       vm_flags v = flags \<and> mmap_list (mms s' m) = takeWhile (\<lambda>w. \<not> vm_start w > start) (mmap_list (mms s m)) @ v #
         dropWhile (\<lambda>w. \<not> vm_start w > start) (mmap_list (mms s m)))"
proof -
  let ?vs = "mmap_list (mms s m)"
  have vs: "vmas_ok ?vs" using ok by (simp add: mm_ok_def)
  obtain s1 where f: "find_vma (Some m) start s = (vma_at_addr ?vs start, s1)" "cache_only m s1 s"
    using find_vma_ok [OF ok] by blast
  have lt: "start < fin" using r(3) by (simp add: USER_ACCESS_def)
  show ?thesis
  proof (cases "\<exists>w \<in> set ?vs. vma_has start w")
    case True
    then obtain w where w: "vma_at_addr ?vs start = Some w" "vm_start w \<le> start"
      using vma_at_addrI [OF vs] by (auto simp: vma_has_def)
    then have "fin > vm_start w" using lt by simp
    then show ?thesis using True f w r by (auto simp: mm_map_def Let_def)
  next
    case False
    then have n: "vma_at_addr ?vs start = None" unfolding vma_at_addr_def find_None_iff by blast
    then have s1: "s1 = s" using f(1) by (auto simp: find_vma_def Let_def split: if_splits)
    obtain v s2 where v: "vma_create start fin flags s = Some (Some v, s2)" "heap_grown s2 s"
      "vm_start v = start" "vm_end v = fin" "vm_flags v = flags" using vma_create_returns [OF h] by blast
    have ms: "mms s2 = mms s" using v(2) by (auto simp: heap_grown_def)
    have run: "mm_map (Some m) addr len flags s = do { s \<leftarrow> insert_vma_struct m v s2; Some (0, Some v, s) }"
      using f(1) n s1 v(1) r by (simp add: mm_map_def Let_def)
    have ap: "(\<forall>w \<in> set ?vs. apart v w) \<longleftrightarrow> \<not> (\<exists>w \<in> set ?vs. vm_start w < fin \<and> start < vm_end w)"
      by (auto simp: apart_def v not_le)
    show ?thesis using insert_vma_struct_eq [of s2 m v] vs lt unfolding run ms ap v(3-5)
      by (cases "\<exists>w \<in> set ?vs. vm_start w < fin \<and> start < vm_end w") (simp_all add: False v)
  qed
qed

theorem mm_map_cases_witness: "mm_map (Some 0) 0x7ff000 0x2000 3 ex_vm = None"
proof -
  have "0x7ff000 = ROUNDDOWN 0x7ff000 PGSIZE" "0x801000 = ROUNDUP (0x7ff000 + 0x2000) PGSIZE" "USER_ACCESS 0x7ff000 0x801000"
    by (simp_all add: ROUNDDOWN_def ROUNDUP_def PGSIZE_def USER_ACCESS_def USERBASE_def USERTOP_def)
  from mm_map_cases [OF ex_vm_mm_ok ex_vm_heap _ this, of 0] show ?thesis by (simp add: vma_has_def)
qed

text \<open>
  C29: \<open>user_mem_check\<close> ends.  Given an address space, it accepts a range exactly when the range lies in user
  space and each of its addresses lies in an area that allows the access; writes to the lowest page of a
  stack area are refused.  Given none, it accepts exactly the non-empty ranges of kernel addresses.
\<close>

theorem user_mem_check_exact:
  assumes "\<forall>m. mm = Some m \<longrightarrow> mm_ok s m"
  shows "fst (user_mem_check mm addr len wflag s) \<longleftrightarrow>
    (case mm of
       Some m \<Rightarrow> USER_ACCESS addr (addr + len) \<and>
         (\<forall>a. addr \<le> a \<and> a < addr + len \<longrightarrow> (\<exists>v \<in> set (mmap_list (mms s m)). vma_has a v \<and> usable wflag addr v))
     | None \<Rightarrow> 0xC0000000 \<le> addr \<and> addr < addr + len \<and> addr + len \<le> 0xF8000000)"
proof (cases mm)
  case None
  then show ?thesis by (simp add: user_mem_check_def KERN_ACCESS_def KERNTOP_def KERNBASE_def KMEMSIZE_def)
next
  case (Some m)
  then show ?thesis
    using user_mem_loop_ok [of s m wflag addr "addr + len"] assms by (auto simp: user_mem_check_def covered_def)
qed

theorem user_mem_check_exact_witness:
  "fst (user_mem_check (Some 0) 0x800ff0 0x20 True ex_vm) \<and> \<not> fst (user_mem_check None 0x800ff0 0x20 True ex_vm)"
proof -
  have "\<exists>v \<in> set (mmap_list (mms ex_vm 0)). vma_has a v \<and> usable True 0x800ff0 v" if "0x800ff0 \<le> a \<and> a < 0x801010" for a
    using that by (auto simp: vma_has_def usable_def VM_WRITE_def VM_STACK_def word_le_nat_alt word_less_nat_alt)
  then show ?thesis
    using user_mem_check_exact [of "Some 0" ex_vm "0x800ff0" "0x20" True] user_mem_check_exact [of None ex_vm "0x800ff0" "0x20" True]
    by (simp add: ex_vm_mm_ok USER_ACCESS_def USERBASE_def USERTOP_def)
qed

definition fault_perm :: "vma_struct \<Rightarrow> u32" where
  "fault_perm v = (if vm_flags v AND VM_WRITE \<noteq> 0 then PTE_U OR PTE_W else PTE_U)"

lemma fault_perm_less: "fault_perm v < 4096"
  by (simp add: fault_perm_def PTE_U_def PTE_W_def)

lemma flag_bits: "w AND VM_WRITE = 0 \<longleftrightarrow> \<not> bit w 1" "w AND (VM_READ OR VM_EXEC) = 0 \<longleftrightarrow> \<not> bit w 0 \<and> \<not> bit w 2"
proof -
  have "w AND 2 = 0 \<longleftrightarrow> \<not> bit w 1" "w AND 1 = 0 \<longleftrightarrow> \<not> bit w 0" "w AND 4 = 0 \<longleftrightarrow> \<not> bit w 2"
    using test_bit_nr_bit [of 1 w] test_bit_nr_bit [of 0 w] test_bit_nr_bit [of 2 w] by (simp_all add: test_bit_nr_def) blast+
  then show "w AND VM_WRITE = 0 \<longleftrightarrow> \<not> bit w 1" "w AND (VM_READ OR VM_EXEC) = 0 \<longleftrightarrow> \<not> bit w 0 \<and> \<not> bit w 2"
    unfolding VM_WRITE_def VM_READ_def VM_EXEC_def bit.conj_disj_distrib or_eq_0_iff by simp_all
qed

lemma error_bits: "e AND 3 = 1 \<longleftrightarrow> bit e 0 \<and> \<not> bit e 1" "e AND 3 = 0 \<longleftrightarrow> \<not> bit e 0 \<and> \<not> bit e 1" for e :: u32
proof -
  have "e AND 3 = take_bit 2 e" by (simp add: take_bit_eq_mask mask_eq_exp_minus_1)
  then have b: "bit (e AND 3) n \<longleftrightarrow> n < 2 \<and> bit e n" for n by (simp add: bit_take_bit_iff)
  have two: "(\<forall>n < 2. P n) \<longleftrightarrow> P 0 \<and> P 1" for P :: "nat \<Rightarrow> bool" by (auto simp: less_2_cases_iff)
  have "(e AND 3 = 1) = (\<forall>n < 2. bit e n = (n = 0))" "(e AND 3 = 0) = (\<forall>n < 2. \<not> bit e n)"
    unfolding bit_eq_iff [where 'a = "32 word"] b
    by (auto simp: bit_1_iff dest: spec [of _ 0]) (meson less_trans numeral_less_iff semiring_norm(76,78,79))
  then show "e AND 3 = 1 \<longleftrightarrow> bit e 0 \<and> \<not> bit e 1" "e AND 3 = 0 \<longleftrightarrow> \<not> bit e 0 \<and> \<not> bit e 1" unfolding two by auto
qed

lemma pgfault_denied_iff:
  "pgfault_denied error_code v \<longleftrightarrow> \<not>
     (if bit error_code 1 then bit (vm_flags v) 1 else \<not> bit error_code 0 \<and> (bit (vm_flags v) 0 \<or> bit (vm_flags v) 2))"
  unfolding pgfault_denied_def Let_def error_bits flag_bits by auto

lemma fault_perm_eq: "fault_perm v = (if bit (vm_flags v) 1 then PTE_U OR PTE_W else PTE_U)"
  unfolding fault_perm_def using flag_bits(1) by auto

lemma PDX_ROUNDDOWN: "PDX (ROUNDDOWN a PGSIZE) = PDX a"
  by (simp add: PDX_eq PPN_ROUNDDOWN)


definition ex_pf :: mem_state where
  "ex_pf = ex_mem\<lparr>mms := mms ex_vm\<rparr>"

lemma ex_pf_ok: "mem_ok ex_pf ex_free {3, 7}" "mm_ok ex_pf m" "pte_at ex_pf = pte_at ex_mem" "swap_init_ok ex_pf = False"
  "check_mm_struct ex_pf = None" "mms ex_pf = mms ex_vm"
proof -
  show "mem_ok ex_pf ex_free {3, 7}" by (rule mem_ok_frame [OF ex_mem_ok]) (simp_all add: ex_pf_def)
  show "mm_ok ex_pf m" using ex_vm_mm_ok [of m] by (simp add: mm_ok_def ex_pf_def)
  show "pte_at ex_pf = pte_at ex_mem" by (simp add: pte_at_def fun_eq_iff ex_pf_def)
qed (simp_all add: ex_pf_def ex_mem_def)


end
