(* ===== verification/Swap.thy ===== *)
theory Swap
  imports Vmm
begin

text \<open>
  Swapping as a whole: \<open>swap_init\<close> and \<open>swapfs_init\<close>, and what \<open>swap_out\<close> and \<open>swap_in\<close> achieve together.
  The device is a parameter: \<open>swap_device\<close> is the number of sectors of the swap disk if it is valid.
\<close>

section \<open>Setting up\<close>

definition SECTSIZE :: u32 where "SECTSIZE = 512"
definition MAX_SWAP_OFFSET_LIMIT :: u32 where "MAX_SWAP_OFFSET_LIMIT = push_bit 24 1"

definition swapfs_init :: "u32 option \<Rightarrow> mem_state \<Rightarrow> mem_state option" where
  "swapfs_init swap_device s =
     do { n \<leftarrow> swap_device; Some (s\<lparr>max_swap_offset := n div (PGSIZE div SECTSIZE)\<rparr>) }"

text \<open>\<open>swap_init\<close> up to its self test.\<close>

definition swap_init :: "u32 option \<Rightarrow> mem_state \<Rightarrow> (int \<times> mem_state) option" where
  "swap_init swap_device s =
     do { s \<leftarrow> swapfs_init swap_device s;
          kassert (1024 \<le> max_swap_offset s \<and> max_swap_offset s < MAX_SWAP_OFFSET_LIMIT);
          let (r, s) = sm_init swap_manager_fifo s;
          Some (r, if r = 0 then s\<lparr>swap_init_ok := True\<rparr> else s) }"

section \<open>The swap entry of an address\<close>

lemma unat_page_number: "unat (v div PGSIZE + 1 :: u32) = PPN v + 1"
proof -
  have "unat (v div PGSIZE) = PPN v" by (simp add: PPN_eq PGSIZE_def unat_div)
  moreover have "PPN v < 2 ^ 20" by (rule PPN_less)
  ultimately show ?thesis by (simp add: unat_word_ariths)
qed

lemma swap_entry_unat: "unat (swap_entry_of v) = (PPN v + 1) * 256"
proof -
  have "unat (push_bit 8 (w :: u32)) = unat w * 256 mod 2 ^ 32" for w
    by (simp add: push_bit_eq_mult unat_word_ariths)
  moreover have "PPN v < 2 ^ 20" by (rule PPN_less)
  ultimately show ?thesis by (simp only: swap_entry_of_def unat_page_number) simp
qed

lemma swap_entry_offset:
  "PPN v + 1 < unat (max_swap_offset s) \<Longrightarrow> swap_offset (swap_entry_of v) s = Some (PPN v + 1)"
proof -
  have "unat (drop_bit 8 (swap_entry_of v)) = PPN v + 1" by (simp add: unat_drop_bit swap_entry_unat)
  then show "PPN v + 1 < unat (max_swap_offset s) \<Longrightarrow> swap_offset (swap_entry_of v) s = Some (PPN v + 1)"
    by (simp add: swap_offset_def Let_def word_less_nat_alt)
qed

lemma swap_entry_absent: "\<not> present (swap_entry_of v)"
  by (simp add: present_def PTE_P_def swap_entry_of_def and_one_eq even_push_bit_iff flip: even_iff_mod_2_eq_zero)

section \<open>Out and in again\<close>

definition faithful_disk :: "mem_state \<Rightarrow> bool" where
  "faithful_disk s \<longleftrightarrow> (\<forall>k src dst. ide_xfer s k src dst = (0, src))"

definition swapped_out :: "nat \<Rightarrow> u32 \<Rightarrow> page_ptr \<Rightarrow> mem_state \<Rightarrow> page_ptr set \<Rightarrow> mem_state \<Rightarrow> pte_ptr \<Rightarrow> bool" where
  "swapped_out pd v p s' F s a \<longleftrightarrow> swap_disk s' = (swap_disk s)(PPN v + 1 := frames s p) \<and> pmm_rep (farea s') (insert p F) \<and>
     frames s' = (frames s)(fst a := (frames s (fst a))(snd a := swap_entry_of v)) \<and> mms s' = mms s \<and> npage s' = npage s \<and>
     max_swap_offset s' = max_swap_offset s \<and> ide_xfer s' = ide_xfer s"

lemma entry_not_dir:
  assumes "tables_ok s F D" "pd \<in> D" "v < UPAGES" "entry_of s pd v a"
  shows "fst a \<notin> D"
  using tables_okD(6) [OF assms(1,2) div_UPDES [OF assms(3)]] assms(4) by (auto simp: entry_of_def)

lemma swap_out_page_ok:
  assumes ok: "mem_ok s F D" and m: "pgdir (mms s m) = Some pd" "pd \<in> D" and v: "v = pra_vaddr (page_of s p)" "user_la v"
    and mp: "mapped s pd (PPN v) p" and off: "PPN v + 1 < unat (max_swap_offset s)" and disk: "faithful_disk s"
  shows "\<exists>s' a. swap_out_page m p s = Some s' \<and> entry_of s pd (PPN v) a \<and> swapped_out pd v p s' F s a"
proof -
  note t = mem_okD(3) [OF ok] and k = maps_okD [OF mem_okD(4) [OF ok] m(2) user_la_PPN [OF v(2)] mp]
  obtain a where a: "lookup_pte pd v s = Some (Some a)" "entry_of s pd (PPN v) a"
    using lookup_pte_eq [OF t m(2) v(2)] mp by (auto simp: mapped_def present_def)
  have pr: "present (rd s a)" using mp by (simp add: entry_of_rd [OF a(2)] mapped_def)
  let ?s1 = "s\<lparr>ide_ops := Suc (ide_ops s), swap_disk := (swap_disk s)(PPN v + 1 := frames s p)\<rparr>"
  have "p < 2 ^ 20" using k(1) mem_okD(2) [OF ok] by simp
  then have w: "swapfs_write (swap_entry_of v) p s = Some (0, ?s1)"
    using swap_entry_offset [OF off] k(1) disk by (simp add: swapfs_write_def page2kva_def KADDR_def faithful_disk_def Let_def)
  let ?s2 = "wr a (swap_entry_of v) ?s1"
  have fa: "farea ?s2 = farea s" "page_of ?s2 p = page_of s p" by (simp_all add: page_of_def)
  obtain fa where f: "free_pages p 1 ?s2 = Some (?s2\<lparr>farea := fa\<rparr>)" "pmm_rep fa (insert p F)"
    using free_page_rep [of ?s2 F p] mem_okD(1) [OF ok] k(2,5) fa by (simp only: fa) blast
  let ?s3 = "tlb_invalidate pd v (?s2\<lparr>farea := fa\<rparr>)"
  have "swap_out_page m p s = Some ?s3"
    using m(1) a(1) pr w f(1) v(1) by (simp add: swap_out_page_def Let_def)
  moreover have "swapped_out pd v p ?s3 F s a"
    using f(2) by (simp add: swapped_out_def tlb_invalidate_def wr_def)
  ultimately show ?thesis using a(2) by blast
qed

lemma swap_in_ok:
  assumes ok: "mem_ok s F D" and m: "pgdir (mms s m) = Some pd" "pd \<in> D" and v: "user_la v"
    and p: "p < npage s" "p \<notin> D \<union> tables s D"
    and a: "entry_of s pd (PPN v) a" and out: "swapped_out pd v p s' F s a"
    and off: "PPN v + 1 < unat (max_swap_offset s)" and disk: "faithful_disk s"
  shows "\<exists>q s''. swap_in m v s' = Some (0, q, s'') \<and> q \<in> insert p F \<and> frames s'' q = frames s p \<and>
    (\<forall>f. f \<noteq> q \<longrightarrow> frames s'' f = frames s' f)"
proof -
  note o = out [unfolded swapped_out_def]
  have "calm s' (insert p F)" by (simp add: calm_def)
  then obtain q fa where q: "q \<in> insert p F" "alloc_pages 1 s' = Some (Some q, s'\<lparr>farea := fa\<rparr>)"
    using alloc_page_calm [of s' "insert p F"] o by blast
  let ?s1 = "s'\<lparr>farea := fa\<rparr>"
  have pd: "fst a \<noteq> pd" using entry_not_dir [OF mem_okD(3) [OF ok] m(2) user_la_PPN [OF v] a] m(2) by blast
  have fpd: "frames s' pd = frames s pd" using o pd by simp
  have e: "present (frames s pd (PDX v))" "a = (PPN (frames s pd (PDX v)), PTX v)" "PPN (frames s pd (PDX v)) < npage s"
    using a tables_okD(4) [OF mem_okD(3) [OF ok] m(2) div_UPDES [OF user_la_PPN [OF v]]]
    by (auto simp: entry_of_def PPN_PDX PPN_PTX)
  then have l: "lookup_pte pd v ?s1 = Some (Some a)"
    using o fpd by (simp add: lookup_pte_def pt_entry_def KADDR_def rd_def)
  have rd: "rd ?s1 a = swap_entry_of v" using o by (simp add: rd_def)
  have q20: "q < npage s" "q < 2 ^ 20" using q(1) p(1) mem_okD(2,5) [OF ok] by (auto intro: less_le_trans)
  let ?s2 = "?s1\<lparr>ide_ops := Suc (ide_ops s'), frames := (frames s')(q := frames s p)\<rparr>"
  have "swapfs_read (swap_entry_of v) q ?s1 = Some (0, ?s2)"
    using swap_entry_offset [of v ?s1] off o q20 disk
    by (simp add: swapfs_read_def page2kva_def KADDR_def faithful_disk_def Let_def)
  then have "swap_in m v s' = Some (0, q, ?s2)"
    using q(2) m(1) o l rd by (simp add: swap_in_def)
  then show ?thesis using q(1) by (intro exI [of _ q] exI [of _ ?s2]) simp
qed

text \<open>
  C31: Swapping loses nothing.  With a disk that keeps what is written, a mapped page that \<open>swap_out\<close>
  writes out and frees leaves a swap entry behind, and \<open>swap_in\<close> at the same address brings back a page
  with exactly the old contents; no other frame is touched by the way in.
\<close>

theorem swap_round_trip:
  assumes "mem_ok s F D" "pgdir (mms s m) = Some pd" "pd \<in> D" "v = pra_vaddr (page_of s p)" "user_la v"
    and "mapped s pd (PPN v) p" "PPN v + 1 < unat (max_swap_offset s)" "faithful_disk s"
  shows "\<exists>s' q s''. swap_out_page m p s = Some s' \<and> pte_at s' pd (PPN v) = swap_entry_of v \<and> \<not> present (swap_entry_of v) \<and>
    pmm_rep (farea s') (insert p F) \<and> swap_in m v s' = Some (0, q, s'') \<and> q \<in> insert p F \<and>
    frames s'' q = frames s p \<and> (\<forall>f. f \<noteq> q \<longrightarrow> frames s'' f = frames s' f)"
proof -
  obtain s' a where o: "swap_out_page m p s = Some s'" "entry_of s pd (PPN v) a" "swapped_out pd v p s' F s a"
    using swap_out_page_ok [OF assms] by blast
  note k = maps_okD [OF mem_okD(4) [OF assms(1)] assms(3) user_la_PPN [OF assms(5)] assms(6)]
  have "fst a \<noteq> pd" using entry_not_dir [OF mem_okD(3) [OF assms(1)] assms(3) user_la_PPN [OF assms(5)] o(2)] assms(3) by blast
  then have "pte_at s' pd (PPN v) = swap_entry_of v"
    using o(2,3) by (auto simp: pte_at_def swapped_out_def entry_of_def)
  moreover have "pmm_rep (farea s') (insert p F)" using o(3) by (simp add: swapped_out_def)
  ultimately show ?thesis
    using o(1) swap_entry_absent swap_in_ok [OF assms(1-3,5) k(1) _ o(2,3) assms(7,8)] k(3,4) by blast
qed

definition ex_sw :: mem_state where
  "ex_sw = (mod_page 9 (\<lambda>r. r\<lparr>pra_vaddr := 0x800000\<rparr>) ex_mem)\<lparr>max_swap_offset := 8192, mms := (\<lambda>m. (mms ex_vm m)\<lparr>pgdir := Some 7\<rparr>)\<rparr>"

lemma mem_ok_pra:
  assumes ok: "mem_ok s F D"
  shows "mem_ok (mod_page p (\<lambda>r. r\<lparr>pra_vaddr := w\<rparr>) s) F D"
proof -
  let ?s = "mod_page p (\<lambda>r. r\<lparr>pra_vaddr := w\<rparr>) s"
  have pg: "PageReserved (pages (farea ?s) x) = PageReserved (page_of s x)" "page_ref (pages (farea ?s) x) = page_ref (page_of s x)" for x
    by (simp_all add: mod_page_def upd_page_def page_of_def PageReserved_def)
  have "mem_ok (s\<lparr>farea := farea ?s\<rparr>) F D"
  proof (rule mem_ok_farea [OF ok])
    show "pmm_rep (farea ?s) F" using mem_okD(1) [OF ok] by (subst pmm_rep_mod_page) simp_all
    show "F \<inter> (D \<union> tables s D) = {}"
      using tables_okD(3) [OF mem_okD(3) [OF ok]] tables_free [OF mem_okD(3) [OF ok]] by blast
  qed (use pg mem_okD [OF ok] maps_okD [OF mem_okD(4) [OF ok]] in auto)
  then show ?thesis by (simp add: mod_page_def)
qed

lemma ex_sw_ok: "mem_ok ex_sw ex_free {3, 7}"
  by (rule mem_ok_frame [OF mem_ok_pra [OF ex_mem_ok]]) (simp_all add: ex_sw_def)

theorem swap_round_trip_witness:
  "\<exists>s' q s''. swap_out_page 0 9 ex_sw = Some s' \<and> swap_in 0 0x800000 s' = Some (0, q, s'') \<and> frames s'' q = frames ex_sw 9"
proof -
  have "mapped ex_sw 7 2048 9" "pra_vaddr (page_of ex_sw 9) = 0x800000" "faithful_disk ex_sw"
    by (simp_all add: ex_sw_def mapped_def pte_at_def faithful_disk_def page_of_def mod_page_def upd_page_def)
      (simp add: ex_mem_def)
  moreover have "user_la 0x800000" "PPN 0x800000 = 2048" "pgdir (mms ex_sw 0) = Some 7" "unat (max_swap_offset ex_sw) = 8192"
    by (simp_all add: user_la_def USERTOP_def PPN_eq ex_sw_def)
  ultimately show ?thesis using swap_round_trip [OF ex_sw_ok, of 0 7 "0x800000" 9] by auto
qed

end
