(* ===== verification/SkewHeap.thy ===== *)
theory SkewHeap
  imports Kprelude "HOL-Library.Tree"
begin

text \<open>
  The pointer-based skew heap of libs/skew_heap.h: entries with parent, left and right pointers
  in a store, \<open>NULL\<close> as \<open>None\<close>.  The recursion of the merge follows pointers, so it is defined
  as a partial function: \<open>None\<close> would mean that it does not return.  The refinement lemmas show
  that on a store holding two disjoint trees it does return, and computes the functional merge
  below; the locale \<open>keyed_compare\<close> states what a client's comparison function has to promise
  for the heap order to be kept.
\<close>

section \<open>The pointer operations\<close>

record 'a skew_heap_entry =
  sh_parent :: "'a option"
  sh_left :: "'a option"
  sh_right :: "'a option"

type_synonym 'a shstore = "'a \<Rightarrow> 'a skew_heap_entry"

definition skew_heap_init :: "'a \<Rightarrow> 'a shstore \<Rightarrow> 'a shstore" where
  "skew_heap_init a h = h(a := (h a)\<lparr>sh_left := None, sh_right := None, sh_parent := None\<rparr>)"

definition sh_set_parent :: "'a option \<Rightarrow> 'a option \<Rightarrow> 'a shstore \<Rightarrow> 'a shstore" where
  "sh_set_parent e p h = (case e of None \<Rightarrow> h | Some x \<Rightarrow> h(x := (h x)\<lparr>sh_parent := p\<rparr>))"

partial_function (option) skew_heap_merge ::
  "('a \<Rightarrow> 'a \<Rightarrow> int) \<Rightarrow> 'a option \<Rightarrow> 'a option \<Rightarrow> 'a shstore \<Rightarrow> ('a option \<times> 'a shstore) option"
where
  "skew_heap_merge cmp a b h =
     (case a of None \<Rightarrow> Some (b, h)
      | Some x \<Rightarrow>
       (case b of None \<Rightarrow> Some (a, h)
        | Some y \<Rightarrow>
           if cmp x y = -1 then
             do { (l, h1) \<leftarrow> skew_heap_merge cmp (sh_right (h x)) b h;
                  let h2 = h1(x := (h1 x)\<lparr>sh_left := l, sh_right := sh_left (h x)\<rparr>);
                  Some (a, sh_set_parent l (Some x) h2) }
           else
             do { (l, h1) \<leftarrow> skew_heap_merge cmp a (sh_right (h y)) h;
                  let h2 = h1(y := (h1 y)\<lparr>sh_left := l, sh_right := sh_left (h y)\<rparr>);
                  Some (b, sh_set_parent l (Some y) h2) }))"

definition skew_heap_insert ::
  "('a \<Rightarrow> 'a \<Rightarrow> int) \<Rightarrow> 'a option \<Rightarrow> 'a \<Rightarrow> 'a shstore \<Rightarrow> ('a option \<times> 'a shstore) option"
where
  "skew_heap_insert cmp a b h = skew_heap_merge cmp a (Some b) (skew_heap_init b h)"

definition skew_heap_remove ::
  "('a \<Rightarrow> 'a \<Rightarrow> int) \<Rightarrow> 'a option \<Rightarrow> 'a \<Rightarrow> 'a shstore \<Rightarrow> ('a option \<times> 'a shstore) option"
where
  "skew_heap_remove cmp a b h =
     do { let p = sh_parent (h b);
          (rep, h) \<leftarrow> skew_heap_merge cmp (sh_left (h b)) (sh_right (h b)) h;
          let h = sh_set_parent rep p h;
          (case p of
             Some q \<Rightarrow>
               if sh_left (h q) = Some b
               then Some (a, h(q := (h q)\<lparr>sh_left := rep\<rparr>))
               else Some (a, h(q := (h q)\<lparr>sh_right := rep\<rparr>))
           | None \<Rightarrow> Some (rep, h)) }"

section \<open>Functional trees\<close>

fun sh_merge :: "('a \<Rightarrow> 'a \<Rightarrow> int) \<Rightarrow> 'a tree \<Rightarrow> 'a tree \<Rightarrow> 'a tree" where
  "sh_merge cmp Leaf t = t"
| "sh_merge cmp t Leaf = t"
| "sh_merge cmp (Node l1 a r1) (Node l2 b r2) =
     (if cmp a b = -1
      then Node (sh_merge cmp r1 (Node l2 b r2)) a l1
      else Node (sh_merge cmp (Node l1 a r1) r2) b l2)"

fun sh_delete :: "('a \<Rightarrow> 'a \<Rightarrow> int) \<Rightarrow> 'a \<Rightarrow> 'a tree \<Rightarrow> 'a tree" where
  "sh_delete cmp b Leaf = Leaf"
| "sh_delete cmp b (Node l x r) =
     (if x = b then sh_merge cmp l r
      else if b \<in> set_tree l then Node (sh_delete cmp b l) x r
      else Node l x (sh_delete cmp b r))"

definition root_of :: "'a tree \<Rightarrow> 'a option" where
  "root_of t = (case t of Leaf \<Rightarrow> None | Node l x r \<Rightarrow> Some x)"

fun sh_tree :: "'a shstore \<Rightarrow> 'a option \<Rightarrow> 'a option \<Rightarrow> 'a tree \<Rightarrow> bool" where
  "sh_tree h p e Leaf \<longleftrightarrow> e = None"
| "sh_tree h p e (Node l x r) \<longleftrightarrow>
     e = Some x \<and> sh_parent (h x) = p \<and>
     sh_tree h (Some x) (sh_left (h x)) l \<and> sh_tree h (Some x) (sh_right (h x)) r"

fun distinct_tree :: "'a tree \<Rightarrow> bool" where
  "distinct_tree Leaf \<longleftrightarrow> True"
| "distinct_tree (Node l x r) \<longleftrightarrow>
     x \<notin> set_tree l \<and> x \<notin> set_tree r \<and> set_tree l \<inter> set_tree r = {} \<and>
     distinct_tree l \<and> distinct_tree r"

lemma root_of_simps [simp]: "root_of Leaf = None" "root_of (Node l x r) = Some x"
  by (simp_all add: root_of_def)

lemma root_of_eq_None [simp]: "root_of t = None \<longleftrightarrow> t = Leaf"
  by (cases t) auto

lemma root_of_in_set: "root_of t = Some x \<Longrightarrow> x \<in> set_tree t"
  by (cases t) auto

lemma sh_tree_root: "sh_tree h p e t \<Longrightarrow> e = root_of t"
  by (cases t) auto

lemma sh_tree_cong:
  "(\<And>z. z \<in> set_tree t \<Longrightarrow> h' z = h z) \<Longrightarrow> sh_tree h' p e t = sh_tree h p e t"
  by (induction t arbitrary: p e) auto

lemma sh_tree_set_parent:
  assumes "sh_tree h q e t" "distinct_tree t"
  shows "sh_tree (sh_set_parent e p h) p e t"
proof (cases t)
  case (Node l x r)
  let ?h = "h(x := (h x)\<lparr>sh_parent := p\<rparr>)"
  have "sh_tree ?h (Some x) (sh_left (h x)) l" "sh_tree ?h (Some x) (sh_right (h x)) r"
    using assms Node by (subst sh_tree_cong [of _ _ h]; auto)+
  with Node assms show ?thesis by (simp add: sh_set_parent_def)
qed (use assms in \<open>simp add: sh_set_parent_def\<close>)

lemma set_sh_merge [simp]: "set_tree (sh_merge cmp t1 t2) = set_tree t1 \<union> set_tree t2"
  by (induction cmp t1 t2 rule: sh_merge.induct) auto

lemma distinct_sh_merge:
  "distinct_tree t1 \<Longrightarrow> distinct_tree t2 \<Longrightarrow> set_tree t1 \<inter> set_tree t2 = {} \<Longrightarrow>
     distinct_tree (sh_merge cmp t1 t2)"
  by (induction cmp t1 t2 rule: sh_merge.induct) auto

lemma set_sh_delete:
  "distinct_tree t \<Longrightarrow> set_tree (sh_delete cmp b t) = set_tree t - {b}"
  by (induction cmp b t rule: sh_delete.induct) auto

lemma distinct_sh_delete:
  "distinct_tree t \<Longrightarrow> distinct_tree (sh_delete cmp b t)"
  by (induction cmp b t rule: sh_delete.induct) (auto simp: distinct_sh_merge set_sh_delete)

section \<open>The merge returns, and computes the functional merge\<close>

lemma sh_set_parent_other: "e \<noteq> Some z \<Longrightarrow> sh_set_parent e p h z = h z"
  by (auto simp: sh_set_parent_def split: option.split)

text \<open>One unwinding step: the swapped children are hung below \<open>x\<close>.\<close>

lemma sh_tree_relink:
  assumes m: "sh_tree h1 s (root_of m) m" "distinct_tree m"
    and frame: "\<And>z. z \<notin> set_tree m \<Longrightarrow> h1 z = h z"
    and x: "sh_tree h p (Some x) (Node l x r)" "x \<notin> set_tree m" "x \<notin> set_tree l"
    and dis: "set_tree l \<inter> set_tree m = {}"
  defines "h2 \<equiv> h1(x := (h1 x)\<lparr>sh_left := root_of m, sh_right := sh_left (h x)\<rparr>)"
  shows "sh_tree (sh_set_parent (root_of m) (Some x) h2) p (Some x) (Node m x l)"
    and "\<And>z. z \<notin> set_tree m \<Longrightarrow> z \<noteq> x \<Longrightarrow> sh_set_parent (root_of m) (Some x) h2 z = h z"
proof -
  let ?h = "sh_set_parent (root_of m) (Some x) h2"
  have "sh_tree h2 s (root_of m) m"
    using m(1) x(2) by (subst sh_tree_cong [of _ _ h1]) (auto simp: h2_def)
  then have mt: "sh_tree ?h (Some x) (root_of m) m"
    using m(2) by (rule sh_tree_set_parent)
  have other: "?h z = h2 z" if "z \<notin> set_tree m" for z
    using that by (intro sh_set_parent_other) (auto dest: root_of_in_set)
  show fr: "?h z = h z" if "z \<notin> set_tree m" "z \<noteq> x" for z
    using other [OF that(1)] that frame by (simp add: h2_def)
  have "sh_tree ?h (Some x) (sh_left (h x)) l = sh_tree h (Some x) (sh_left (h x)) l"
    using dis x by (intro sh_tree_cong fr) auto
  moreover have "h2 x = (h x)\<lparr>sh_left := root_of m, sh_right := sh_left (h x)\<rparr>"
    using frame [OF x(2)] by (simp add: h2_def)
  ultimately show "sh_tree ?h p (Some x) (Node m x l)"
    using mt x other [OF x(2)] by simp
qed

lemma skew_heap_merge_refines:
  assumes "sh_tree h p e1 t1" "sh_tree h q e2 t2"
    and "distinct_tree t1" "distinct_tree t2" "set_tree t1 \<inter> set_tree t2 = {}"
  shows "\<exists>h' s. skew_heap_merge cmp e1 e2 h = Some (root_of (sh_merge cmp t1 t2), h') \<and>
           sh_tree h' s (root_of (sh_merge cmp t1 t2)) (sh_merge cmp t1 t2) \<and> s \<in> {p, q} \<and>
           (\<forall>z. z \<notin> set_tree t1 \<union> set_tree t2 \<longrightarrow> h' z = h z)"
  using assms
proof (induction cmp t1 t2 arbitrary: p q e1 e2 rule: sh_merge.induct)
  case (1 cmp t)
  then show ?case
    by (subst skew_heap_merge.simps) (auto dest: sh_tree_root)
next
  case (2 cmp l x r)
  then show ?case
    by (subst skew_heap_merge.simps) auto
next
  case (3 cmp l1 a r1 l2 b r2)
  then have e: "e1 = Some a" "e2 = Some b" by auto
  show ?case
  proof (cases "cmp a b = -1")
    case True
    let ?m = "sh_merge cmp r1 (Node l2 b r2)"
    obtain h1 s where h1: "skew_heap_merge cmp (sh_right (h a)) e2 h = Some (root_of ?m, h1)"
        "sh_tree h1 s (root_of ?m) ?m" "\<And>z. z \<notin> set_tree ?m \<Longrightarrow> h1 z = h z"
      using "3.IH"(1) [OF True, of "Some a" "sh_right (h a)" q e2] "3.prems"
      by (auto simp: Int_Un_distrib Int_Un_distrib2)
    have "distinct_tree ?m"
      using "3.prems" by (intro distinct_sh_merge) (auto simp: Int_Un_distrib Int_Un_distrib2)
    from sh_tree_relink [OF h1(2) this h1(3), of p a l1 r1] "3.prems"
    have "sh_tree (sh_set_parent (root_of ?m) (Some a)
              (h1(a := (h1 a)\<lparr>sh_left := root_of ?m, sh_right := sh_left (h a)\<rparr>))) p (Some a) (Node ?m a l1)"
      "\<And>z. z \<notin> set_tree ?m \<Longrightarrow> z \<noteq> a \<Longrightarrow> sh_set_parent (root_of ?m) (Some a)
              (h1(a := (h1 a)\<lparr>sh_left := root_of ?m, sh_right := sh_left (h a)\<rparr>)) z = h z"
      by auto
    with True h1(1) "3.prems" e show ?thesis
      by (subst skew_heap_merge.simps)
         (auto simp: Let_def Int_Un_distrib Int_Un_distrib2 simp del: sh_tree.simps(2))
  next
    case False
    let ?m = "sh_merge cmp (Node l1 a r1) r2"
    obtain h1 s where h1: "skew_heap_merge cmp e1 (sh_right (h b)) h = Some (root_of ?m, h1)"
        "sh_tree h1 s (root_of ?m) ?m" "\<And>z. z \<notin> set_tree ?m \<Longrightarrow> h1 z = h z"
      using "3.IH"(2) [OF False, of p e1 "Some b" "sh_right (h b)"] "3.prems"
      by (auto simp: Int_Un_distrib Int_Un_distrib2)
    have "distinct_tree ?m"
      using "3.prems" by (intro distinct_sh_merge) (auto simp: Int_Un_distrib Int_Un_distrib2)
    from sh_tree_relink [OF h1(2) this h1(3), of q b l2 r2] "3.prems"
    have "sh_tree (sh_set_parent (root_of ?m) (Some b)
              (h1(b := (h1 b)\<lparr>sh_left := root_of ?m, sh_right := sh_left (h b)\<rparr>))) q (Some b) (Node ?m b l2)"
      "\<And>z. z \<notin> set_tree ?m \<Longrightarrow> z \<noteq> b \<Longrightarrow> sh_set_parent (root_of ?m) (Some b)
              (h1(b := (h1 b)\<lparr>sh_left := root_of ?m, sh_right := sh_left (h b)\<rparr>)) z = h z"
      by auto
    with False h1(1) "3.prems" e show ?thesis
      by (subst skew_heap_merge.simps)
         (auto simp: Let_def Int_Un_distrib Int_Un_distrib2 simp del: sh_tree.simps(2))
  qed
qed

definition sh_insert :: "('a \<Rightarrow> 'a \<Rightarrow> int) \<Rightarrow> 'a \<Rightarrow> 'a tree \<Rightarrow> 'a tree" where
  "sh_insert cmp b t = sh_merge cmp t (Node Leaf b Leaf)"

lemma set_sh_insert [simp]: "set_tree (sh_insert cmp b t) = insert b (set_tree t)"
  by (simp add: sh_insert_def)

lemma distinct_sh_insert: "distinct_tree t \<Longrightarrow> b \<notin> set_tree t \<Longrightarrow> distinct_tree (sh_insert cmp b t)"
  by (simp add: sh_insert_def distinct_sh_merge)

lemma skew_heap_insert_refines:
  assumes "sh_tree h None e t" "distinct_tree t" "b \<notin> set_tree t"
  shows "\<exists>h'. skew_heap_insert cmp e b h = Some (root_of (sh_insert cmp b t), h') \<and>
           sh_tree h' None (root_of (sh_insert cmp b t)) (sh_insert cmp b t) \<and>
           (\<forall>z. z \<noteq> b \<longrightarrow> z \<notin> set_tree t \<longrightarrow> h' z = h z)"
proof -
  let ?h = "skew_heap_init b h"
  have "sh_tree ?h None e t = sh_tree h None e t"
    using assms(3) by (intro sh_tree_cong) (auto simp: skew_heap_init_def)
  moreover have "sh_tree ?h None (Some b) (Node Leaf b Leaf)"
    by (simp add: skew_heap_init_def)
  ultimately obtain h' s where
    "skew_heap_merge cmp e (Some b) ?h = Some (root_of (sh_insert cmp b t), h')"
    "sh_tree h' s (root_of (sh_insert cmp b t)) (sh_insert cmp b t)" "s \<in> {None, None}"
    "\<And>z. z \<notin> insert b (set_tree t) \<Longrightarrow> h' z = ?h z"
    using skew_heap_merge_refines [of ?h None e t None "Some b" "Node Leaf b Leaf" cmp] assms
    by (auto simp: sh_insert_def)
  then show ?thesis
    by (auto simp: skew_heap_insert_def skew_heap_init_def)
qed

text \<open>
  Removal is local surgery around \<open>b\<close>: the subtree below \<open>b\<close> is replaced by the merge of its two
  children, and one child pointer of the parent changes.  \<open>sh_splice\<close> is the store after the
  surgery, for any store \<open>h1\<close> that the merge may leave.
\<close>

definition sh_splice :: "'a \<Rightarrow> 'a option \<Rightarrow> 'a option \<Rightarrow> 'a shstore \<Rightarrow> 'a shstore" where
  "sh_splice b p rep h1 =
     (let h = sh_set_parent rep p h1
      in case p of None \<Rightarrow> h
         | Some q \<Rightarrow> if sh_left (h q) = Some b then h(q := (h q)\<lparr>sh_left := rep\<rparr>)
                     else h(q := (h q)\<lparr>sh_right := rep\<rparr>))"

lemma skew_heap_remove_splice:
  assumes "skew_heap_merge cmp (sh_left (h b)) (sh_right (h b)) h = Some (rep, h1)"
  shows "skew_heap_remove cmp a b h =
    Some (if sh_parent (h b) = None then rep else a, sh_splice b (sh_parent (h b)) rep h1)"
  using assms by (auto simp: skew_heap_remove_def sh_splice_def Let_def split: option.splits)

lemma sh_splice_at:
  "rep \<noteq> Some x \<Longrightarrow> sh_splice b p rep h1 x =
     (if p \<noteq> Some x then h1 x
      else if sh_left (h1 x) = Some b then (h1 x)\<lparr>sh_left := rep\<rparr> else (h1 x)\<lparr>sh_right := rep\<rparr>)"
  by (cases p) (auto simp: sh_splice_def sh_set_parent_other Let_def)

fun subtree_at :: "'a \<Rightarrow> 'a tree \<Rightarrow> 'a tree" where
  "subtree_at b Leaf = Leaf"
| "subtree_at b (Node l x r) =
     (if x = b then Node l x r else if b \<in> set_tree l then subtree_at b l else subtree_at b r)"

lemma subtree_at_set: "set_tree (subtree_at b t) \<subseteq> set_tree t"
  by (induction t) auto

lemma subtree_at_distinct: "distinct_tree t \<Longrightarrow> distinct_tree (subtree_at b t)"
  by (induction t) auto

lemma subtree_at_node:
  assumes "b \<in> set_tree t" "sh_tree h p e t"
  shows "\<exists>l r. subtree_at b t = Node l b r \<and>
    sh_tree h (Some b) (sh_left (h b)) l \<and> sh_tree h (Some b) (sh_right (h b)) r"
  using assms
proof (induction t arbitrary: p e)
  case (Node l x r)
  then show ?case
    by (cases "x = b"; cases "b \<in> set_tree l") force+
qed simp

lemma sh_parent_inner:
  assumes "b \<in> set_tree t" "sh_tree h p e t" "root_of t \<noteq> Some b"
  shows "\<exists>q \<in> set_tree t. sh_parent (h b) = Some q"
  using assms
proof (induction t arbitrary: p e)
  case (Node l x r)
  have *: "\<exists>q \<in> set_tree (Node l x r). sh_parent (h b) = Some q"
    if "b \<in> set_tree c" "sh_tree h (Some x) d c" "set_tree c \<subseteq> set_tree (Node l x r)"
      "root_of c \<noteq> Some b \<Longrightarrow> \<exists>q \<in> set_tree c. sh_parent (h b) = Some q" for c d
    using that by (cases c; cases "root_of c = Some b") auto
  from Node.prems have "b \<in> set_tree l \<or> b \<in> set_tree r" by auto
  then show ?case
  proof
    assume "b \<in> set_tree l"
    then show ?thesis using Node.prems Node.IH(1) by (intro * [of l "sh_left (h x)"]) auto
  next
    assume "b \<in> set_tree r"
    then show ?thesis using Node.prems Node.IH(2) by (intro * [of r "sh_right (h x)"]) auto
  qed
qed simp

lemma root_of_sh_delete:
  "root_of t \<noteq> Some b \<Longrightarrow> root_of (sh_delete cmp b t) = root_of t"
  by (cases t) auto

lemma sh_delete_root:
  "root_of t = Some b \<Longrightarrow> subtree_at b t = Node l b r \<Longrightarrow> sh_delete cmp b t = sh_merge cmp l r"
  by (cases t) auto

lemma sh_entry_same:
  "sh_left n = v \<Longrightarrow> n\<lparr>sh_left := v\<rparr> = n" "sh_right n = v \<Longrightarrow> n\<lparr>sh_right := v\<rparr> = n"
  by (cases n; simp)+

lemma sh_parent_root: "sh_tree h p e t \<Longrightarrow> root_of t = Some b \<Longrightarrow> sh_parent (h b) = p"
  by (cases t) auto

text \<open>The surgery, by induction on the path from the root to \<open>b\<close>.\<close>

lemma sh_splice_tree:
  assumes "sh_tree h p (root_of t) t" "distinct_tree t" "b \<in> set_tree t" "subtree_at b t = Node l b r"
    and "\<And>q. p = Some q \<Longrightarrow> q \<notin> set_tree t"
    and m: "m = sh_merge cmp l r" "sh_tree h1 s (root_of m) m" "distinct_tree m"
      "\<And>z. z \<notin> set_tree m \<Longrightarrow> h1 z = h z"
  defines "h' \<equiv> sh_splice b (sh_parent (h b)) (root_of m) h1"
  shows "sh_tree h' p (root_of (sh_delete cmp b t)) (sh_delete cmp b t) \<and>
         (\<forall>z. z \<notin> set_tree t \<longrightarrow> p \<noteq> Some z \<longrightarrow> h' z = h z)"
  using assms(1-5)
proof (induction t arbitrary: p)
  case (Node tl x tr)
  have sub: "set_tree m \<subseteq> set_tree d" if "subtree_at b d = Node l b r" for d
    using subtree_at_set [of b d] by (auto simp: m(1) that)
  have nr: "root_of m \<noteq> Some z" if "z \<notin> set_tree m" for z
    using that by (auto dest: root_of_in_set)
  have at: "h' z = (if sh_parent (h b) \<noteq> Some z then h z
      else if sh_left (h z) = Some b then (h z)\<lparr>sh_left := root_of m\<rparr>
      else (h z)\<lparr>sh_right := root_of m\<rparr>)" if "z \<notin> set_tree m" for z
    using sh_splice_at [OF nr [OF that], of b "sh_parent (h b)" h1] m(4) [OF that]
    unfolding h'_def by simp
  have kids: "sh_left (h x) = root_of tl" "sh_right (h x) = root_of tr"
    "sh_tree h (Some x) (root_of tl) tl" "sh_tree h (Some x) (root_of tr) tr"
    using Node.prems(1) sh_tree_root [of h "Some x" "sh_left (h x)" tl]
      sh_tree_root [of h "Some x" "sh_right (h x)" tr] by auto
  show ?case
  proof (cases "x = b")
    case True
    then have p: "sh_parent (h b) = p" and lr: "tl = l" "tr = r" using Node.prems by auto
    have "h' z = sh_set_parent (root_of m) p h1 z" if "z \<in> set_tree m" for z
      using Node.prems(5) sub [OF Node.prems(4)] that unfolding h'_def sh_splice_def Let_def p
      by (cases p) auto
    then have "sh_tree h' p (root_of m) m"
      using sh_tree_set_parent [OF m(2,3)] sh_tree_cong [of m h'] by metis
    then show ?thesis using True lr p m(1) at by auto
  next
    case x: False
    show ?thesis
    proof (cases "b \<in> set_tree tl")
      case True
      then have st: "subtree_at b tl = Node l b r" using Node.prems(4) x by simp
      have IH: "sh_tree h' (Some x) (root_of (sh_delete cmp b tl)) (sh_delete cmp b tl)"
        "\<And>z. z \<notin> set_tree tl \<Longrightarrow> z \<noteq> x \<Longrightarrow> h' z = h z"
        using Node.IH(1) [OF kids(3)] Node.prems(2) True st by auto
      have xm: "x \<notin> set_tree m" using sub [OF st] Node.prems(2) by auto
      have "h' x = (h x)\<lparr>sh_left := root_of (sh_delete cmp b tl)\<rparr>"
        using at [OF xm] kids(1,2) Node.prems(2) sh_parent_inner [OF True kids(3)]
          sh_delete_root [OF _ st, of cmp] root_of_sh_delete [of tl b cmp]
          sh_parent_root [OF kids(3), of b]
        by (cases "root_of tl = Some b") (auto simp: m(1) sh_entry_same)
      moreover have "sh_tree h' (Some x) (root_of tr) tr"
        using IH(2) Node.prems(2) kids(4) by (subst sh_tree_cong [of _ _ h]) auto
      ultimately show ?thesis using IH kids Node.prems(1) x True by auto
    next
      case False
      then have br: "b \<in> set_tree tr" and st: "subtree_at b tr = Node l b r"
        using Node.prems(3,4) x by auto
      have IH: "sh_tree h' (Some x) (root_of (sh_delete cmp b tr)) (sh_delete cmp b tr)"
        "\<And>z. z \<notin> set_tree tr \<Longrightarrow> z \<noteq> x \<Longrightarrow> h' z = h z"
        using Node.IH(2) [OF kids(4)] Node.prems(2) br st by auto
      have xm: "x \<notin> set_tree m" using sub [OF st] Node.prems(2) by auto
      have "h' x = (h x)\<lparr>sh_right := root_of (sh_delete cmp b tr)\<rparr>"
        using at [OF xm] kids(1,2) Node.prems(2) sh_parent_inner [OF br kids(4)] False root_of_in_set [of tl b]
          sh_delete_root [OF _ st, of cmp] root_of_sh_delete [of tr b cmp]
          sh_parent_root [OF kids(4), of b]
        by (cases "root_of tr = Some b") (auto simp: m(1) sh_entry_same)
      moreover have "sh_tree h' (Some x) (root_of tl) tl"
        using IH(2) Node.prems(2) kids(3) by (subst sh_tree_cong [of _ _ h]) auto
      ultimately show ?thesis using IH kids Node.prems(1) x False by auto
    qed
  qed
qed simp

lemma skew_heap_remove_refines:
  assumes t: "sh_tree h None e t" "distinct_tree t" "b \<in> set_tree t"
  shows "\<exists>h'. skew_heap_remove cmp e b h = Some (root_of (sh_delete cmp b t), h') \<and>
           sh_tree h' None (root_of (sh_delete cmp b t)) (sh_delete cmp b t) \<and>
           (\<forall>z. z \<notin> set_tree t \<longrightarrow> h' z = h z)"
proof -
  obtain l r where st: "subtree_at b t = Node l b r"
    and lr: "sh_tree h (Some b) (sh_left (h b)) l" "sh_tree h (Some b) (sh_right (h b)) r"
    using subtree_at_node [OF t(3,1)] by blast
  let ?m = "sh_merge cmp l r"
  have d: "distinct_tree l" "distinct_tree r" "set_tree l \<inter> set_tree r = {}"
    using subtree_at_distinct [OF t(2), of b] unfolding st by auto
  obtain h1 s where mg: "skew_heap_merge cmp (sh_left (h b)) (sh_right (h b)) h = Some (root_of ?m, h1)"
    and m: "sh_tree h1 s (root_of ?m) ?m" "\<And>z. z \<notin> set_tree ?m \<Longrightarrow> h1 z = h z"
    using skew_heap_merge_refines [OF lr d, of cmp] by auto
  note e = sh_tree_root [OF t(1)]
  note spl = sh_splice_tree [OF t(1) [unfolded e] t(2,3) st _ refl m(1) distinct_sh_merge [OF d] m(2)]
  have "(if sh_parent (h b) = None then root_of ?m else e) = root_of (sh_delete cmp b t)"
    using sh_delete_root [OF _ st] root_of_sh_delete [of t b] sh_parent_inner [OF t(3,1)] t e
    by (cases "root_of t = Some b"; cases t) auto
  then show ?thesis using skew_heap_remove_splice [OF mg, of e] spl by simp
qed

section \<open>Heap order\<close>

fun heap_by :: "('a \<Rightarrow> nat) \<Rightarrow> 'a tree \<Rightarrow> bool" where
  "heap_by key Leaf \<longleftrightarrow> True"
| "heap_by key (Node l x r) \<longleftrightarrow>
     (\<forall>y \<in> set_tree l \<union> set_tree r. key x \<le> key y) \<and> heap_by key l \<and> heap_by key r"

lemma heap_by_root:
  "heap_by key t \<Longrightarrow> root_of t = Some x \<Longrightarrow> y \<in> set_tree t \<Longrightarrow> key x \<le> key y"
  by (cases t) auto

lemma heap_by_mono:
  assumes "heap_by key t"
    and "\<And>a b. a \<in> set_tree t \<Longrightarrow> b \<in> set_tree t \<Longrightarrow> key a \<le> key b \<Longrightarrow> key' a \<le> key' b"
  shows "heap_by key' t"
  using assms by (induction t) auto

text \<open>
  What a client's \<open>compare_f\<close> has to promise: on the entries \<open>C\<close> that may meet in one heap, the
  result \<open>-1\<close> decides the strict order of a key.  (The merge only tests for \<open>-1\<close>.)
\<close>

locale keyed_compare =
  fixes cmp :: "'a \<Rightarrow> 'a \<Rightarrow> int" and key :: "'a \<Rightarrow> nat" and C :: "'a set"
  assumes cmp_less: "a \<in> C \<Longrightarrow> b \<in> C \<Longrightarrow> cmp a b = -1 \<longleftrightarrow> key a < key b"
begin

lemma heap_merge_cmp:
  "c = cmp \<Longrightarrow> heap_by key t1 \<Longrightarrow> heap_by key t2 \<Longrightarrow> set_tree t1 \<subseteq> C \<Longrightarrow> set_tree t2 \<subseteq> C \<Longrightarrow>
     heap_by key (sh_merge c t1 t2)"
proof (induction c t1 t2 rule: sh_merge.induct)
  case (3 c l1 a r1 l2 b r2)
  then have "c a b = -1 \<longleftrightarrow> key a < key b" using cmp_less by auto
  then show ?case
    using 3 by (cases "c a b = -1") (simp_all add: ball_Un, (meson le_trans less_imp_le not_less)+)
qed auto

lemmas heap_merge = heap_merge_cmp [OF refl]

lemma heap_insert:
  "heap_by key t \<Longrightarrow> set_tree t \<subseteq> C \<Longrightarrow> b \<in> C \<Longrightarrow> heap_by key (sh_insert cmp b t)"
  by (simp add: sh_insert_def heap_merge)

lemma heap_delete:
  "heap_by key t \<Longrightarrow> set_tree t \<subseteq> C \<Longrightarrow> distinct_tree t \<Longrightarrow> heap_by key (sh_delete cmp b t)"
proof (induction t)
  case (Node l x r)
  then show ?case by (auto simp: heap_merge set_sh_delete)
qed simp

lemma root_min:
  "heap_by key t \<Longrightarrow> root_of t = Some x \<Longrightarrow> set_tree t \<subseteq> C \<Longrightarrow> y \<in> set_tree t \<Longrightarrow>
     cmp y x \<noteq> -1"
  using heap_by_root [of key t x y] cmp_less [of y x] by (cases t) auto

end

end
