(* ===== verification/Kproc.thy ===== *)
theory Kproc
  imports Klist SkewHeap
begin

text \<open>
  The process control block of kern/process/proc.h and the run queue of kern/schedule/sched.h.
  Process pointers are numbers; the list and heap nodes that the C structs embed (\<open>run_link\<close>,
  \<open>lab6_run_pool\<close>) live in stores of their own, indexed by the process that embeds them, which
  is what \<open>le2proc\<close> recovers.
\<close>

type_synonym proc_ptr = nat
type_synonym rq_ptr = nat

datatype proc_state = PROC_UNINIT | PROC_SLEEPING | PROC_RUNNABLE | PROC_ZOMBIE

record kcontext =
  ctx_eip :: u32
  ctx_esp :: u32
  ctx_ebx :: u32
  ctx_ecx :: u32
  ctx_edx :: u32
  ctx_esi :: u32
  ctx_edi :: u32
  ctx_ebp :: u32

definition PROC_NAME_LEN :: nat where "PROC_NAME_LEN = 50"
definition MAX_PROCESS :: int where "MAX_PROCESS = 4096"
definition MAX_PID :: int where "MAX_PID = MAX_PROCESS * 2"

record proc_struct =
  pstate :: proc_state
  proc_pid :: int
  runs :: int
  kstack :: u32
  need_resched :: bool
  parent :: "proc_ptr option"
  proc_mm :: "nat option"
  proc_context :: kcontext
  proc_tf :: u32
  cr3 :: u32
  pflags :: u32
  pname :: "u8 list"
  exit_code :: int
  wait_state :: u32
  cptr :: "proc_ptr option"
  yptr :: "proc_ptr option"
  optr :: "proc_ptr option"
  proc_rq :: "rq_ptr option"
  time_slice :: int
  lab6_stride :: u32
  lab6_priority :: u32
  filesp :: "nat option"

definition PF_EXITING :: u32 where "PF_EXITING = 0x00000001"
definition WT_INTERRUPTED :: u32 where "WT_INTERRUPTED = 0x80000000"
definition WT_CHILD :: u32 where "WT_CHILD = 0x00000001 OR WT_INTERRUPTED"
definition WT_KSEM :: u32 where "WT_KSEM = 0x00000100"
definition WT_TIMER :: u32 where "WT_TIMER = 0x00000002 OR WT_INTERRUPTED"
definition WT_KBD :: u32 where "WT_KBD = 0x00000004 OR WT_INTERRUPTED"

text \<open>
  The assignments of \<open>alloc_proc\<close> to a new, uninitialised struct (its list and heap nodes are set
  in \<open>init_proc_nodes\<close> below).  \<open>exit_code\<close> is left as it was, and of the 51 bytes of the name the
  \<open>memset\<close> clears the first 50.
\<close>

definition kcontext_zero :: kcontext where
  "kcontext_zero = \<lparr>ctx_eip = 0, ctx_esp = 0, ctx_ebx = 0, ctx_ecx = 0, ctx_edx = 0, ctx_esi = 0,
     ctx_edi = 0, ctx_ebp = 0\<rparr>"

definition init_proc :: "u32 \<Rightarrow> proc_struct \<Rightarrow> proc_struct" where
  "init_proc boot_cr3 p =
     p\<lparr>pstate := PROC_UNINIT, proc_pid := -1, runs := 0, kstack := 0, need_resched := False,
       parent := None, proc_mm := None, proc_context := kcontext_zero, proc_tf := 0, cr3 := boot_cr3,
       pflags := 0, pname := replicate PROC_NAME_LEN 0 @ drop PROC_NAME_LEN (pname p),
       wait_state := 0, cptr := None, optr := None, yptr := None, proc_rq := None, time_slice := 0,
       lab6_stride := 0, lab6_priority := 0, filesp := None\<rparr>"

text \<open>
  The nodes a run list can hold: the head embedded in a run queue, or the \<open>run_link\<close> of a process.
\<close>

datatype run_node = RqHead rq_ptr | RunLink proc_ptr

record run_queue =
  proc_num :: u32
  max_time_slice :: int
  lab6_run_pool :: "proc_ptr option"

text \<open>
  The part of the kernel state the scheduler works on.  \<open>run_links\<close> holds \<open>rq->run_list\<close> and the
  \<open>run_link\<close> of every process, \<open>run_pools\<close> the heap entry of every process.
\<close>

record sched_state =
  procs :: "proc_ptr \<Rightarrow> proc_struct"
  run_links :: "run_node lstore"
  run_pools :: "proc_ptr shstore"
  rqs :: "rq_ptr \<Rightarrow> run_queue"
  current :: proc_ptr
  idleproc :: proc_ptr

definition upd_proc :: "proc_ptr \<Rightarrow> (proc_struct \<Rightarrow> proc_struct) \<Rightarrow> sched_state \<Rightarrow> sched_state" where
  "upd_proc p f s = s\<lparr>procs := (procs s)(p := f (procs s p))\<rparr>"

definition upd_rq :: "rq_ptr \<Rightarrow> (run_queue \<Rightarrow> run_queue) \<Rightarrow> sched_state \<Rightarrow> sched_state" where
  "upd_rq q f s = s\<lparr>rqs := (rqs s)(q := f (rqs s q))\<rparr>"

lemma upd_proc_sel [simp]:
  "procs (upd_proc p f s) = (procs s)(p := f (procs s p))"
  "run_links (upd_proc p f s) = run_links s" "run_pools (upd_proc p f s) = run_pools s"
  "rqs (upd_proc p f s) = rqs s" "current (upd_proc p f s) = current s"
  "idleproc (upd_proc p f s) = idleproc s"
  by (simp_all add: upd_proc_def)

lemma upd_rq_sel [simp]:
  "rqs (upd_rq q f s) = (rqs s)(q := f (rqs s q))"
  "run_links (upd_rq q f s) = run_links s" "run_pools (upd_rq q f s) = run_pools s"
  "procs (upd_rq q f s) = procs s" "current (upd_rq q f s) = current s"
  "idleproc (upd_rq q f s) = idleproc s"
  by (simp_all add: upd_rq_def)

definition init_proc_nodes :: "proc_ptr \<Rightarrow> sched_state \<Rightarrow> sched_state" where
  "init_proc_nodes p s =
     s\<lparr>run_links := list_init (RunLink p) (run_links s),
       run_pools := (run_pools s)(p := (run_pools s p)\<lparr>sh_left := None, sh_right := None, sh_parent := None\<rparr>)\<rparr>"

text \<open>
  \<open>proc_run\<close> makes a process current.  Loading the kernel stack pointer and \<open>cr3\<close> and the
  register switch of \<open>switch_to\<close> act on the processor alone and leave this state unchanged.
\<close>

definition proc_run :: "proc_ptr \<Rightarrow> sched_state \<Rightarrow> sched_state" where
  "proc_run p s = (if p \<noteq> current s then s\<lparr>current := p\<rparr> else s)"

lemma proc_run_sel [simp]:
  "procs (proc_run p s) = procs s" "run_links (proc_run p s) = run_links s"
  "run_pools (proc_run p s) = run_pools s" "rqs (proc_run p s) = rqs s"
  "current (proc_run p s) = p" "idleproc (proc_run p s) = idleproc s"
  by (simp_all add: proc_run_def)

end
