(* ===== verification/Sched_class.thy ===== *)
theory Sched_class
  imports Kproc
begin

text \<open>
  The scheduling-class interface of kern/schedule/sched.h: the table of function pointers, and as a
  locale the contract the core scheduler relies on.  A class represents a set of queued processes;
  it may only touch the scheduling fields of a process.
\<close>

record sched_class =
  sc_name :: string
  sc_init :: "rq_ptr \<Rightarrow> sched_state \<Rightarrow> sched_state option"
  sc_enqueue :: "rq_ptr \<Rightarrow> proc_ptr \<Rightarrow> sched_state \<Rightarrow> sched_state option"
  sc_dequeue :: "rq_ptr \<Rightarrow> proc_ptr \<Rightarrow> sched_state \<Rightarrow> sched_state option"
  sc_pick_next :: "rq_ptr \<Rightarrow> sched_state \<Rightarrow> (proc_ptr option \<times> sched_state) option"
  sc_proc_tick :: "rq_ptr \<Rightarrow> proc_ptr \<Rightarrow> sched_state \<Rightarrow> sched_state option"

text \<open>
  \<open>core\<close> blanks the fields a class owns; \<open>sched_frame\<close> says that everything else is unchanged.
\<close>

definition core :: "proc_struct \<Rightarrow> proc_struct" where
  "core p = p\<lparr>proc_rq := None, time_slice := 0, lab6_stride := 0, need_resched := False\<rparr>"

definition sched_frame :: "sched_state \<Rightarrow> sched_state \<Rightarrow> bool" where
  "sched_frame s s' \<longleftrightarrow> current s' = current s \<and> idleproc s' = idleproc s \<and>
     (\<forall>p. core (procs s' p) = core (procs s p))"

lemma sched_frame_refl [simp]: "sched_frame s s"
  by (simp add: sched_frame_def)

lemma sched_frame_trans [trans]:
  "sched_frame s1 s2 \<Longrightarrow> sched_frame s2 s3 \<Longrightarrow> sched_frame s1 s3"
  by (simp add: sched_frame_def)

lemma sched_frame_ctl: "sched_frame s s' \<Longrightarrow> current s' = current s \<and> idleproc s' = idleproc s"
  by (simp add: sched_frame_def)

lemma sched_frame_proc:
  assumes "sched_frame s s'"
  shows "pstate (procs s' p) = pstate (procs s p)"
    and "wait_state (procs s' p) = wait_state (procs s p)"
    and "runs (procs s' p) = runs (procs s p)"
    and "proc_pid (procs s' p) = proc_pid (procs s p)"
proof -
  have *: "core (procs s' p) = core (procs s p)" using assms by (simp add: sched_frame_def)
  show "pstate (procs s' p) = pstate (procs s p)"
    using arg_cong [OF *, of pstate] by (simp add: core_def)
  show "wait_state (procs s' p) = wait_state (procs s p)"
    using arg_cong [OF *, of wait_state] by (simp add: core_def)
  show "runs (procs s' p) = runs (procs s p)"
    using arg_cong [OF *, of runs] by (simp add: core_def)
  show "proc_pid (procs s' p) = proc_pid (procs s p)"
    using arg_cong [OF *, of proc_pid] by (simp add: core_def)
qed

lemma core_upd [simp]:
  "core (r\<lparr>lab6_stride := x\<rparr>) = core r" "core (r\<lparr>time_slice := i\<rparr>) = core r"
  "core (r\<lparr>need_resched := b\<rparr>) = core r" "core (r\<lparr>proc_rq := o1\<rparr>) = core r"
  by (simp_all add: core_def)

lemma card_insert_word:
  "finite Q \<Longrightarrow> p \<notin> Q \<Longrightarrow> of_nat (card (insert p Q)) = (of_nat (card Q) + 1 :: u32)"
  by simp

lemma card_remove_word:
  "finite Q \<Longrightarrow> p \<in> Q \<Longrightarrow> of_nat (card (Q - {p})) = (of_nat (card Q) - 1 :: u32)"
  using card_insert_word [of "Q - {p}" p] by (simp add: insert_absorb)

locale sched_class_spec =
  fixes sc :: sched_class
    and rep :: "rq_ptr \<Rightarrow> proc_ptr set \<Rightarrow> sched_state \<Rightarrow> proc_ptr set \<Rightarrow> bool"
  assumes rep_sub: "rep q D s Q \<Longrightarrow> Q \<subseteq> D \<and> finite Q"
    and rep_num: "rep q D s Q \<Longrightarrow> proc_num (rqs s q) = of_nat (card Q)"
    and rep_upd: "rep q D s Q \<Longrightarrow> (\<And>r. proc_rq (f r) = proc_rq r) \<Longrightarrow> rep q D (upd_proc p f s) Q"
    and rep_current: "rep q D (s\<lparr>current := c\<rparr>) Q \<longleftrightarrow> rep q D s Q"
    and init_law: "\<exists>s'. sc_init sc q s = Some s' \<and> rep q {} s' {} \<and> sched_frame s s'"
    and enqueue_law: "rep q D s Q \<Longrightarrow> p \<in> D - Q \<Longrightarrow>
      \<exists>s'. sc_enqueue sc q p s = Some s' \<and> rep q D s' (insert p Q) \<and> sched_frame s s'"
    and dequeue_law: "rep q D s Q \<Longrightarrow> p \<in> Q \<Longrightarrow>
      \<exists>s'. sc_dequeue sc q p s = Some s' \<and> rep q D s' (Q - {p}) \<and> sched_frame s s'"
    and pick_law: "rep q D s Q \<Longrightarrow>
      \<exists>r s'. sc_pick_next sc q s = Some (r, s') \<and> rep q D s' Q \<and> sched_frame s s' \<and>
             (r = None \<longleftrightarrow> Q = {}) \<and> (\<forall>p. r = Some p \<longrightarrow> p \<in> Q)"
    and tick_law: "rep q D s Q \<Longrightarrow>
      \<exists>s'. sc_proc_tick sc q p s = Some s' \<and> rep q D s' Q \<and> sched_frame s s'"

end
