(* ===== verification/Sched_stride.thy ===== *)
theory Sched_stride
  imports Sched_class
begin

text \<open>
  The stride scheduling class of kern/schedule/default_sched.c in its \<open>USE_SKEW_HEAP\<close> configuration.
  Strides are 32-bit counters that wrap around; the comparison takes their difference as a signed
  number.
\<close>

section \<open>The operations\<close>

definition BIG_STRIDE :: u32 where "BIG_STRIDE = 0x7FFFFFFF"

definition proc_stride_comp_f :: "(proc_ptr \<Rightarrow> proc_struct) \<Rightarrow> proc_ptr \<Rightarrow> proc_ptr \<Rightarrow> int" where
  "proc_stride_comp_f ps p q =
     (let c = sint (lab6_stride (ps p) - lab6_stride (ps q))
      in if c > 0 then 1 else if c = 0 then 0 else -1)"

definition stride_init :: "rq_ptr \<Rightarrow> sched_state \<Rightarrow> sched_state option" where
  "stride_init q s =
     do { let s = s\<lparr>run_links := list_init (RqHead q) (run_links s)\<rparr>;
          let s = upd_rq q (\<lambda>r. r\<lparr>lab6_run_pool := None\<rparr>) s;
          Some (upd_rq q (\<lambda>r. r\<lparr>proc_num := 0\<rparr>) s) }"

definition stride_enqueue :: "rq_ptr \<Rightarrow> proc_ptr \<Rightarrow> sched_state \<Rightarrow> sched_state option" where
  "stride_enqueue q p s =
     do { (root, pools) \<leftarrow>
            skew_heap_insert (proc_stride_comp_f (procs s)) (lab6_run_pool (rqs s q)) p (run_pools s);
          let s = upd_rq q (\<lambda>r. r\<lparr>lab6_run_pool := root\<rparr>) (s\<lparr>run_pools := pools\<rparr>);
          let s = (if time_slice (procs s p) = 0 \<or> time_slice (procs s p) > max_time_slice (rqs s q)
                   then upd_proc p (\<lambda>r. r\<lparr>time_slice := max_time_slice (rqs s q)\<rparr>) s else s);
          let s = upd_proc p (\<lambda>r. r\<lparr>proc_rq := Some q\<rparr>) s;
          Some (upd_rq q (\<lambda>r. r\<lparr>proc_num := proc_num r + 1\<rparr>) s) }"

definition stride_dequeue :: "rq_ptr \<Rightarrow> proc_ptr \<Rightarrow> sched_state \<Rightarrow> sched_state option" where
  "stride_dequeue q p s =
     do { (root, pools) \<leftarrow>
            skew_heap_remove (proc_stride_comp_f (procs s)) (lab6_run_pool (rqs s q)) p (run_pools s);
          let s = upd_rq q (\<lambda>r. r\<lparr>lab6_run_pool := root\<rparr>) (s\<lparr>run_pools := pools\<rparr>);
          Some (upd_rq q (\<lambda>r. r\<lparr>proc_num := proc_num r - 1\<rparr>) s) }"

definition stride_pass :: "u32 \<Rightarrow> u32" where
  "stride_pass priority = (if priority = 0 then BIG_STRIDE else BIG_STRIDE div priority)"

definition stride_pick_next :: "rq_ptr \<Rightarrow> sched_state \<Rightarrow> (proc_ptr option \<times> sched_state) option" where
  "stride_pick_next q s =
     (case lab6_run_pool (rqs s q) of
        None \<Rightarrow> Some (None, s)
      | Some p \<Rightarrow>
          Some (Some p,
            upd_proc p (\<lambda>r. r\<lparr>lab6_stride := lab6_stride r + stride_pass (lab6_priority r)\<rparr>) s))"

definition stride_proc_tick :: "rq_ptr \<Rightarrow> proc_ptr \<Rightarrow> sched_state \<Rightarrow> sched_state option" where
  "stride_proc_tick q p s =
     do { let s = (if time_slice (procs s p) > 0
                   then upd_proc p (\<lambda>r. r\<lparr>time_slice := time_slice r - 1\<rparr>) s else s);
          Some (if time_slice (procs s p) = 0
                then upd_proc p (\<lambda>r. r\<lparr>need_resched := True\<rparr>) s else s) }"

definition default_sched_class :: sched_class where
  "default_sched_class =
     \<lparr>sc_name = ''stride_scheduler'', sc_init = stride_init, sc_enqueue = stride_enqueue,
      sc_dequeue = stride_dequeue, sc_pick_next = stride_pick_next, sc_proc_tick = stride_proc_tick\<rparr>"

section \<open>The contract\<close>

definition stride_heap :: "rq_ptr \<Rightarrow> sched_state \<Rightarrow> proc_ptr tree \<Rightarrow> bool" where
  "stride_heap q s t \<longleftrightarrow>
     sh_tree (run_pools s) None (lab6_run_pool (rqs s q)) t \<and> distinct_tree t"

definition stride_rep :: "rq_ptr \<Rightarrow> proc_ptr set \<Rightarrow> sched_state \<Rightarrow> proc_ptr set \<Rightarrow> bool" where
  "stride_rep q D s Q \<longleftrightarrow> Q \<subseteq> D \<and> (\<exists>t. stride_heap q s t \<and> set_tree t = Q) \<and>
     proc_num (rqs s q) = of_nat (card Q)"

lemma stride_heap_upd [simp]: "stride_heap q (upd_proc p f s) t = stride_heap q s t"
  "stride_heap q (s\<lparr>current := c\<rparr>) t = stride_heap q s t"
  by (simp_all add: stride_heap_def)

lemma stride_enqueue_heap:
  assumes "stride_heap q s t" "p \<notin> set_tree t"
  shows "\<exists>s'. stride_enqueue q p s = Some s' \<and>
           stride_heap q s' (sh_insert (proc_stride_comp_f (procs s)) p t) \<and>
           sched_frame s s' \<and> proc_num (rqs s' q) = proc_num (rqs s q) + 1 \<and>
           (\<forall>r. lab6_stride (procs s' r) = lab6_stride (procs s r))"
proof -
  obtain h' where
    "skew_heap_insert (proc_stride_comp_f (procs s)) (lab6_run_pool (rqs s q)) p (run_pools s) =
       Some (root_of (sh_insert (proc_stride_comp_f (procs s)) p t), h')"
    "sh_tree h' None (root_of (sh_insert (proc_stride_comp_f (procs s)) p t))
       (sh_insert (proc_stride_comp_f (procs s)) p t)"
    using skew_heap_insert_refines [of "run_pools s" "lab6_run_pool (rqs s q)" t p] assms
    by (auto simp: stride_heap_def)
  with assms show ?thesis
    by (simp add: stride_enqueue_def Let_def stride_heap_def sched_frame_def distinct_sh_insert)
qed

lemma stride_dequeue_heap:
  assumes "stride_heap q s t" "p \<in> set_tree t"
  shows "\<exists>s'. stride_dequeue q p s = Some s' \<and>
           stride_heap q s' (sh_delete (proc_stride_comp_f (procs s)) p t) \<and>
           sched_frame s s' \<and> proc_num (rqs s' q) = proc_num (rqs s q) - 1 \<and> procs s' = procs s"
proof -
  obtain h' where
    "skew_heap_remove (proc_stride_comp_f (procs s)) (lab6_run_pool (rqs s q)) p (run_pools s) =
       Some (root_of (sh_delete (proc_stride_comp_f (procs s)) p t), h')"
    "sh_tree h' None (root_of (sh_delete (proc_stride_comp_f (procs s)) p t))
       (sh_delete (proc_stride_comp_f (procs s)) p t)"
    using skew_heap_remove_refines [of "run_pools s" "lab6_run_pool (rqs s q)" t p] assms
    by (auto simp: stride_heap_def)
  with assms show ?thesis
    by (simp add: stride_dequeue_def Let_def stride_heap_def sched_frame_def distinct_sh_delete)
qed

lemma stride_pick_heap:
  assumes "stride_heap q s t"
  shows "\<exists>s'. stride_pick_next q s = Some (root_of t, s') \<and> stride_heap q s' t \<and>
           sched_frame s s' \<and> rqs s' = rqs s \<and>
           (\<forall>r. lab6_stride (procs s' r) = (if root_of t = Some r
              then lab6_stride (procs s r) + stride_pass (lab6_priority (procs s r))
              else lab6_stride (procs s r)))"
  using assms sh_tree_root [of "run_pools s" None "lab6_run_pool (rqs s q)" t]
  by (auto simp: stride_pick_next_def stride_heap_def sched_frame_def split: option.splits)

lemma stride_rep_heap:
  "stride_rep q D s Q \<longleftrightarrow> Q \<subseteq> D \<and> finite Q \<and> (\<exists>t. stride_heap q s t \<and> set_tree t = Q) \<and>
     proc_num (rqs s q) = of_nat (card Q)"
  by (auto simp: stride_rep_def)

interpretation stride: sched_class_spec default_sched_class stride_rep
proof unfold_locales
  show "stride_rep q D s Q \<Longrightarrow> Q \<subseteq> D \<and> finite Q" for q D s Q
    by (auto simp: stride_rep_def)
  show "stride_rep q D s Q \<Longrightarrow> proc_num (rqs s q) = of_nat (card Q)" for q D s Q
    by (simp add: stride_rep_def)
  show "stride_rep q D (upd_proc p f s) Q" if "stride_rep q D s Q" for q D s Q f p
    using that by (simp add: stride_rep_def)
  show "stride_rep q D (s\<lparr>current := c\<rparr>) Q \<longleftrightarrow> stride_rep q D s Q" for q D s Q c
    by (simp add: stride_rep_def)
  show "\<exists>s'. sc_init default_sched_class q s = Some s' \<and> stride_rep q {} s' {} \<and> sched_frame s s'" for q s
    by (auto simp: default_sched_class_def stride_init_def Let_def stride_rep_def stride_heap_def
        sched_frame_def intro!: exI [of _ Leaf])
  show "\<exists>s'. sc_enqueue default_sched_class q p s = Some s' \<and> stride_rep q D s' (insert p Q) \<and>
          sched_frame s s'" if r: "stride_rep q D s Q" "p \<in> D - Q" for q D s Q p
  proof -
    obtain t where t: "stride_heap q s t" "set_tree t = Q" using r by (auto simp: stride_rep_def)
    obtain s' where s': "stride_enqueue q p s = Some s'" "sched_frame s s'"
      "stride_heap q s' (sh_insert (proc_stride_comp_f (procs s)) p t)"
      "proc_num (rqs s' q) = proc_num (rqs s q) + 1"
      using stride_enqueue_heap [OF t(1), of p] r t(2) by auto
    then have "\<exists>t'. stride_heap q s' t' \<and> set_tree t' = insert p Q"
      by (intro exI [of _ "sh_insert (proc_stride_comp_f (procs s)) p t"]) (simp add: t(2))
    with s' r show ?thesis by (simp add: default_sched_class_def stride_rep_heap)
  qed
  show "\<exists>s'. sc_dequeue default_sched_class q p s = Some s' \<and> stride_rep q D s' (Q - {p}) \<and>
          sched_frame s s'" if r: "stride_rep q D s Q" "p \<in> Q" for q D s Q p
  proof -
    obtain t where t: "stride_heap q s t" "set_tree t = Q" using r by (auto simp: stride_rep_def)
    obtain s' where s': "stride_dequeue q p s = Some s'" "sched_frame s s'"
      "stride_heap q s' (sh_delete (proc_stride_comp_f (procs s)) p t)"
      "proc_num (rqs s' q) = proc_num (rqs s q) - 1"
      using stride_dequeue_heap [OF t(1), of p] r t(2) by auto
    then have "\<exists>t'. stride_heap q s' t' \<and> set_tree t' = Q - {p}"
      using t by (intro exI [of _ "sh_delete (proc_stride_comp_f (procs s)) p t"])
        (simp add: stride_heap_def set_sh_delete)
    with s' r show ?thesis
      using card_remove_word [of Q p] by (auto simp: default_sched_class_def stride_rep_heap)
  qed
  show "\<exists>r s'. sc_pick_next default_sched_class q s = Some (r, s') \<and> stride_rep q D s' Q \<and>
          sched_frame s s' \<and> (r = None \<longleftrightarrow> Q = {}) \<and> (\<forall>p. r = Some p \<longrightarrow> p \<in> Q)"
    if r: "stride_rep q D s Q" for q D s Q
  proof -
    obtain t where t: "stride_heap q s t" "set_tree t = Q" using r by (auto simp: stride_rep_def)
    obtain s' where s': "stride_pick_next q s = Some (root_of t, s')" "sched_frame s s'"
      "stride_heap q s' t" "rqs s' = rqs s"
      using stride_pick_heap [OF t(1)] by auto
    moreover have "root_of t = None \<longleftrightarrow> Q = {}" using t by auto
    ultimately show ?thesis
      using r t root_of_in_set [of t] by (auto simp: default_sched_class_def stride_rep_def)
  qed
  show "\<exists>s'. sc_proc_tick default_sched_class q p s = Some s' \<and> stride_rep q D s' Q \<and> sched_frame s s'"
    if "stride_rep q D s Q" for q D s Q p
    using that
    by (auto simp: default_sched_class_def stride_proc_tick_def Let_def stride_rep_def sched_frame_def)
qed

section \<open>Wrap-around of strides\<close>

text \<open>
  The strides of the queued processes stay in a window of width \<open>BIG_STRIDE\<close> above some base (all
  modulo \<open>2 ^ 32\<close>); there the signed comparison agrees with the distance from the base.
\<close>

definition stride_dist :: "u32 \<Rightarrow> (proc_ptr \<Rightarrow> proc_struct) \<Rightarrow> proc_ptr \<Rightarrow> nat" where
  "stride_dist base ps p = unat (lab6_stride (ps p) - base)"

definition stride_window :: "u32 \<Rightarrow> (proc_ptr \<Rightarrow> proc_struct) \<Rightarrow> proc_ptr set" where
  "stride_window base ps = {p. stride_dist base ps p \<le> unat BIG_STRIDE}"

lemma sint_diff_window:
  fixes x y :: u32
  assumes "unat x \<le> 0x7FFFFFFF" "unat y \<le> 0x7FFFFFFF"
  shows "sint (x - y) = int (unat x) - int (unat y)"
proof -
  have u: "uint x = int (unat x)" "uint y = int (unat y)" by simp_all
  have two31: "(2 ^ 31 :: int) = 0x80000000" by simp
  have "sint (word_of_int (uint x - uint y) :: u32) = signed_take_bit 31 (uint x - uint y)"
    by (simp only: signed_of_int) simp
  moreover have "(word_of_int (uint x - uint y) :: u32) = x - y" by simp
  moreover have "signed_take_bit 31 (uint x - uint y) = uint x - uint y"
    using assms unfolding u by (intro signed_take_bit_int_eq_self) (unfold two31, linarith+)
  ultimately have "sint (x - y) = uint x - uint y" by metis
  then show ?thesis by simp
qed

interpretation stride_cmp: keyed_compare "proc_stride_comp_f ps" "stride_dist base ps" "stride_window base ps"
  for ps base
proof unfold_locales
  fix p q
  assume *: "p \<in> stride_window base ps" "q \<in> stride_window base ps"
  have "lab6_stride (ps p) - lab6_stride (ps q) = (lab6_stride (ps p) - base) - (lab6_stride (ps q) - base)"
    by simp
  then have "sint (lab6_stride (ps p) - lab6_stride (ps q)) =
      int (stride_dist base ps p) - int (stride_dist base ps q)"
    using sint_diff_window [of "lab6_stride (ps p) - base" "lab6_stride (ps q) - base"] *
    by (simp only: stride_dist_def stride_window_def BIG_STRIDE_def) simp
  then show "proc_stride_comp_f ps p q = -1 \<longleftrightarrow> stride_dist base ps p < stride_dist base ps q"
    by (auto simp: proc_stride_comp_f_def Let_def)
qed

lemma stride_pass_le: "unat (stride_pass pr) \<le> unat BIG_STRIDE"
  by (simp add: stride_pass_def unat_div div_le_dividend)

text \<open>
  After a process at distance zero from the base moves on by one pass, everybody is still in the
  window above the same base, so its next comparison is again the true order.
\<close>

lemma stride_window_step:
  assumes "lab6_stride (ps p) = base" "Q \<subseteq> stride_window base ps"
    and "\<And>r. lab6_stride (ps' r) = (if r = p then lab6_stride (ps r) + stride_pass pr
           else lab6_stride (ps r))"
  shows "insert p Q \<subseteq> stride_window base ps'"
  using assms stride_pass_le [of pr] by (auto simp: stride_window_def stride_dist_def)

text \<open>The base of the window can be moved up to the least stride of the queue.\<close>

lemma stride_window_shift:
  assumes "Q \<subseteq> stride_window base ps" "m \<in> Q" "\<And>r. r \<in> Q \<Longrightarrow> stride_dist base ps m \<le> stride_dist base ps r"
  shows "Q \<subseteq> stride_window (lab6_stride (ps m)) ps"
proof
  fix r assume r: "r \<in> Q"
  let ?x = "lab6_stride (ps r) - base" and ?y = "lab6_stride (ps m) - base"
  have "unat (?x - ?y) = unat ?x - unat ?y"
    using assms(3) [OF r] unfolding stride_dist_def by (intro unat_sub) (simp add: word_le_nat_alt)
  moreover have "unat ?x \<le> unat BIG_STRIDE"
    using assms(1) r by (auto simp: stride_window_def stride_dist_def)
  ultimately show "r \<in> stride_window (lab6_stride (ps m)) ps"
    by (simp add: stride_window_def stride_dist_def)
qed

lemma stride_dist_shift:
  assumes "stride_dist base ps m \<le> stride_dist base ps r"
  shows "stride_dist (lab6_stride (ps m)) ps r = stride_dist base ps r - stride_dist base ps m"
proof -
  let ?x = "lab6_stride (ps r) - base" and ?y = "lab6_stride (ps m) - base"
  have "unat (?x - ?y) = unat ?x - unat ?y"
    using assms unfolding stride_dist_def by (intro unat_sub) (simp add: word_le_nat_alt)
  then show ?thesis by (simp add: stride_dist_def)
qed

text \<open>
  One round: the least process is picked and charged its pass, taken out, and put back.  The state
  before and after satisfies \<open>stride_inv\<close>, each time for its own base.
\<close>

definition stride_inv :: "u32 \<Rightarrow> rq_ptr \<Rightarrow> sched_state \<Rightarrow> proc_ptr tree \<Rightarrow> bool" where
  "stride_inv base q s t \<longleftrightarrow> stride_heap q s t \<and>
     heap_by (stride_dist base (procs s)) t \<and> set_tree t \<subseteq> stride_window base (procs s)"

lemma stride_inv_rebase:
  assumes "stride_inv base q s t" "root_of t = Some p"
  shows "stride_inv (lab6_stride (procs s p)) q s t"
proof -
  let ?d = "stride_dist base (procs s)" and ?d' = "stride_dist (lab6_stride (procs s p)) (procs s)"
  have min: "?d p \<le> ?d r" if "r \<in> set_tree t" for r
    using assms that heap_by_root by (fastforce simp: stride_inv_def)
  then have "?d' r = ?d r - ?d p" if "r \<in> set_tree t" for r
    using that by (intro stride_dist_shift)
  then have "heap_by ?d' t"
    using assms(1) by (intro heap_by_mono [of ?d t ?d']) (auto simp: stride_inv_def)
  moreover have "set_tree t \<subseteq> stride_window (lab6_stride (procs s p)) (procs s)"
    using assms min root_of_in_set [of t p] by (intro stride_window_shift [of _ base]) (auto simp: stride_inv_def)
  ultimately show ?thesis using assms(1) by (simp add: stride_inv_def)
qed

lemma stride_inv_cong:
  assumes "\<And>r. r \<in> set_tree t \<Longrightarrow> lab6_stride (ps' r) = lab6_stride (ps r)"
  shows "heap_by (stride_dist base ps') t = heap_by (stride_dist base ps) t"
    and "set_tree t \<subseteq> stride_window base ps' \<longleftrightarrow> set_tree t \<subseteq> stride_window base ps"
  using assms heap_by_mono [of "stride_dist base ps'" t "stride_dist base ps"]
    heap_by_mono [of "stride_dist base ps" t "stride_dist base ps'"]
  by (auto simp: stride_dist_def stride_window_def subset_iff)

text \<open>The process that was picked is taken out of the heap, and the order of the rest is intact.\<close>

lemma stride_take_next:
  assumes inv: "stride_inv base q s t" and p: "root_of t = Some p"
  shows "\<exists>s1 s2 t2. stride_pick_next q s = Some (Some p, s1) \<and> stride_dequeue q p s1 = Some s2 \<and>
           stride_inv (lab6_stride (procs s p)) q s2 t2 \<and> set_tree t2 = set_tree t - {p} \<and>
           (\<forall>r. lab6_stride (procs s2 r) = lab6_stride (procs s r) +
              (if r = p then stride_pass (lab6_priority (procs s p)) else 0))"
proof -
  let ?b = "lab6_stride (procs s p)"
  have inv': "stride_inv ?b q s t" by (rule stride_inv_rebase [OF assms])
  obtain s1 where s1: "stride_pick_next q s = Some (Some p, s1)" "stride_heap q s1 t"
    "\<And>r. lab6_stride (procs s1 r) = lab6_stride (procs s r) +
       (if r = p then stride_pass (lab6_priority (procs s p)) else 0)"
    using stride_pick_heap [of q s t] inv p by (auto simp: stride_inv_def)
  obtain l r where t: "t = Node l p r" using p by (cases t) auto
  let ?t2 = "sh_delete (proc_stride_comp_f (procs s1)) p t"
  have pn: "p \<notin> set_tree l" "p \<notin> set_tree r" using s1(2) t by (auto simp: stride_heap_def)
  obtain s2 where s2: "stride_dequeue q p s1 = Some s2" "stride_heap q s2 ?t2" "procs s2 = procs s1"
    using stride_dequeue_heap [OF s1(2), of p] t by auto
  have lr: "heap_by (stride_dist ?b (procs s1)) u" "set_tree u \<subseteq> stride_window ?b (procs s1)"
    if u: "u \<in> {l, r}" for u
  proof -
    have "lab6_stride (procs s1 v) = lab6_stride (procs s v)" if "v \<in> set_tree u" for v
      using that u pn s1(3) by auto
    then show "heap_by (stride_dist ?b (procs s1)) u" "set_tree u \<subseteq> stride_window ?b (procs s1)"
      using u inv' t stride_inv_cong [of u "procs s1" "procs s" ?b] by (auto simp: stride_inv_def)
  qed
  have "heap_by (stride_dist ?b (procs s1)) ?t2"
    using lr [of l] lr [of r] stride_cmp.heap_merge [of ?b "procs s1" l r] t by simp
  then have "stride_inv ?b q s2 ?t2"
    using s2 lr [of l] lr [of r] t by (simp add: stride_inv_def)
  then show ?thesis
    using s1 s2 set_sh_delete [of t "proc_stride_comp_f (procs s1)" p]
    by (intro exI [of _ s1] exI [of _ s2] exI [of _ ?t2]) (auto simp: stride_heap_def)
qed

lemma stride_put_back:
  assumes inv: "stride_inv base q s t" and p: "p \<notin> set_tree t" "p \<in> stride_window base (procs s)"
  shows "\<exists>s' t'. stride_enqueue q p s = Some s' \<and> stride_inv base q s' t' \<and>
           set_tree t' = insert p (set_tree t) \<and>
           (\<forall>r. lab6_stride (procs s' r) = lab6_stride (procs s r))"
proof -
  let ?t = "sh_insert (proc_stride_comp_f (procs s)) p t"
  obtain s' where s': "stride_enqueue q p s = Some s'" "stride_heap q s' ?t"
    "\<And>r. lab6_stride (procs s' r) = lab6_stride (procs s r)"
    using stride_enqueue_heap [of q s t p] inv p by (auto simp: stride_inv_def)
  have "heap_by (stride_dist base (procs s)) ?t" "set_tree ?t \<subseteq> stride_window base (procs s)"
    using stride_cmp.heap_insert [of base "procs s" t p] inv p by (auto simp: stride_inv_def)
  then have "stride_inv base q s' ?t"
    using s'(2,3) stride_inv_cong [of ?t "procs s'" "procs s" base] by (simp add: stride_inv_def)
  with s' show ?thesis by (intro exI [of _ s'] exI [of _ ?t]) simp
qed

section \<open>Properties\<close>

text \<open>
  C1: Stride scheduling is correct across wrap-around of the 32-bit strides.  If the strides of the
  queued processes lie in a window of width \<open>BIG_STRIDE\<close> and the heap is ordered by distance from the
  base of that window, then \<open>stride_pick_next\<close> returns a process of least distance, taking it out and
  putting it back succeeds, and the new heap holds the same processes, is ordered again, and has its
  strides in the window that starts at the stride just served.
\<close>

theorem stride_round:
  assumes inv: "stride_inv base q s t" and p: "root_of t = Some p"
  shows "(\<forall>r \<in> set_tree t. stride_dist base (procs s) p \<le> stride_dist base (procs s) r) \<and>
    (\<exists>s1 s2 s3 t3. stride_pick_next q s = Some (Some p, s1) \<and> stride_dequeue q p s1 = Some s2 \<and>
       stride_enqueue q p s2 = Some s3 \<and> stride_inv (lab6_stride (procs s p)) q s3 t3 \<and>
       set_tree t3 = set_tree t \<and>
       lab6_stride (procs s3 p) = lab6_stride (procs s p) + stride_pass (lab6_priority (procs s p)))"
proof
  show "\<forall>r \<in> set_tree t. stride_dist base (procs s) p \<le> stride_dist base (procs s) r"
    using inv p heap_by_root [of "stride_dist base (procs s)" t p] by (auto simp: stride_inv_def)
  let ?b = "lab6_stride (procs s p)"
  obtain s1 s2 t2 where 1: "stride_pick_next q s = Some (Some p, s1)" "stride_dequeue q p s1 = Some s2"
    "stride_inv ?b q s2 t2" "set_tree t2 = set_tree t - {p}"
    "lab6_stride (procs s2 p) = ?b + stride_pass (lab6_priority (procs s p))"
    using stride_take_next [OF inv p] by auto
  have "p \<in> stride_window ?b (procs s2)"
    using stride_pass_le by (simp add: 1(5) stride_window_def stride_dist_def)
  then obtain s3 t3 where "stride_enqueue q p s2 = Some s3" "stride_inv ?b q s3 t3"
    "set_tree t3 = insert p (set_tree t2)" "lab6_stride (procs s3 p) = lab6_stride (procs s2 p)"
    using stride_put_back [OF 1(3), of p] 1(4) by auto
  moreover have "insert p (set_tree t2) = set_tree t" using 1(4) root_of_in_set [OF p] by auto
  ultimately show "\<exists>s1 s2 s3 t3. stride_pick_next q s = Some (Some p, s1) \<and>
       stride_dequeue q p s1 = Some s2 \<and>
       stride_enqueue q p s2 = Some s3 \<and> stride_inv (lab6_stride (procs s p)) q s3 t3 \<and>
       set_tree t3 = set_tree t \<and>
       lab6_stride (procs s3 p) = lab6_stride (procs s p) + stride_pass (lab6_priority (procs s p))"
    using 1 by (intro exI [of _ s1] exI [of _ s2] exI [of _ s3] exI [of _ t3]) simp
qed

text \<open>
  Two processes whose strides straddle the wrap-around: 1 at \<open>2 ^ 32 - 16\<close>, 2 at 5.
\<close>

definition ex_proc :: "nat \<Rightarrow> proc_struct" where
  "ex_proc p = init_proc 0 \<lparr>pstate = PROC_UNINIT, proc_pid = int p, runs = 0, kstack = 0, need_resched = False,
     parent = None, proc_mm = None, proc_context = kcontext_zero, proc_tf = 0, cr3 = 0, pflags = 0,
     pname = [], exit_code = 0, wait_state = 0, cptr = None, yptr = None, optr = None, proc_rq = None,
     time_slice = 0, lab6_stride = 0, lab6_priority = 0, filesp = None\<rparr>"

definition ex_sched :: sched_state where
  "ex_sched =
     \<lparr>procs = (\<lambda>p. (ex_proc p)\<lparr>pstate := PROC_RUNNABLE, lab6_stride := (if p = 1 then - 16 else 5), lab6_priority := 3\<rparr>),
      run_links = (\<lambda>n. \<lparr>le_prev = n, le_next = n\<rparr>),
      run_pools = (\<lambda>_. \<lparr>sh_parent = None, sh_left = None, sh_right = None\<rparr>)
        (1 := \<lparr>sh_parent = None, sh_left = Some 2, sh_right = None\<rparr>,
         2 := \<lparr>sh_parent = Some 1, sh_left = None, sh_right = None\<rparr>),
      rqs = (\<lambda>_. \<lparr>proc_num = 2, max_time_slice = 5, lab6_run_pool = Some 1\<rparr>),
      current = 0, idleproc = 0\<rparr>"

lemma ex_sched_inv: "stride_inv (- 16) 0 ex_sched (Node (Node Leaf 2 Leaf) 1 Leaf)"
  by (simp add: stride_inv_def stride_heap_def stride_window_def stride_dist_def ex_sched_def
      BIG_STRIDE_def)

theorem stride_round_witness:
  "stride_inv (- 16) 0 ex_sched (Node (Node Leaf 2 Leaf) 1 Leaf) \<and>
   stride_dist (- 16) (procs ex_sched) 1 \<le> stride_dist (- 16) (procs ex_sched) 2 \<and>
   (\<exists>s1. stride_pick_next 0 ex_sched = Some (Some 1, s1))"
  using stride_round [OF ex_sched_inv, of 1] ex_sched_inv by auto

end
