(* ===== verification/Sched_RR.thy ===== *)
theory Sched_RR
  imports Sched_class
begin

text \<open>
  The round-robin scheduling class of kern/schedule/sched_RR.c, on the pointer-level run list, and
  its copy in kern/schedule/sched_mpRR.c.  The asserts of the C code on \<open>run_link\<close> are branches of
  the model; the contract shows that they hold whenever the core scheduler calls the class.
\<close>

section \<open>The operations\<close>

definition RR_init :: "rq_ptr \<Rightarrow> sched_state \<Rightarrow> sched_state option" where
  "RR_init q s =
     (let s = s\<lparr>run_links := list_init (RqHead q) (run_links s)\<rparr>
      in Some (upd_rq q (\<lambda>r. r\<lparr>proc_num := 0\<rparr>) s))"

definition RR_enqueue :: "rq_ptr \<Rightarrow> proc_ptr \<Rightarrow> sched_state \<Rightarrow> sched_state option" where
  "RR_enqueue q p s =
     do { kassert (list_empty (run_links s) (RunLink p));
          let s = s\<lparr>run_links := list_add_before (RqHead q) (RunLink p) (run_links s)\<rparr>;
          let s = (if time_slice (procs s p) = 0 \<or> time_slice (procs s p) > max_time_slice (rqs s q)
                   then upd_proc p (\<lambda>r. r\<lparr>time_slice := max_time_slice (rqs s q)\<rparr>) s else s);
          let s = upd_proc p (\<lambda>r. r\<lparr>proc_rq := Some q\<rparr>) s;
          Some (upd_rq q (\<lambda>r. r\<lparr>proc_num := proc_num r + 1\<rparr>) s) }"

definition RR_dequeue :: "rq_ptr \<Rightarrow> proc_ptr \<Rightarrow> sched_state \<Rightarrow> sched_state option" where
  "RR_dequeue q p s =
     do { kassert (\<not> list_empty (run_links s) (RunLink p) \<and> proc_rq (procs s p) = Some q);
          let s = s\<lparr>run_links := list_del_init (RunLink p) (run_links s)\<rparr>;
          Some (upd_rq q (\<lambda>r. r\<lparr>proc_num := proc_num r - 1\<rparr>) s) }"

text \<open>\<open>le2proc\<close> of the head of the run list is never taken: the code tests for the head first.\<close>

definition RR_pick_next :: "rq_ptr \<Rightarrow> sched_state \<Rightarrow> (proc_ptr option \<times> sched_state) option" where
  "RR_pick_next q s =
     (case list_next (run_links s) (RqHead q) of
        RunLink p \<Rightarrow> Some (Some p, s)
      | RqHead q' \<Rightarrow> if q' = q then Some (None, s) else None)"

definition RR_proc_tick :: "rq_ptr \<Rightarrow> proc_ptr \<Rightarrow> sched_state \<Rightarrow> sched_state option" where
  "RR_proc_tick q p s =
     do { let s = (if time_slice (procs s p) > 0
                   then upd_proc p (\<lambda>r. r\<lparr>time_slice := time_slice r - 1\<rparr>) s else s);
          Some (if time_slice (procs s p) = 0
                then upd_proc p (\<lambda>r. r\<lparr>need_resched := True\<rparr>) s else s) }"

definition RR_sched_class :: sched_class where
  "RR_sched_class =
     \<lparr>sc_name = ''RR_scheduler'', sc_init = RR_init, sc_enqueue = RR_enqueue,
      sc_dequeue = RR_dequeue, sc_pick_next = RR_pick_next, sc_proc_tick = RR_proc_tick\<rparr>"

section \<open>The multiprocessor copy\<close>

definition MPRR_init :: "rq_ptr \<Rightarrow> sched_state \<Rightarrow> sched_state option" where
  "MPRR_init q s =
     (let s = s\<lparr>run_links := list_init (RqHead q) (run_links s)\<rparr>
      in Some (upd_rq q (\<lambda>r. r\<lparr>proc_num := 0\<rparr>) s))"

definition MPRR_enqueue :: "rq_ptr \<Rightarrow> proc_ptr \<Rightarrow> sched_state \<Rightarrow> sched_state option" where
  "MPRR_enqueue q p s =
     do { kassert (list_empty (run_links s) (RunLink p));
          let s = s\<lparr>run_links := list_add_before (RqHead q) (RunLink p) (run_links s)\<rparr>;
          let s = (if time_slice (procs s p) = 0 \<or> time_slice (procs s p) > max_time_slice (rqs s q)
                   then upd_proc p (\<lambda>r. r\<lparr>time_slice := max_time_slice (rqs s q)\<rparr>) s else s);
          let s = upd_proc p (\<lambda>r. r\<lparr>proc_rq := Some q\<rparr>) s;
          Some (upd_rq q (\<lambda>r. r\<lparr>proc_num := proc_num r + 1\<rparr>) s) }"

definition MPRR_dequeue :: "rq_ptr \<Rightarrow> proc_ptr \<Rightarrow> sched_state \<Rightarrow> sched_state option" where
  "MPRR_dequeue q p s =
     do { kassert (\<not> list_empty (run_links s) (RunLink p) \<and> proc_rq (procs s p) = Some q);
          let s = s\<lparr>run_links := list_del_init (RunLink p) (run_links s)\<rparr>;
          Some (upd_rq q (\<lambda>r. r\<lparr>proc_num := proc_num r - 1\<rparr>) s) }"

definition MPRR_pick_next :: "rq_ptr \<Rightarrow> sched_state \<Rightarrow> (proc_ptr option \<times> sched_state) option" where
  "MPRR_pick_next q s =
     (case list_next (run_links s) (RqHead q) of
        RunLink p \<Rightarrow> Some (Some p, s)
      | RqHead q' \<Rightarrow> if q' = q then Some (None, s) else None)"

definition MPRR_proc_tick :: "rq_ptr \<Rightarrow> proc_ptr \<Rightarrow> sched_state \<Rightarrow> sched_state option" where
  "MPRR_proc_tick q p s =
     do { let s = (if time_slice (procs s p) > 0
                   then upd_proc p (\<lambda>r. r\<lparr>time_slice := time_slice r - 1\<rparr>) s else s);
          Some (if time_slice (procs s p) = 0
                then upd_proc p (\<lambda>r. r\<lparr>need_resched := True\<rparr>) s else s) }"

definition MPRR_sched_class :: sched_class where
  "MPRR_sched_class =
     \<lparr>sc_name = ''MPRR_scheduler'', sc_init = MPRR_init, sc_enqueue = MPRR_enqueue,
      sc_dequeue = MPRR_dequeue, sc_pick_next = MPRR_pick_next, sc_proc_tick = MPRR_proc_tick\<rparr>"

lemma MPRR_same:
  "MPRR_init = RR_init" "MPRR_enqueue = RR_enqueue" "MPRR_dequeue = RR_dequeue"
  "MPRR_pick_next = RR_pick_next" "MPRR_proc_tick = RR_proc_tick"
  by (rule ext, (rule ext)?, (rule ext)?, simp only: MPRR_init_def RR_init_def MPRR_enqueue_def
      RR_enqueue_def MPRR_dequeue_def RR_dequeue_def MPRR_pick_next_def RR_pick_next_def
      MPRR_proc_tick_def RR_proc_tick_def)+

section \<open>The contract\<close>

text \<open>
  \<open>RR_seq q D s xs\<close>: the run list of \<open>q\<close> holds the processes \<open>xs\<close> in this order, and the other
  processes of \<open>D\<close> are on no run list.
\<close>

definition RR_seq :: "rq_ptr \<Rightarrow> proc_ptr set \<Rightarrow> sched_state \<Rightarrow> proc_ptr list \<Rightarrow> bool" where
  "RR_seq q D s xs \<longleftrightarrow>
     ring (run_links s) (RqHead q) (map RunLink xs) \<and> set xs \<subseteq> D \<and>
     (\<forall>p \<in> D - set xs. list_empty (run_links s) (RunLink p)) \<and>
     (\<forall>p \<in> set xs. proc_rq (procs s p) = Some q) \<and>
     proc_num (rqs s q) = of_nat (length xs)"

definition RR_rep :: "rq_ptr \<Rightarrow> proc_ptr set \<Rightarrow> sched_state \<Rightarrow> proc_ptr set \<Rightarrow> bool" where
  "RR_rep q D s Q \<longleftrightarrow> (\<exists>xs. RR_seq q D s xs \<and> set xs = Q)"

lemma RR_seq_distinct: "RR_seq q D s xs \<Longrightarrow> distinct xs"
  using klist.rep_distinct [of "run_links s" "RqHead q" "map RunLink xs"]
  by (auto simp: RR_seq_def distinct_map)

lemma remove1_RunLink: "remove1 (RunLink p) (map RunLink xs) = map RunLink (remove1 p xs)"
  by (induction xs) auto

lemma RR_enqueue_seq:
  assumes r: "RR_seq q D s xs" and p: "p \<in> D" "p \<notin> set xs"
  shows "\<exists>s'. RR_enqueue q p s = Some s' \<and> RR_seq q D s' (xs @ [p]) \<and> sched_frame s s'"
proof -
  let ?l = "list_add_before (RqHead q) (RunLink p) (run_links s)"
  have n: "RunLink p \<notin> set (RqHead q # map RunLink xs)" using p by auto
  have ring: "ring (run_links s) (RqHead q) (map RunLink xs)" using r by (simp add: RR_seq_def)
  have "ring ?l (RqHead q) (map RunLink (xs @ [p]))"
    using klist.put_law [OF ring n] by simp
  moreover have "list_empty ?l (RunLink z)" if "z \<in> D" "z \<notin> set xs" "z \<noteq> p" for z
    using klist.put_frame [OF ring, of "RunLink z" "RunLink p"] r that by (auto simp: RR_seq_def)
  ultimately show ?thesis
    using r p by (auto simp: RR_enqueue_def RR_seq_def Let_def sched_frame_def core_def)
qed

lemma RR_dequeue_seq:
  assumes r: "RR_seq q D s xs" and p: "p \<in> set xs"
  shows "\<exists>s'. RR_dequeue q p s = Some s' \<and> RR_seq q D s' (remove1 p xs) \<and> sched_frame s s'"
proof -
  let ?l = "list_del_init (RunLink p) (run_links s)"
  have ring: "ring (run_links s) (RqHead q) (map RunLink xs)" using r by (simp add: RR_seq_def)
  have pm: "RunLink p \<in> set (map RunLink xs)" using p by simp
  have "ring ?l (RqHead q) (map RunLink (remove1 p xs))"
    using klist.take_out_law [OF ring pm] by (simp add: remove1_RunLink)
  moreover have "list_empty ?l (RunLink z)" if "z \<in> D" "z \<notin> set xs - {p}" for z
    using klist.take_out_frame [OF ring pm, of "RunLink z"] klist.take_out_alone [OF ring pm] r that
    by (cases "z = p") (auto simp: RR_seq_def)
  moreover have "\<not> list_empty (run_links s) (RunLink p)" "proc_rq (procs s p) = Some q"
    using klist.alone_entry [OF ring pm] r p by (auto simp: RR_seq_def)
  moreover have "of_nat (length (remove1 p xs)) = (of_nat (length xs) - 1 :: u32)"
    using p of_nat_diff [of 1 "length xs"] length_pos_if_in_set [OF p]
    by (simp add: length_remove1 Suc_le_eq)
  moreover have "set (remove1 p xs) = set xs - {p}" using RR_seq_distinct [OF r] by simp
  ultimately show ?thesis
    using r by (simp add: RR_dequeue_def RR_seq_def Let_def sched_frame_def subset_iff)
qed

lemma RR_pick_seq:
  assumes "RR_seq q D s xs"
  shows "RR_pick_next q s = Some (if xs = [] then None else Some (hd xs), s)"
  using klist.after_head [of "run_links s" "RqHead q" "map RunLink xs"] assms
  by (cases xs) (auto simp: RR_pick_next_def RR_seq_def)

lemma RR_rep_upd:
  assumes "RR_rep q D s Q" "\<And>r. proc_rq (f r) = proc_rq r"
  shows "RR_rep q D (upd_proc p f s) Q"
  using assms by (fastforce simp: RR_rep_def RR_seq_def)

lemma RR_proc_tick_frame:
  "\<exists>s'. RR_proc_tick q p s = Some s' \<and> sched_frame s s' \<and> (RR_rep q D s Q \<longrightarrow> RR_rep q D s' Q)"
  by (auto simp: RR_proc_tick_def Let_def sched_frame_def intro!: RR_rep_upd)

lemma RR_laws: "sched_class_spec RR_sched_class RR_rep"
proof
  show "RR_rep q D s Q \<Longrightarrow> Q \<subseteq> D \<and> finite Q" for q D s Q
    by (auto simp: RR_rep_def RR_seq_def)
  show "RR_rep q D s Q \<Longrightarrow> proc_num (rqs s q) = of_nat (card Q)" for q D s Q
    using RR_seq_distinct by (auto simp: RR_rep_def RR_seq_def distinct_card)
  show "RR_rep q D (s\<lparr>current := c\<rparr>) Q \<longleftrightarrow> RR_rep q D s Q" for q D s Q c
    by (simp add: RR_rep_def RR_seq_def)
  show "\<exists>s'. sc_init RR_sched_class q s = Some s' \<and> RR_rep q {} s' {} \<and> sched_frame s s'" for q s
    by (simp add: RR_sched_class_def RR_init_def RR_rep_def RR_seq_def klist.init_law sched_frame_def)
  show "\<exists>s'. sc_enqueue RR_sched_class q p s = Some s' \<and> RR_rep q D s' (insert p Q) \<and>
          sched_frame s s'" if r: "RR_rep q D s Q" "p \<in> D - Q" for q D s Q p
  proof -
    obtain xs where xs: "RR_seq q D s xs" "set xs = Q" using r by (auto simp: RR_rep_def)
    then obtain s' where "RR_enqueue q p s = Some s'" "RR_seq q D s' (xs @ [p])" "sched_frame s s'"
      using RR_enqueue_seq [of q D s xs p] r by auto
    moreover have "set (xs @ [p]) = insert p Q" using xs by auto
    ultimately show ?thesis unfolding RR_rep_def RR_sched_class_def by auto
  qed
  show "\<exists>s'. sc_dequeue RR_sched_class q p s = Some s' \<and> RR_rep q D s' (Q - {p}) \<and>
          sched_frame s s'" if r: "RR_rep q D s Q" "p \<in> Q" for q D s Q p
  proof -
    obtain xs where xs: "RR_seq q D s xs" "set xs = Q" using r by (auto simp: RR_rep_def)
    then obtain s' where "RR_dequeue q p s = Some s'" "RR_seq q D s' (remove1 p xs)" "sched_frame s s'"
      using RR_dequeue_seq [of q D s xs p] r by auto
    moreover have "set (remove1 p xs) = Q - {p}" using xs RR_seq_distinct [OF xs(1)] by simp
    ultimately show ?thesis unfolding RR_rep_def RR_sched_class_def by auto
  qed
  show "\<exists>r s'. sc_pick_next RR_sched_class q s = Some (r, s') \<and> RR_rep q D s' Q \<and>
          sched_frame s s' \<and> (r = None \<longleftrightarrow> Q = {}) \<and> (\<forall>p. r = Some p \<longrightarrow> p \<in> Q)"
    if r: "RR_rep q D s Q" for q D s Q
  proof -
    obtain xs where "RR_seq q D s xs" "set xs = Q" using r by (auto simp: RR_rep_def)
    then show ?thesis using RR_pick_seq [of q D s xs] r by (auto simp: RR_sched_class_def)
  qed
  show "\<exists>s'. sc_proc_tick RR_sched_class q p s = Some s' \<and> RR_rep q D s' Q \<and> sched_frame s s'"
    if "RR_rep q D s Q" for q D s Q p
    using RR_proc_tick_frame [of q p s D Q] that by (auto simp: RR_sched_class_def)
qed (rule RR_rep_upd)

interpretation RR: sched_class_spec RR_sched_class RR_rep
  by (rule RR_laws)

interpretation MPRR: sched_class_spec MPRR_sched_class RR_rep
  using RR_laws
  by (simp add: sched_class_spec_def MPRR_sched_class_def RR_sched_class_def MPRR_same)

end
