(* ===== verification/Sched.thy ===== *)
theory Sched
  imports Sched_stride Sched_RR
begin

text \<open>
  The core scheduler of kern/schedule/sched.c, written over any scheduling class, and its timers.
  The global \<open>sched_class\<close> and \<open>rq\<close> of the C file are the arguments \<open>sc\<close> and \<open>q\<close>.
  Interrupts are off around each of these functions, so each is one atomic step of the state.
  The counter \<open>runs\<close> is an unbounded integer.
\<close>

section \<open>Choosing the next process\<close>

definition sched_class_enqueue :: "sched_class \<Rightarrow> rq_ptr \<Rightarrow> proc_ptr \<Rightarrow> sched_state \<Rightarrow> sched_state option" where
  "sched_class_enqueue sc q p s = (if p \<noteq> idleproc s then sc_enqueue sc q p s else Some s)"

definition sched_class_dequeue :: "sched_class \<Rightarrow> rq_ptr \<Rightarrow> proc_ptr \<Rightarrow> sched_state \<Rightarrow> sched_state option" where
  "sched_class_dequeue sc q p s = sc_dequeue sc q p s"

definition sched_class_pick_next ::
  "sched_class \<Rightarrow> rq_ptr \<Rightarrow> sched_state \<Rightarrow> (proc_ptr option \<times> sched_state) option" where
  "sched_class_pick_next sc q s = sc_pick_next sc q s"

definition sched_class_proc_tick :: "sched_class \<Rightarrow> rq_ptr \<Rightarrow> proc_ptr \<Rightarrow> sched_state \<Rightarrow> sched_state option" where
  "sched_class_proc_tick sc q p s =
     (if p \<noteq> idleproc s then sc_proc_tick sc q p s
      else Some (upd_proc p (\<lambda>r. r\<lparr>need_resched := True\<rparr>) s))"

definition wakeup_proc :: "sched_class \<Rightarrow> rq_ptr \<Rightarrow> proc_ptr \<Rightarrow> sched_state \<Rightarrow> sched_state option" where
  "wakeup_proc sc q p s =
     do { kassert (pstate (procs s p) \<noteq> PROC_ZOMBIE);
          if pstate (procs s p) \<noteq> PROC_RUNNABLE then
            do { let s = upd_proc p (\<lambda>r. r\<lparr>pstate := PROC_RUNNABLE, wait_state := 0\<rparr>) s;
                 if p \<noteq> current s then sched_class_enqueue sc q p s else Some s }
          else Some s }"

definition schedule :: "sched_class \<Rightarrow> rq_ptr \<Rightarrow> sched_state \<Rightarrow> sched_state option" where
  "schedule sc q s =
     do { let s = upd_proc (current s) (\<lambda>r. r\<lparr>need_resched := False\<rparr>) s;
          s \<leftarrow> (if pstate (procs s (current s)) = PROC_RUNNABLE
               then sched_class_enqueue sc q (current s) s else Some s);
          (picked, s) \<leftarrow> sched_class_pick_next sc q s;
          s \<leftarrow> (case picked of Some p \<Rightarrow> sched_class_dequeue sc q p s | None \<Rightarrow> Some s);
          let nxt = (case picked of Some p \<Rightarrow> p | None \<Rightarrow> idleproc s);
          let s = upd_proc nxt (\<lambda>r. r\<lparr>runs := runs r + 1\<rparr>) s;
          Some (if nxt \<noteq> current s then proc_run nxt s else s) }"

section \<open>Timers\<close>

text \<open>
  The timer list is kept as the sequence of its timers; \<open>t \<notin> set timer_list\<close> is the test
  \<open>list_empty(&(timer->timer_link))\<close>.  Each timer counts from the expiry of its predecessor.
\<close>

type_synonym timer_ptr = nat

record ktimer =
  expires :: u32
  timer_proc :: "proc_ptr option"

record timer_state =
  tsched :: sched_state
  timers :: "timer_ptr \<Rightarrow> ktimer"
  timer_list :: "timer_ptr list"

definition timer_init :: "timer_ptr \<Rightarrow> proc_ptr option \<Rightarrow> int \<Rightarrow> timer_state \<Rightarrow> timer_state" where
  "timer_init t p e s =
     s\<lparr>timers := (timers s)(t := (timers s t)\<lparr>expires := word_of_int e, timer_proc := p\<rparr>)\<rparr>"

definition sched_init :: "sched_class \<Rightarrow> rq_ptr \<Rightarrow> timer_state \<Rightarrow> timer_state option" where
  "sched_init sc q s =
     do { let s = s\<lparr>timer_list := []\<rparr>;
          k \<leftarrow> sc_init sc q (upd_rq q (\<lambda>r. r\<lparr>max_time_slice := 5\<rparr>) (tsched s));
          Some (s\<lparr>tsched := k\<rparr>) }"

definition set_expires :: "timer_ptr \<Rightarrow> u32 \<Rightarrow> (timer_ptr \<Rightarrow> ktimer) \<Rightarrow> timer_ptr \<Rightarrow> ktimer" where
  "set_expires t e ts = ts(t := (ts t)\<lparr>expires := e\<rparr>)"

fun add_timer_loop ::
  "timer_ptr \<Rightarrow> timer_ptr list \<Rightarrow> (timer_ptr \<Rightarrow> ktimer) \<Rightarrow> timer_ptr option \<times> (timer_ptr \<Rightarrow> ktimer)"
where
  "add_timer_loop t [] ts = (None, ts)"
| "add_timer_loop t (n # ns) ts =
     (if expires (ts t) < expires (ts n)
      then (Some n, set_expires n (expires (ts n) - expires (ts t)) ts)
      else add_timer_loop t ns (set_expires t (expires (ts t) - expires (ts n)) ts))"

definition add_timer :: "timer_ptr \<Rightarrow> timer_state \<Rightarrow> timer_state option" where
  "add_timer t s =
     do { kassert (expires (timers s t) > 0 \<and> timer_proc (timers s t) \<noteq> None);
          kassert (t \<notin> set (timer_list s));
          let (le, ts) = add_timer_loop t (timer_list s) (timers s);
          Some (s\<lparr>timers := ts, timer_list := seq_add_before le t (timer_list s)\<rparr>) }"

text \<open>The entry after \<open>t\<close>, \<open>None\<close> for the list head.\<close>

fun seq_next :: "'a \<Rightarrow> 'a list \<Rightarrow> 'a option" where
  "seq_next x (y # z # zs) = (if x = y then Some z else seq_next x (z # zs))"
| "seq_next x _ = None"

definition del_timer :: "timer_ptr \<Rightarrow> timer_state \<Rightarrow> timer_state" where
  "del_timer t s =
     (if t \<in> set (timer_list s) then
        let ts = (if expires (timers s t) \<noteq> 0 then
                    (case seq_next t (timer_list s) of
                       Some n \<Rightarrow> set_expires n (expires (timers s n) + expires (timers s t)) (timers s)
                     | None \<Rightarrow> timers s)
                  else timers s)
        in s\<lparr>timers := ts, timer_list := seq_del t (timer_list s)\<rparr>
      else s)"

text \<open>
  The loop of \<open>run_timer_list\<close> walks the list from its first timer; the entry it wakes is unlinked
  before the walk goes on with the successor it has read, so the walk follows the list as it was.
  \<open>timer->proc\<close> is not \<open>NULL\<close> on the list (\<open>add_timer\<close> asserts it).
\<close>

fun run_timer_loop ::
  "sched_class \<Rightarrow> rq_ptr \<Rightarrow> timer_ptr list \<Rightarrow> timer_state \<Rightarrow> timer_state option"
where
  "run_timer_loop sc q [] s = Some s"
| "run_timer_loop sc q (t # rest) s =
     (if expires (timers s t) = 0 then
        do { p \<leftarrow> timer_proc (timers s t);
             let w = wait_state (procs (tsched s) p);
             kassert (w \<noteq> 0 \<longrightarrow> w AND WT_INTERRUPTED \<noteq> 0);
             k \<leftarrow> wakeup_proc sc q p (tsched s);
             run_timer_loop sc q rest (del_timer t (s\<lparr>tsched := k\<rparr>)) }
      else Some s)"

definition run_timer_list :: "sched_class \<Rightarrow> rq_ptr \<Rightarrow> timer_state \<Rightarrow> timer_state option" where
  "run_timer_list sc q s =
     do { s \<leftarrow> (case timer_list s of
                 [] \<Rightarrow> Some s
               | t # _ \<Rightarrow>
                   do { kassert (expires (timers s t) \<noteq> 0);
                        run_timer_loop sc q (timer_list s)
                          (s\<lparr>timers := set_expires t (expires (timers s t) - 1) (timers s)\<rparr>) });
          k \<leftarrow> sched_class_proc_tick sc q (current (tsched s)) (tsched s);
          Some (s\<lparr>tsched := k\<rparr>) }"

section \<open>The run queue holds exactly the waiting runnable processes\<close>

definition ready :: "proc_ptr set \<Rightarrow> sched_state \<Rightarrow> proc_ptr set" where
  "ready D s = {p \<in> D. pstate (procs s p) = PROC_RUNNABLE \<and> p \<noteq> current s \<and> p \<noteq> idleproc s}"

definition sched_ok ::
  "(rq_ptr \<Rightarrow> proc_ptr set \<Rightarrow> sched_state \<Rightarrow> proc_ptr set \<Rightarrow> bool) \<Rightarrow>
   rq_ptr \<Rightarrow> proc_ptr set \<Rightarrow> sched_state \<Rightarrow> bool"
where
  "sched_ok rep q D s \<longleftrightarrow> rep q D s (ready D s) \<and> current s \<in> D \<and> idleproc s \<in> D"

lemma ready_frame: "sched_frame s s' \<Longrightarrow> ready D s' = ready D s"
  using sched_frame_ctl [of s s'] sched_frame_proc(1) [of s s'] by (simp add: ready_def)

context sched_class_spec
begin

lemma wakeup_ok:
  assumes ok: "sched_ok rep q D s" and p: "p \<in> D" "pstate (procs s p) \<noteq> PROC_ZOMBIE"
  shows "\<exists>s'. wakeup_proc sc q p s = Some s' \<and> sched_ok rep q D s' \<and>
           pstate (procs s' p) = PROC_RUNNABLE \<and>
           wait_state (procs s' p) =
             (if pstate (procs s p) = PROC_RUNNABLE then wait_state (procs s p) else 0) \<and>
           current s' = current s \<and> idleproc s' = idleproc s \<and>
           (\<forall>r. r \<noteq> p \<longrightarrow> pstate (procs s' r) = pstate (procs s r) \<and>
                wait_state (procs s' r) = wait_state (procs s r))"
proof (cases "pstate (procs s p) = PROC_RUNNABLE")
  case True
  then show ?thesis using ok p by (auto simp: wakeup_proc_def)
next
  case False
  let ?s = "upd_proc p (\<lambda>r. r\<lparr>pstate := PROC_RUNNABLE, wait_state := 0\<rparr>) s"
  have rep: "rep q D ?s (ready D s)" using ok by (auto simp: sched_ok_def intro: rep_upd)
  have p': "p \<notin> ready D s" using False by (simp add: ready_def)
  show ?thesis
  proof (cases "p = current s \<or> p = idleproc s")
    case True
    have "wakeup_proc sc q p s = Some ?s"
      using True p False by (auto simp: wakeup_proc_def sched_class_enqueue_def Let_def)
    moreover have "ready D ?s = ready D s" using True by (auto simp: ready_def)
    ultimately show ?thesis
      using ok rep False by (intro exI [of _ ?s]) (simp add: sched_ok_def)
  next
    case out: False
    obtain s' where s': "sc_enqueue sc q p ?s = Some s'" "rep q D s' (insert p (ready D s))"
      "sched_frame ?s s'" using enqueue_law [OF rep, of p] p p' by auto
    have "ready D s' = insert p (ready D s)"
      using ready_frame [OF s'(3), of D] out p by (auto simp: ready_def)
    then show ?thesis
      using s' ok p False out sched_frame_ctl [OF s'(3)] sched_frame_proc(1,2) [OF s'(3)]
      by (auto simp: wakeup_proc_def sched_class_enqueue_def sched_ok_def Let_def)
  qed
qed

text \<open>The first half of \<open>schedule\<close>: the current process goes back to the queue if it can run.\<close>

lemma requeue_current:
  assumes "sched_ok rep q D s"
  defines "s1 \<equiv> upd_proc (current s) (\<lambda>r. r\<lparr>need_resched := False\<rparr>) s"
  defines "Q \<equiv> {p \<in> D. pstate (procs s p) = PROC_RUNNABLE \<and> p \<noteq> idleproc s}"
  shows "\<exists>s2. (if pstate (procs s1 (current s1)) = PROC_RUNNABLE
           then sched_class_enqueue sc q (current s1) s1 else Some s1) = Some s2 \<and>
         rep q D s2 Q \<and> sched_frame s s2"
proof -
  have rep: "rep q D s1 (ready D s)"
    unfolding s1_def using assms(1) by (auto simp: sched_ok_def intro: rep_upd)
  have fr: "sched_frame s s1" by (simp add: s1_def sched_frame_def)
  have cur: "current s1 = current s" "idleproc s1 = idleproc s"
    "pstate (procs s1 (current s)) = pstate (procs s (current s))" by (auto simp: s1_def)
  show ?thesis
  proof (cases "pstate (procs s (current s)) = PROC_RUNNABLE \<and> current s \<noteq> idleproc s")
    case True
    then have "insert (current s) (ready D s) = Q" "current s \<in> D - ready D s"
      using assms(1) by (auto simp: Q_def ready_def sched_ok_def)
    then show ?thesis
      using enqueue_law [OF rep, of "current s"] sched_frame_trans [OF fr] True cur
      by (auto simp: sched_class_enqueue_def)
  next
    case False
    then have "ready D s = Q" by (auto simp: Q_def ready_def)
    then show ?thesis
      using rep fr False cur by (auto simp: sched_class_enqueue_def)
  qed
qed

lemma schedule_ok:
  assumes ok: "sched_ok rep q D s"
  defines "Q \<equiv> {p \<in> D. pstate (procs s p) = PROC_RUNNABLE \<and> p \<noteq> idleproc s}"
  shows "\<exists>s'. schedule sc q s = Some s' \<and> sched_ok rep q D s' \<and>
           (if Q = {} then current s' = idleproc s else current s' \<in> Q) \<and>
           runs (procs s' (current s')) = runs (procs s (current s')) + 1 \<and>
           idleproc s' = idleproc s \<and> (\<forall>p. pstate (procs s' p) = pstate (procs s p)) \<and>
           (\<forall>p. wait_state (procs s' p) = wait_state (procs s p))"
proof -
  define s1 where "s1 = upd_proc (current s) (\<lambda>r. r\<lparr>need_resched := False\<rparr>) s"
  obtain s2 where s2: "(if pstate (procs s1 (current s1)) = PROC_RUNNABLE
      then sched_class_enqueue sc q (current s1) s1 else Some s1) = Some s2"
    "rep q D s2 Q" "sched_frame s s2"
    using requeue_current [OF ok] unfolding s1_def [symmetric] Q_def [symmetric] by (elim exE conjE)
  obtain n s3 where s3: "sc_pick_next sc q s2 = Some (n, s3)" "rep q D s3 Q" "sched_frame s2 s3"
    "n = None \<longleftrightarrow> Q = {}" "\<And>p. n = Some p \<Longrightarrow> p \<in> Q"
    using pick_law [OF s2(2)] by blast
  define Q' where "Q' = (case n of None \<Rightarrow> Q | Some p \<Rightarrow> Q - {p})"
  obtain s4 where s4: "(case n of Some p \<Rightarrow> sc_dequeue sc q p s3 | None \<Rightarrow> Some s3) = Some s4"
    "rep q D s4 Q'" "sched_frame s3 s4"
    using s3 dequeue_law [OF s3(2)] by (cases n) (auto simp: Q'_def)
  have fr: "sched_frame s s4"
    by (rule sched_frame_trans [OF sched_frame_trans [OF s2(3) s3(3)] s4(3)])
  define nx where "nx = (case n of Some p \<Rightarrow> p | None \<Rightarrow> idleproc s4)"
  define s5 where "s5 = proc_run nx (upd_proc nx (\<lambda>r. r\<lparr>runs := runs r + 1\<rparr>) s4)"
  have "schedule sc q s = Some s5"
    unfolding schedule_def Let_def sched_class_pick_next_def sched_class_dequeue_def
      s1_def [symmetric] using s2(1) s3(1) s4(1)
    by (simp add: nx_def s5_def proc_run_def)
  moreover have cur: "current s5 = nx" "idleproc s5 = idleproc s"
    "\<And>p. pstate (procs s5 p) = pstate (procs s p)" "\<And>p. wait_state (procs s5 p) = wait_state (procs s p)"
    using sched_frame_ctl [OF fr] sched_frame_proc [OF fr] by (auto simp: s5_def)
  moreover have nx: "if Q = {} then nx = idleproc s else nx \<in> Q"
    using s3(4,5) sched_frame_ctl [OF fr] by (auto simp: nx_def split: option.splits)
  moreover have "ready D s5 = Q - {nx}"
    unfolding ready_def Q_def using cur by auto
  moreover have "Q - {nx} = Q'"
    using s3(4) by (cases n) (auto simp: Q'_def nx_def)
  moreover have "rep q D s5 Q'"
    using rep_upd [OF s4(2), of "\<lambda>r. r\<lparr>runs := runs r + 1\<rparr>" nx]
    by (auto simp: s5_def proc_run_def rep_current)
  moreover have "runs (procs s5 nx) = runs (procs s nx) + 1"
    using sched_frame_proc(3) [OF fr] by (simp add: s5_def)
  moreover have "nx \<in> D" using nx ok by (auto simp: Q_def sched_ok_def split: if_splits)
  ultimately show ?thesis
    using ok by (intro exI [of _ s5]) (simp add: sched_ok_def)
qed

lemma tick_ok:
  assumes "sched_ok rep q D s"
  shows "\<exists>s'. sched_class_proc_tick sc q p s = Some s' \<and> sched_ok rep q D s' \<and> sched_frame s s'"
proof (cases "p = idleproc s")
  case True
  let ?s = "upd_proc p (\<lambda>r. r\<lparr>need_resched := True\<rparr>) s"
  have fr: "sched_frame s ?s" by (simp add: sched_frame_def)
  moreover have "rep q D ?s (ready D s)" using assms by (intro rep_upd) (simp_all add: sched_ok_def)
  ultimately show ?thesis
    using True assms ready_frame [OF fr, of D] by (simp add: sched_class_proc_tick_def sched_ok_def)
next
  case False
  obtain s' where s': "sc_proc_tick sc q p s = Some s'" "rep q D s' (ready D s)" "sched_frame s s'"
    using tick_law [of q D s "ready D s" p] assms unfolding sched_ok_def by blast
  then show ?thesis
    using False assms ready_frame [OF s'(3), of D] sched_frame_ctl [OF s'(3)]
    by (simp add: sched_class_proc_tick_def sched_ok_def)
qed

end

section \<open>Timers keep their expiry times\<close>

text \<open>
  The absolute expiry of a timer, in ticks from now, is the sum of the differences up to it.
\<close>

fun expiry :: "(timer_ptr \<Rightarrow> ktimer) \<Rightarrow> timer_ptr list \<Rightarrow> timer_ptr \<Rightarrow> nat" where
  "expiry ts [] t = 0"
| "expiry ts (x # xs) t = unat (expires (ts x)) + (if x = t then 0 else expiry ts xs t)"

lemma set_expires_sel [simp]:
  "expires (set_expires t e ts u) = (if u = t then e else expires (ts u))"
  "timer_proc (set_expires t e ts u) = timer_proc (ts u)"
  by (auto simp: set_expires_def)

lemma expiry_cong:
  "(\<And>x. x \<in> set xs \<Longrightarrow> expires (ts' x) = expires (ts x)) \<Longrightarrow> expiry ts' xs t = expiry ts xs t"
  by (induction xs) auto

lemma add_timer_loop_other:
  "add_timer_loop t ns ts = (le, ts') \<Longrightarrow> x \<notin> set (t # ns) \<Longrightarrow> ts' x = ts x"
  by (induction t ns ts rule: add_timer_loop.induct) (auto simp: set_expires_def split: if_splits)

lemma add_timer_loop_pos:
  "add_timer_loop t ns ts = (le, ts') \<Longrightarrow> seq_pos le ns"
  by (induction t ns ts rule: add_timer_loop.induct) (auto simp: seq_pos_def split: if_splits option.splits)

lemma seq_add_before_cons:
  "seq_pos le ns \<Longrightarrow> n \<notin> set ns \<Longrightarrow> seq_add_before le x (n # ns) = n # seq_add_before le x ns"
  by (cases le) (auto simp: seq_pos_def)

lemma add_timer_loop_expiry:
  assumes "add_timer_loop t ns ts = (le, ts')" "distinct ns" "t \<notin> set ns"
  shows "expiry ts' (seq_add_before le t ns) t = unat (expires (ts t)) \<and>
         (\<forall>x \<in> set ns. expiry ts' (seq_add_before le t ns) x = expiry ts ns x)"
  using assms
proof (induction t ns ts rule: add_timer_loop.induct)
  case (2 t n ns ts)
  show ?case
  proof (cases "expires (ts t) < expires (ts n)")
    case True
    then have le: "le = Some n" and ts': "ts' = set_expires n (expires (ts n) - expires (ts t)) ts"
      using "2.prems"(1) by auto
    have "expiry ts' ns x = expiry ts ns x" for x
      using "2.prems" ts' by (intro expiry_cong) auto
    moreover have "unat (expires (ts t)) + unat (expires (ts n) - expires (ts t)) = unat (expires (ts n))"
      using True by (simp add: unat_sub word_less_nat_alt word_le_nat_alt)
    ultimately show ?thesis using "2.prems" le ts' by auto
  next
    case False
    let ?ts = "set_expires t (expires (ts t) - expires (ts n)) ts"
    have loop: "add_timer_loop t ns ?ts = (le, ts')" using "2.prems"(1) False by simp
    have IH: "expiry ts' (seq_add_before le t ns) t = unat (expires (ts t) - expires (ts n))"
      "\<And>x. x \<in> set ns \<Longrightarrow> expiry ts' (seq_add_before le t ns) x = expiry ?ts ns x"
      using "2.IH" [OF False loop] "2.prems" by auto
    have "expires (ts' n) = expires (ts n)"
      using add_timer_loop_other [OF loop, of n] "2.prems" by auto
    moreover have "seq_add_before le t (n # ns) = n # seq_add_before le t ns"
      using add_timer_loop_pos [OF loop] "2.prems" by (intro seq_add_before_cons) auto
    moreover have "expiry ?ts ns x = expiry ts ns x" for x
      using "2.prems" by (intro expiry_cong) auto
    moreover have "unat (expires (ts n)) + unat (expires (ts t) - expires (ts n)) = unat (expires (ts t))"
      using False by (simp add: unat_sub word_less_nat_alt word_le_nat_alt)
    ultimately show ?thesis using IH "2.prems" by auto
  qed
qed simp

lemma seq_next_in: "seq_next x xs = Some y \<Longrightarrow> y \<in> set (tl xs)"
  by (induction x xs rule: seq_next.induct) (auto split: if_splits)

lemma expiry_del:
  assumes "distinct xs" "t \<in> set xs" "x \<in> set xs" "x \<noteq> t"
    and "\<And>y. y \<in> set xs \<Longrightarrow> expiry ts xs y < 2 ^ 32"
  defines "ts' \<equiv> (case seq_next t xs of Some n \<Rightarrow> set_expires n (expires (ts n) + expires (ts t)) ts
                  | None \<Rightarrow> ts)"
  shows "expiry ts' (seq_del t xs) x = expiry ts xs x"
  using assms(1-5) unfolding ts'_def
proof (induction t xs rule: seq_next.induct)
  case (1 t y z zs)
  show ?case
  proof (cases "t = y")
    case True
    have "unat (expires (ts z) + expires (ts y)) = unat (expires (ts z)) + unat (expires (ts y))"
    proof (rule iffD1 [OF unat_add_lem])
      show "unat (expires (ts z)) + unat (expires (ts y)) < 2 ^ LENGTH(32)"
        using "1.prems"(5) [of z] "1.prems"(1) by auto
    qed
    moreover have "expiry (set_expires z (expires (ts z) + expires (ts y)) ts) zs x = expiry ts zs x"
      using "1.prems"(1) by (intro expiry_cong) auto
    ultimately show ?thesis using True "1.prems" by (auto simp: seq_del_def)
  next
    case False
    have b: "expiry ts (z # zs) u < 2 ^ 32" if "u \<in> set (z # zs)" for u
    proof -
      have "y \<noteq> u" using "1.prems"(1) that by auto
      then show ?thesis using "1.prems"(5) [of u] that by auto
    qed
    have t: "t \<in> set (z # zs)" using False "1.prems" by auto
    have yn: "seq_next t (z # zs) \<noteq> Some y"
      using "1.prems"(1) by (auto dest: seq_next_in)
    show ?thesis
    proof (cases "x = y")
      case True
      then show ?thesis using False yn "1.prems" by (auto simp: seq_del_def split: option.splits)
    next
      case xy: False
      then show ?thesis
        using "1.IH" [OF False _ t _ _ b] "1.prems" False yn by (auto simp: seq_del_def split: option.splits)
    qed
  qed
qed (auto simp: seq_del_def)

text \<open>A process that is left alone.\<close>

definition same_life :: "sched_state \<Rightarrow> sched_state \<Rightarrow> proc_ptr \<Rightarrow> bool" where
  "same_life s s' p \<longleftrightarrow> pstate (procs s' p) = pstate (procs s p) \<and> wait_state (procs s' p) = wait_state (procs s p)"

lemma same_life_trans: "same_life s1 s2 p \<Longrightarrow> same_life s2 s3 p \<Longrightarrow> same_life s1 s3 p"
  by (simp add: same_life_def)

lemma frame_same_life: "sched_frame s s' \<Longrightarrow> same_life s s' p"
  by (simp add: same_life_def sched_frame_proc)

lemma takeWhile_not_dropWhile:
  assumes "distinct xs" "x \<in> set (takeWhile P xs)"
  shows "x \<in> set xs - set (dropWhile P xs)"
proof -
  have "distinct (takeWhile P xs @ dropWhile P xs)" using assms(1) by simp
  then show ?thesis using assms(2) set_takeWhileD [OF assms(2)] by (auto simp only: distinct_append)
qed

lemma expiry_dropWhile:
  "distinct xs \<Longrightarrow> x \<in> set (dropWhile (\<lambda>t. expires (ts t) = 0) xs) \<Longrightarrow>
     expiry ts (dropWhile (\<lambda>t. expires (ts t) = 0) xs) x = expiry ts xs x"
  by (induction xs) (auto dest: set_dropWhileD)

lemma expiry_zero_iff:
  "distinct xs \<Longrightarrow> x \<in> set xs \<Longrightarrow>
     expiry ts xs x = 0 \<longleftrightarrow> x \<notin> set (dropWhile (\<lambda>t. expires (ts t) = 0) xs)"
  by (induction xs) (auto simp: unat_eq_0 dest: set_dropWhileD)

lemma expiry_tick:
  assumes "distinct (t # xs)" "expires (ts t) \<noteq> 0" "x \<in> set (t # xs)"
  shows "expiry (set_expires t (expires (ts t) - 1) ts) (t # xs) x = expiry ts (t # xs) x - 1"
proof -
  have "expiry (set_expires t (expires (ts t) - 1) ts) xs x = expiry ts xs x"
    using assms(1) by (intro expiry_cong) auto
  moreover have "unat (expires (ts t) - 1) = unat (expires (ts t)) - 1" "unat (expires (ts t)) > 0"
    using assms(2) by (auto simp: unat_minus_one unat_gt_0)
  ultimately show ?thesis by simp
qed

text \<open>A timer whose process can be woken: not a zombie, and not in an uninterruptible wait.\<close>

definition timer_ready :: "proc_ptr set \<Rightarrow> sched_state \<Rightarrow> ktimer \<Rightarrow> bool" where
  "timer_ready D s t \<longleftrightarrow> (case timer_proc t of None \<Rightarrow> False
     | Some p \<Rightarrow> p \<in> D \<and> pstate (procs s p) \<noteq> PROC_ZOMBIE \<and>
         (wait_state (procs s p) = 0 \<or> wait_state (procs s p) AND WT_INTERRUPTED \<noteq> 0))"

lemma del_timer_head:
  "timer_list s = t # xs \<Longrightarrow> expires (timers s t) = 0 \<Longrightarrow> del_timer t s = s\<lparr>timer_list := xs\<rparr>"
  by (simp add: del_timer_def seq_del_def)

context sched_class_spec
begin

lemma wakeup_timer_ready:
  assumes ok: "sched_ok rep q D s" and t: "timer_ready D s t" "timer_proc t = Some p"
  shows "\<exists>s'. wakeup_proc sc q p s = Some s' \<and> sched_ok rep q D s' \<and>
           pstate (procs s' p) = PROC_RUNNABLE \<and> current s' = current s \<and>
           (\<forall>r. pstate (procs s r) = PROC_RUNNABLE \<longrightarrow> pstate (procs s' r) = PROC_RUNNABLE) \<and>
           (\<forall>u. timer_ready D s u \<longrightarrow> timer_ready D s' u) \<and> (\<forall>r. r \<noteq> p \<longrightarrow> same_life s s' r)"
proof -
  have p: "p \<in> D" "pstate (procs s p) \<noteq> PROC_ZOMBIE"
    using t by (auto simp: timer_ready_def)
  obtain s' where s': "wakeup_proc sc q p s = Some s'" "sched_ok rep q D s'"
    "pstate (procs s' p) = PROC_RUNNABLE" "current s' = current s"
    "wait_state (procs s' p) = (if pstate (procs s p) = PROC_RUNNABLE then wait_state (procs s p) else 0)"
    "\<And>r. r \<noteq> p \<Longrightarrow> pstate (procs s' r) = pstate (procs s r) \<and> wait_state (procs s' r) = wait_state (procs s r)"
    using wakeup_ok [OF ok p] by metis
  have "timer_ready D s' u" if "timer_ready D s u" for u
    using that s'(3,5) s'(6)
    by (cases "timer_proc u = Some p") (auto simp: timer_ready_def split: option.splits if_splits)
  moreover have "same_life s s' r" if "r \<noteq> p" for r using s'(6) that by (simp add: same_life_def)
  ultimately show ?thesis using s' by metis
qed

lemma run_timer_loop_ok:
  assumes "sched_ok rep q D (tsched s)" "timer_list s = xs"
    and "\<And>t. t \<in> set xs \<Longrightarrow> timer_ready D (tsched s) (timers s t)"
  shows "\<exists>s'. run_timer_loop sc q xs s = Some s' \<and> sched_ok rep q D (tsched s') \<and>
           timer_list s' = dropWhile (\<lambda>t. expires (timers s t) = 0) xs \<and> timers s' = timers s \<and>
           (\<forall>p. pstate (procs (tsched s) p) = PROC_RUNNABLE \<longrightarrow> pstate (procs (tsched s') p) = PROC_RUNNABLE) \<and>
           (\<forall>t \<in> set (takeWhile (\<lambda>t. expires (timers s t) = 0) xs). \<forall>p. timer_proc (timers s t) = Some p \<longrightarrow>
              pstate (procs (tsched s') p) = PROC_RUNNABLE) \<and>
           (\<forall>p. (\<forall>t \<in> set (takeWhile (\<lambda>t. expires (timers s t) = 0) xs). timer_proc (timers s t) \<noteq> Some p) \<longrightarrow>
              same_life (tsched s) (tsched s') p)"
  using assms
proof (induction xs arbitrary: s)
  case (Cons t xs)
  show ?case
  proof (cases "expires (timers s t) = 0")
    case True
    obtain p where p: "timer_proc (timers s t) = Some p" and
      w: "wait_state (procs (tsched s) p) \<noteq> 0 \<longrightarrow> wait_state (procs (tsched s) p) AND WT_INTERRUPTED \<noteq> 0"
      using Cons.prems(3) [of t] by (auto simp: timer_ready_def split: option.splits)
    obtain k where k: "wakeup_proc sc q p (tsched s) = Some k" "sched_ok rep q D k"
      "pstate (procs k p) = PROC_RUNNABLE"
      "\<And>r. pstate (procs (tsched s) r) = PROC_RUNNABLE \<Longrightarrow> pstate (procs k r) = PROC_RUNNABLE"
      "\<And>u. timer_ready D (tsched s) u \<Longrightarrow> timer_ready D k u" "\<And>r. r \<noteq> p \<Longrightarrow> same_life (tsched s) k r"
      using wakeup_timer_ready [OF Cons.prems(1) Cons.prems(3) [of t] p] by auto
    let ?s = "s\<lparr>tsched := k, timer_list := xs\<rparr>"
    have "del_timer t (s\<lparr>tsched := k\<rparr>) = ?s"
      using del_timer_head [of "s\<lparr>tsched := k\<rparr>" t xs] Cons.prems(2) True by simp
    then have "run_timer_loop sc q (t # xs) s = run_timer_loop sc q xs ?s"
      using True p k(1) w by simp
    moreover obtain s' where "run_timer_loop sc q xs ?s = Some s'" "sched_ok rep q D (tsched s')"
      "timer_list s' = dropWhile (\<lambda>t. expires (timers s t) = 0) xs" "timers s' = timers s"
      "\<And>p. pstate (procs k p) = PROC_RUNNABLE \<Longrightarrow> pstate (procs (tsched s') p) = PROC_RUNNABLE"
      "\<And>t p. t \<in> set (takeWhile (\<lambda>t. expires (timers s t) = 0) xs) \<Longrightarrow> timer_proc (timers s t) = Some p \<Longrightarrow>
         pstate (procs (tsched s') p) = PROC_RUNNABLE"
      "\<And>p. \<forall>t \<in> set (takeWhile (\<lambda>t. expires (timers s t) = 0) xs). timer_proc (timers s t) \<noteq> Some p \<Longrightarrow>
         same_life k (tsched s') p"
      using Cons.IH [of ?s] k(2,5) Cons.prems(3) by auto
    ultimately show ?thesis using True k(3,4) same_life_trans [OF k(6)] p by (intro exI [of _ s']) auto
  next
    case False
    then show ?thesis using Cons.prems by (simp add: same_life_def)
  qed
qed (simp add: same_life_def)

lemma run_timer_list_ok:
  assumes ok: "sched_ok rep q D (tsched s)" and d: "distinct (timer_list s)"
    and pos: "timer_list s \<noteq> [] \<Longrightarrow> expires (timers s (hd (timer_list s))) \<noteq> 0"
    and ready: "\<And>t. t \<in> set (timer_list s) \<Longrightarrow> timer_ready D (tsched s) (timers s t)"
  shows "\<exists>s'. run_timer_list sc q s = Some s' \<and> sched_ok rep q D (tsched s') \<and>
    (\<forall>t \<in> set (timer_list s). t \<in> set (timer_list s') \<longleftrightarrow> expiry (timers s) (timer_list s) t \<noteq> 1) \<and>
    set (timer_list s') \<subseteq> set (timer_list s) \<and>
    (\<forall>t \<in> set (timer_list s'). expiry (timers s') (timer_list s') t = expiry (timers s) (timer_list s) t - 1) \<and>
    (\<forall>t \<in> set (timer_list s) - set (timer_list s'). \<forall>p. timer_proc (timers s t) = Some p \<longrightarrow>
       pstate (procs (tsched s') p) = PROC_RUNNABLE) \<and>
    (\<forall>p. (\<forall>t \<in> set (timer_list s) - set (timer_list s'). timer_proc (timers s t) \<noteq> Some p) \<longrightarrow>
       same_life (tsched s) (tsched s') p)"
proof (cases "timer_list s")
  case Nil
  then show ?thesis
    using tick_ok [OF ok, of "current (tsched s)"] frame_same_life by (auto simp: run_timer_list_def)
next
  case (Cons h xs)
  define ts where "ts = set_expires h (expires (timers s h) - 1) (timers s)"
  let ?z = "\<lambda>t. expires (ts t) = 0" and ?l = "h # xs"
  have h: "expires (timers s h) \<noteq> 0" using pos Cons by simp
  have dl: "distinct ?l" using d Cons by simp
  have tr: "timer_ready D (tsched s) (ts t)" if "t \<in> set ?l" for t
    using ready [of t] that Cons by (simp add: timer_ready_def ts_def)
  obtain s1 where s1: "run_timer_loop sc q ?l (s\<lparr>timers := ts\<rparr>) = Some s1"
    "sched_ok rep q D (tsched s1)" "timer_list s1 = dropWhile ?z ?l" "timers s1 = ts"
    "\<forall>t \<in> set (takeWhile ?z ?l). \<forall>p. timer_proc (ts t) = Some p \<longrightarrow>
       pstate (procs (tsched s1) p) = PROC_RUNNABLE"
    "\<forall>p. (\<forall>t \<in> set (takeWhile ?z ?l). timer_proc (ts t) \<noteq> Some p) \<longrightarrow> same_life (tsched s) (tsched s1) p"
    using run_timer_loop_ok [of q D "s\<lparr>timers := ts\<rparr>" ?l] ok tr Cons
    unfolding timer_state.simps by (elim meta_impE exE conjE) simp_all
  obtain k where k: "sched_class_proc_tick sc q (current (tsched s1)) (tsched s1) = Some k"
    "sched_ok rep q D k" "sched_frame (tsched s1) k" using tick_ok [OF s1(2)] by blast
  let ?s = "s1\<lparr>tsched := k\<rparr>"
  have e: "expiry ts ?l t = expiry (timers s) ?l t - 1" if "t \<in> set ?l" for t
    unfolding ts_def by (rule expiry_tick [OF dl]) (use h that in simp_all)
  have e0: "expiry (timers s) ?l t > 0" if "t \<in> set ?l" for t
    using h by (simp add: unat_gt_0)
  have sub: "set (dropWhile ?z ?l) \<subseteq> set ?l" by (meson set_dropWhileD subsetI)
  have iff: "t \<in> set (dropWhile ?z ?l) \<longleftrightarrow> expiry (timers s) ?l t \<noteq> 1" if "t \<in> set ?l" for t
    using expiry_zero_iff [OF dl that, of ts] e [OF that] e0 [OF that] by linarith
  have left: "expiry ts (dropWhile ?z ?l) t = expiry (timers s) ?l t - 1" if "t \<in> set (dropWhile ?z ?l)" for t
    using expiry_dropWhile [OF dl that] e sub that by (simp only: subset_iff)
  have "run_timer_list sc q s = Some ?s"
    using s1(1) k(1) h Cons by (simp add: run_timer_list_def ts_def)
  moreover have tw: "t \<in> set (takeWhile ?z ?l)" if "t \<in> set ?l - set (dropWhile ?z ?l)" for t
    using that takeWhile_dropWhile_id [of ?z ?l] set_append by (metis DiffE UnE)
  then have "pstate (procs k p) = PROC_RUNNABLE"
    if "t \<in> set ?l - set (dropWhile ?z ?l)" "timer_proc (timers s t) = Some p" for t p
  proof -
    have "pstate (procs (tsched s1) p) = PROC_RUNNABLE"
      using s1(5) tw [OF that(1)] that(2) by (simp only: ts_def set_expires_sel)
    then show ?thesis by (simp only: sched_frame_proc(1) [OF k(3)])
  qed
  moreover have "same_life (tsched s) k p"
    if "\<forall>t \<in> set ?l - set (dropWhile ?z ?l). timer_proc (timers s t) \<noteq> Some p" for p
  proof -
    have "timer_proc (ts t) \<noteq> Some p" if "t \<in> set (takeWhile ?z ?l)" for t
      using \<open>\<forall>t \<in> set ?l - set (dropWhile ?z ?l). timer_proc (timers s t) \<noteq> Some p\<close> takeWhile_not_dropWhile [OF dl that]
      by (simp only: ts_def set_expires_sel) blast
    then show ?thesis using s1(6) same_life_trans frame_same_life [OF k(3)] by blast
  qed
  ultimately show ?thesis
    using k(2) iff left sub s1(3,4) Cons by (intro exI [of _ ?s]) simp
qed

end

section \<open>Properties\<close>

text \<open>
  C2: The scheduler neither loses nor duplicates a process.  As long as the run queue of the default
  (stride) class holds exactly the runnable processes other than the running one and the idle process,
  \<open>schedule\<close> runs without failing, keeps it so, switches to a runnable process whenever there is one
  and to the idle process otherwise, counts the run, and changes the life-cycle state of no process.
\<close>

theorem schedule_conserves:
  assumes "sched_ok stride_rep q D s"
  shows "\<exists>s'. schedule default_sched_class q s = Some s' \<and> sched_ok stride_rep q D s' \<and>
           (let Q = {p \<in> D. pstate (procs s p) = PROC_RUNNABLE \<and> p \<noteq> idleproc s}
            in if Q = {} then current s' = idleproc s else current s' \<in> Q) \<and>
           runs (procs s' (current s')) = runs (procs s (current s')) + 1 \<and>
           (\<forall>p. pstate (procs s' p) = pstate (procs s p))"
  using stride.schedule_ok [OF assms] by (simp only: Let_def) blast

lemma ex_sched_ok: "sched_ok stride_rep 0 {0, 1, 2} ex_sched"
proof -
  have "ready {0, 1, 2} ex_sched = {1, 2}"
    by (auto simp: ready_def ex_sched_def)
  moreover have "stride_rep 0 {0, 1, 2} ex_sched {1, 2}"
    using ex_sched_inv by (auto simp: stride_rep_def stride_inv_def ex_sched_def
        intro!: exI [of _ "Node (Node Leaf 2 Leaf) 1 Leaf"])
  ultimately show ?thesis by (simp add: sched_ok_def) (simp add: ex_sched_def)
qed

theorem schedule_conserves_witness:
  "\<exists>s'. schedule default_sched_class 0 ex_sched = Some s' \<and> current s' \<in> {1, 2}"
proof -
  have "{p \<in> {0, 1, 2}. pstate (procs ex_sched p) = PROC_RUNNABLE \<and> p \<noteq> idleproc ex_sched} = {1, 2}"
    by (auto simp: ex_sched_def)
  then show ?thesis using schedule_conserves [OF ex_sched_ok] by (auto simp: Let_def)
qed

text \<open>C3: The same for the round-robin class.\<close>

theorem RR_schedule_conserves:
  assumes "sched_ok RR_rep q D s"
  shows "\<exists>s'. schedule RR_sched_class q s = Some s' \<and> sched_ok RR_rep q D s' \<and>
           (let Q = {p \<in> D. pstate (procs s p) = PROC_RUNNABLE \<and> p \<noteq> idleproc s}
            in if Q = {} then current s' = idleproc s else current s' \<in> Q) \<and>
           runs (procs s' (current s')) = runs (procs s (current s')) + 1 \<and>
           (\<forall>p. pstate (procs s' p) = pstate (procs s p))"
  using RR.schedule_ok [OF assms] by (simp only: Let_def) blast

definition ex_rr :: sched_state where
  "ex_rr = ex_sched\<lparr>procs := (\<lambda>p. (procs ex_sched p)\<lparr>proc_rq := Some 0\<rparr>),
     run_links := list_add_before (RqHead 0) (RunLink 2)
       (list_add_before (RqHead 0) (RunLink 1) (\<lambda>n. \<lparr>le_prev = n, le_next = n\<rparr>))\<rparr>"

lemma ex_rr_ok: "sched_ok RR_rep 0 {0, 1, 2} ex_rr"
proof -
  have "ready {0, 1, 2} ex_rr = {1, 2}"
    by (auto simp: ready_def ex_rr_def ex_sched_def)
  moreover have "RR_seq 0 {0, 1, 2} ex_rr [1, 2]"
    by (simp add: RR_seq_def ring_def linked_def klist_defs ex_rr_def ex_sched_def)
  then have "RR_rep 0 {0, 1, 2} ex_rr {1, 2}"
    by (auto simp: RR_rep_def)
  ultimately show ?thesis by (simp add: sched_ok_def) (simp add: ex_rr_def ex_sched_def)
qed

theorem RR_schedule_conserves_witness:
  "\<exists>s'. schedule RR_sched_class 0 ex_rr = Some s' \<and> current s' \<in> {1, 2}"
proof -
  have "{p \<in> {0, 1, 2}. pstate (procs ex_rr p) = PROC_RUNNABLE \<and> p \<noteq> idleproc ex_rr} = {1, 2}"
    by (auto simp: ex_rr_def ex_sched_def)
  then show ?thesis using RR_schedule_conserves [OF ex_rr_ok] by (auto simp: Let_def)
qed

text \<open>
  C4: \<open>wakeup_proc\<close> makes any process that is not a zombie runnable and puts it on the run queue
  (unless it is running or idle), without touching any other process.
\<close>

theorem wakeup_enqueues:
  assumes "sched_ok stride_rep q D s" "p \<in> D" "pstate (procs s p) \<noteq> PROC_ZOMBIE"
  shows "\<exists>s'. wakeup_proc default_sched_class q p s = Some s' \<and> sched_ok stride_rep q D s' \<and>
           pstate (procs s' p) = PROC_RUNNABLE \<and>
           (\<forall>r. r \<noteq> p \<longrightarrow> pstate (procs s' r) = pstate (procs s r) \<and>
                wait_state (procs s' r) = wait_state (procs s r))"
  using stride.wakeup_ok [OF assms] by blast

definition ex_asleep :: sched_state where
  "ex_asleep = upd_proc 3 (\<lambda>r. r\<lparr>pstate := PROC_SLEEPING, wait_state := WT_TIMER\<rparr>) ex_sched"

lemma ex_asleep_ok: "sched_ok stride_rep 0 {0, 1, 2, 3} ex_asleep"
proof -
  have "ready {0, 1, 2, 3} ex_asleep = {1, 2}"
    by (auto simp: ready_def ex_asleep_def ex_sched_def)
  moreover have "stride_rep 0 {0, 1, 2, 3} ex_asleep {1, 2}"
    using ex_sched_inv by (auto simp: stride_rep_def ex_asleep_def stride_inv_def
        ex_sched_def intro!: exI [of _ "Node (Node Leaf 2 Leaf) 1 Leaf"])
  ultimately show ?thesis by (simp add: sched_ok_def) (simp add: ex_asleep_def ex_sched_def)
qed

theorem wakeup_enqueues_witness:
  "\<exists>s'. wakeup_proc default_sched_class 0 3 ex_asleep = Some s' \<and> pstate (procs s' 3) = PROC_RUNNABLE \<and>
     sched_ok stride_rep 0 {0, 1, 2, 3} s'"
  using wakeup_enqueues [OF ex_asleep_ok, of 3] by (auto simp: ex_asleep_def)

text \<open>
  C5: \<open>add_timer\<close> lets the new timer expire after exactly the requested number of ticks and leaves the
  expiry of every other timer unchanged.
\<close>

theorem add_timer_expiry:
  assumes "expires (timers s t) > 0" "timer_proc (timers s t) \<noteq> None"
    and "distinct (timer_list s)" "t \<notin> set (timer_list s)"
  shows "\<exists>s'. add_timer t s = Some s' \<and> set (timer_list s') = insert t (set (timer_list s)) \<and>
           expiry (timers s') (timer_list s') t = unat (expires (timers s t)) \<and>
           (\<forall>x \<in> set (timer_list s). expiry (timers s') (timer_list s') x = expiry (timers s) (timer_list s) x)"
proof -
  obtain le ts where l: "add_timer_loop t (timer_list s) (timers s) = (le, ts)"
    by (cases "add_timer_loop t (timer_list s) (timers s)") auto
  then show ?thesis
    using assms add_timer_loop_expiry [OF l assms(3,4)] by (simp add: add_timer_def)
qed

definition ex_timers :: timer_state where
  "ex_timers = \<lparr>tsched = ex_asleep,
     timers = (\<lambda>t. \<lparr>expires = (if t = 10 then 1 else if t = 11 then 4 else 3), timer_proc = Some 3\<rparr>),
     timer_list = [10, 11]\<rparr>"

theorem add_timer_expiry_witness:
  "\<exists>s'. add_timer 12 ex_timers = Some s' \<and> expiry (timers s') (timer_list s') 12 = 3 \<and>
     expiry (timers s') (timer_list s') 11 = 5"
  using add_timer_expiry [of ex_timers 12] by (auto simp: ex_timers_def)

text \<open>
  C6: \<open>del_timer\<close> takes a timer off the list and leaves the expiry of every other timer unchanged,
  as long as the expiry times fit in 32 bits.
\<close>

theorem del_timer_expiry:
  assumes "distinct (timer_list s)" "t \<in> set (timer_list s)"
    and "\<And>y. y \<in> set (timer_list s) \<Longrightarrow> expiry (timers s) (timer_list s) y < 2 ^ 32"
  shows "set (timer_list (del_timer t s)) = set (timer_list s) - {t} \<and>
         (\<forall>x \<in> set (timer_list s) - {t}.
            expiry (timers (del_timer t s)) (timer_list (del_timer t s)) x = expiry (timers s) (timer_list s) x)"
proof (cases "expires (timers s t) = 0")
  case True
  have "expiry ts (seq_del t xs) x = expiry ts xs x" if "expires (ts t) = 0" "x \<noteq> t" for ts xs x
    using that by (induction xs) (auto simp: seq_del_def)
  then show ?thesis using True assms by (simp add: del_timer_def)
next
  case False
  then show ?thesis
    using assms expiry_del [OF assms(1,2) _ _ assms(3)] by (simp add: del_timer_def)
qed

theorem del_timer_expiry_witness:
  "expiry (timers (del_timer 10 ex_timers)) (timer_list (del_timer 10 ex_timers)) 11 = 5"
  using del_timer_expiry [of ex_timers 10] by (simp add: ex_timers_def)

text \<open>
  C7: A clock tick counts every timer down by one: exactly the timers that had one tick left are taken
  off the list, and their processes are runnable afterwards; the others have one tick less.  Nobody else
  is woken: a process none of whose timers expired keeps its state and what it waits for.
\<close>

theorem run_timer_list_ticks:
  assumes "sched_ok stride_rep q D (tsched s)" "distinct (timer_list s)"
    and "timer_list s \<noteq> [] \<Longrightarrow> expires (timers s (hd (timer_list s))) \<noteq> 0"
    and "\<And>t. t \<in> set (timer_list s) \<Longrightarrow> timer_ready D (tsched s) (timers s t)"
  shows "\<exists>s'. run_timer_list default_sched_class q s = Some s' \<and> sched_ok stride_rep q D (tsched s') \<and>
    (\<forall>t \<in> set (timer_list s). t \<in> set (timer_list s') \<longleftrightarrow> expiry (timers s) (timer_list s) t \<noteq> 1) \<and>
    set (timer_list s') \<subseteq> set (timer_list s) \<and>
    (\<forall>t \<in> set (timer_list s'). expiry (timers s') (timer_list s') t = expiry (timers s) (timer_list s) t - 1) \<and>
    (\<forall>t \<in> set (timer_list s) - set (timer_list s'). \<forall>p. timer_proc (timers s t) = Some p \<longrightarrow>
       pstate (procs (tsched s') p) = PROC_RUNNABLE) \<and>
    (\<forall>p. (\<forall>t \<in> set (timer_list s) - set (timer_list s'). timer_proc (timers s t) \<noteq> Some p) \<longrightarrow>
       same_life (tsched s) (tsched s') p)"
  by (rule stride.run_timer_list_ok [OF assms])

theorem run_timer_list_ticks_witness:
  "\<exists>s'. run_timer_list default_sched_class 0 ex_timers = Some s' \<and> 10 \<notin> set (timer_list s') \<and>
     11 \<in> set (timer_list s') \<and> pstate (procs (tsched s') 3) = PROC_RUNNABLE \<and>
     pstate (procs (tsched s') 4) = pstate (procs ex_asleep 4)"
proof -
  have "sched_ok stride_rep 0 {0, 1, 2, 3} (tsched ex_timers)" "distinct (timer_list ex_timers)"
    "expires (timers ex_timers (hd (timer_list ex_timers))) \<noteq> 0"
    "\<And>t. t \<in> set (timer_list ex_timers) \<Longrightarrow> timer_ready {0, 1, 2, 3} (tsched ex_timers) (timers ex_timers t)"
    using ex_asleep_ok by (auto simp: ex_timers_def timer_ready_def ex_asleep_def WT_TIMER_def WT_INTERRUPTED_def)
  from run_timer_list_ticks [OF this] show ?thesis
    by (force simp: ex_timers_def same_life_def)
qed

end
