(* ===== verification/Sync.thy ===== *)
theory Sync
  imports Sched
begin

text \<open>
  Wait queues and semaphores: kern/sync/wait.c and sem.c.  Waits, queues
  and semaphores are named by numbers; a semaphore and its wait queue have the same name.  The links of
  queues and waits are a store of list entries.  Interrupts are off around each section below, so each
  is one atomic step; \<open>down\<close> is split where it calls \<open>schedule\<close>.
\<close>

section \<open>Wait queues\<close>

type_synonym wq_ptr = nat
type_synonym wait_ptr = nat

datatype wait_node = WaitHead wq_ptr | WaitLink wait_ptr

record kwait =
  wait_proc :: "proc_ptr option"
  wakeup_flags :: u32
  wait_queue :: "wq_ptr option"

record sync_state =
  ssched :: sched_state
  waits :: "wait_ptr \<Rightarrow> kwait"
  wait_links :: "wait_node lstore"
  sem_value :: "wq_ptr \<Rightarrow> int"

definition upd_wait :: "wait_ptr \<Rightarrow> (kwait \<Rightarrow> kwait) \<Rightarrow> sync_state \<Rightarrow> sync_state" where
  "upd_wait w f s = s\<lparr>waits := (waits s)(w := f (waits s w))\<rparr>"

definition wait_init :: "wait_ptr \<Rightarrow> proc_ptr option \<Rightarrow> sync_state \<Rightarrow> sync_state" where
  "wait_init w p s =
     (let s = upd_wait w (\<lambda>r. r\<lparr>wait_proc := p, wakeup_flags := WT_INTERRUPTED\<rparr>) s
      in s\<lparr>wait_links := list_init (WaitLink w) (wait_links s)\<rparr>)"

definition wait_queue_init :: "wq_ptr \<Rightarrow> sync_state \<Rightarrow> sync_state" where
  "wait_queue_init m s = s\<lparr>wait_links := list_init (WaitHead m) (wait_links s)\<rparr>"

definition wait_queue_add :: "wq_ptr \<Rightarrow> wait_ptr \<Rightarrow> sync_state \<Rightarrow> sync_state option" where
  "wait_queue_add m w s =
     do { kassert (list_empty (wait_links s) (WaitLink w) \<and> wait_proc (waits s w) \<noteq> None);
          let s = upd_wait w (\<lambda>r. r\<lparr>wait_queue := Some m\<rparr>) s;
          Some (s\<lparr>wait_links := list_add_before (WaitHead m) (WaitLink w) (wait_links s)\<rparr>) }"

definition wait_queue_del :: "wq_ptr \<Rightarrow> wait_ptr \<Rightarrow> sync_state \<Rightarrow> sync_state option" where
  "wait_queue_del m w s =
     do { kassert (\<not> list_empty (wait_links s) (WaitLink w) \<and> wait_queue (waits s w) = Some m);
          Some (s\<lparr>wait_links := list_del_init (WaitLink w) (wait_links s)\<rparr>) }"

text \<open>\<open>le2wait\<close> of an entry, or \<open>NULL\<close> at the head of the queue.\<close>

definition wait_of :: "wq_ptr \<Rightarrow> wait_node \<Rightarrow> wait_ptr option" where
  "wait_of m le = (if le = WaitHead m then None else case le of WaitHead _ \<Rightarrow> None | WaitLink w \<Rightarrow> Some w)"

definition wait_queue_next :: "wq_ptr \<Rightarrow> wait_ptr \<Rightarrow> sync_state \<Rightarrow> wait_ptr option option" where
  "wait_queue_next m w s =
     do { kassert (\<not> list_empty (wait_links s) (WaitLink w) \<and> wait_queue (waits s w) = Some m);
          Some (wait_of m (list_next (wait_links s) (WaitLink w))) }"

definition wait_queue_prev :: "wq_ptr \<Rightarrow> wait_ptr \<Rightarrow> sync_state \<Rightarrow> wait_ptr option option" where
  "wait_queue_prev m w s =
     do { kassert (\<not> list_empty (wait_links s) (WaitLink w) \<and> wait_queue (waits s w) = Some m);
          Some (wait_of m (list_prev (wait_links s) (WaitLink w))) }"

definition wait_queue_first :: "wq_ptr \<Rightarrow> sync_state \<Rightarrow> wait_ptr option" where
  "wait_queue_first m s = wait_of m (list_next (wait_links s) (WaitHead m))"

definition wait_queue_last :: "wq_ptr \<Rightarrow> sync_state \<Rightarrow> wait_ptr option" where
  "wait_queue_last m s = wait_of m (list_prev (wait_links s) (WaitHead m))"

definition wait_queue_empty :: "wq_ptr \<Rightarrow> sync_state \<Rightarrow> bool" where
  "wait_queue_empty m s = list_empty (wait_links s) (WaitHead m)"

definition wait_in_queue :: "wait_ptr \<Rightarrow> sync_state \<Rightarrow> bool" where
  "wait_in_queue w s \<longleftrightarrow> \<not> list_empty (wait_links s) (WaitLink w)"

definition wakeup_wait ::
  "sched_class \<Rightarrow> rq_ptr \<Rightarrow> wq_ptr \<Rightarrow> wait_ptr \<Rightarrow> u32 \<Rightarrow> bool \<Rightarrow> sync_state \<Rightarrow> sync_state option" where
  "wakeup_wait sc q m w flags del s =
     do { s \<leftarrow> (if del then wait_queue_del m w s else Some s);
          let s = upd_wait w (\<lambda>r. r\<lparr>wakeup_flags := flags\<rparr>) s;
          p \<leftarrow> wait_proc (waits s w);
          k \<leftarrow> wakeup_proc sc q p (ssched s);
          Some (s\<lparr>ssched := k\<rparr>) }"

definition wakeup_first :: "sched_class \<Rightarrow> rq_ptr \<Rightarrow> wq_ptr \<Rightarrow> u32 \<Rightarrow> bool \<Rightarrow> sync_state \<Rightarrow> sync_state option" where
  "wakeup_first sc q m flags del s =
     (case wait_queue_first m s of
        None \<Rightarrow> Some s
      | Some w \<Rightarrow> wakeup_wait sc q m w flags del s)"

text \<open>The two loops of \<open>wakeup_queue\<close>.\<close>

partial_function (option) wakeup_del_loop ::
  "sched_class \<Rightarrow> rq_ptr \<Rightarrow> wq_ptr \<Rightarrow> u32 \<Rightarrow> wait_ptr \<Rightarrow> sync_state \<Rightarrow> sync_state option" where
  "wakeup_del_loop sc q m flags w s =
     do { s \<leftarrow> wakeup_wait sc q m w flags True s;
          case wait_queue_first m s of None \<Rightarrow> Some s | Some w \<Rightarrow> wakeup_del_loop sc q m flags w s }"

partial_function (option) wakeup_keep_loop ::
  "sched_class \<Rightarrow> rq_ptr \<Rightarrow> wq_ptr \<Rightarrow> u32 \<Rightarrow> wait_ptr \<Rightarrow> sync_state \<Rightarrow> sync_state option" where
  "wakeup_keep_loop sc q m flags w s =
     do { s \<leftarrow> wakeup_wait sc q m w flags False s;
          n \<leftarrow> wait_queue_next m w s;
          case n of None \<Rightarrow> Some s | Some w \<Rightarrow> wakeup_keep_loop sc q m flags w s }"

definition wakeup_queue :: "sched_class \<Rightarrow> rq_ptr \<Rightarrow> wq_ptr \<Rightarrow> u32 \<Rightarrow> bool \<Rightarrow> sync_state \<Rightarrow> sync_state option" where
  "wakeup_queue sc q m flags del s =
     (case wait_queue_first m s of
        None \<Rightarrow> Some s
      | Some w \<Rightarrow> if del then wakeup_del_loop sc q m flags w s else wakeup_keep_loop sc q m flags w s)"

definition wait_current_set :: "wq_ptr \<Rightarrow> wait_ptr \<Rightarrow> u32 \<Rightarrow> sync_state \<Rightarrow> sync_state option" where
  "wait_current_set m w st s =
     (let s = wait_init w (Some (current (ssched s))) s;
          s = s\<lparr>ssched := upd_proc (current (ssched s)) (\<lambda>r. r\<lparr>pstate := PROC_SLEEPING, wait_state := st\<rparr>) (ssched s)\<rparr>
      in wait_queue_add m w s)"

definition wait_current_del :: "wq_ptr \<Rightarrow> wait_ptr \<Rightarrow> sync_state \<Rightarrow> sync_state option" where
  "wait_current_del m w s = (if wait_in_queue w s then wait_queue_del m w s else Some s)"

section \<open>Semaphores\<close>

definition sem_init :: "wq_ptr \<Rightarrow> int \<Rightarrow> sync_state \<Rightarrow> sync_state" where
  "sem_init m v s = wait_queue_init m (s\<lparr>sem_value := (sem_value s)(m := v)\<rparr>)"

definition sem_up :: "sched_class \<Rightarrow> rq_ptr \<Rightarrow> wq_ptr \<Rightarrow> u32 \<Rightarrow> sync_state \<Rightarrow> sync_state option" where
  "sem_up sc q m st s =
     (case wait_queue_first m s of
        None \<Rightarrow> Some (s\<lparr>sem_value := (sem_value s)(m := sem_value s m + 1)\<rparr>)
      | Some w \<Rightarrow>
          do { p \<leftarrow> wait_proc (waits s w);
               kassert (wait_state (procs (ssched s) p) = st);
               wakeup_wait sc q m w st True s })"

text \<open>
  \<open>__down\<close> up to the call of \<open>schedule\<close> (\<open>True\<close>: it returns 0 at once; \<open>False\<close>: the caller sleeps), and
  from there to its end.  The wait is on the stack of the caller.
\<close>

definition sem_down_enter :: "wq_ptr \<Rightarrow> wait_ptr \<Rightarrow> u32 \<Rightarrow> sync_state \<Rightarrow> (bool \<times> sync_state) option" where
  "sem_down_enter m w st s =
     (if sem_value s m > 0 then Some (True, s\<lparr>sem_value := (sem_value s)(m := sem_value s m - 1)\<rparr>)
      else do { s \<leftarrow> wait_current_set m w st s; Some (False, s) })"

definition sem_down_leave :: "wq_ptr \<Rightarrow> wait_ptr \<Rightarrow> u32 \<Rightarrow> sync_state \<Rightarrow> (u32 \<times> sync_state) option" where
  "sem_down_leave m w st s =
     do { s \<leftarrow> wait_current_del m w s;
          Some (if wakeup_flags (waits s w) \<noteq> st then wakeup_flags (waits s w) else 0, s) }"

definition up :: "sched_class \<Rightarrow> rq_ptr \<Rightarrow> wq_ptr \<Rightarrow> sync_state \<Rightarrow> sync_state option" where
  "up sc q m s = sem_up sc q m WT_KSEM s"

definition down_enter :: "sched_class \<Rightarrow> rq_ptr \<Rightarrow> wq_ptr \<Rightarrow> wait_ptr \<Rightarrow> sync_state \<Rightarrow> (bool \<times> sync_state) option" where
  "down_enter sc q m w s =
     do { (b, s) \<leftarrow> sem_down_enter m w WT_KSEM s;
          if b then Some (True, s) else do { k \<leftarrow> schedule sc q (ssched s); Some (False, s\<lparr>ssched := k\<rparr>) } }"

definition down_leave :: "wq_ptr \<Rightarrow> wait_ptr \<Rightarrow> sync_state \<Rightarrow> sync_state option" where
  "down_leave m w s =
     do { (flags, s) \<leftarrow> sem_down_leave m w WT_KSEM s; kassert (flags = 0); Some s }"

definition try_down :: "wq_ptr \<Rightarrow> sync_state \<Rightarrow> bool \<times> sync_state" where
  "try_down m s =
     (if sem_value s m > 0 then (True, s\<lparr>sem_value := (sem_value s)(m := sem_value s m - 1)\<rparr>)
      else (False, s))"

section \<open>What a semaphore is\<close>

text \<open>
  The abstract semaphore: a counter and the waits in the order of their arrival.
\<close>

fun a_up :: "int \<times> wait_ptr list \<Rightarrow> int \<times> wait_ptr list" where
  "a_up (v, []) = (v + 1, [])"
| "a_up (v, w # ws) = (v, ws)"

definition a_down :: "wait_ptr \<Rightarrow> int \<times> wait_ptr list \<Rightarrow> bool \<times> int \<times> wait_ptr list" where
  "a_down w a = (let (v, ws) = a in if v > 0 then (True, v - 1, ws) else (False, v, ws @ [w]))"

definition asleep :: "proc_ptr set \<Rightarrow> sync_state \<Rightarrow> wq_ptr \<Rightarrow> wait_ptr \<Rightarrow> bool" where
  "asleep D s m w \<longleftrightarrow> wait_queue (waits s w) = Some m \<and> (\<exists>p \<in> D. wait_proc (waits s w) = Some p \<and>
     pstate (procs (ssched s) p) = PROC_SLEEPING \<and> wait_state (procs (ssched s) p) = WT_KSEM)"

definition sem_rep :: "proc_ptr set \<Rightarrow> sync_state \<Rightarrow> wq_ptr \<Rightarrow> int \<times> wait_ptr list \<Rightarrow> bool" where
  "sem_rep D s m a \<longleftrightarrow> ring (wait_links s) (WaitHead m) (map WaitLink (snd a)) \<and> sem_value s m = fst a \<and>
     (\<forall>w \<in> set (snd a). asleep D s m w) \<and> inj_on (\<lambda>w. wait_proc (waits s w)) (set (snd a)) \<and>
     0 \<le> fst a \<and> (snd a \<noteq> [] \<longrightarrow> fst a = 0)"

lemma wait_queue_first_eq:
  assumes "ring (wait_links s) (WaitHead m) (map WaitLink ws)"
  shows "wait_queue_first m s = (case ws of [] \<Rightarrow> None | w # _ \<Rightarrow> Some w)"
  using ring_first [OF assms] by (cases ws) (auto simp: wait_queue_first_def wait_of_def list_next_def)

lemma upd_wait_sel [simp]:
  "waits (upd_wait w f s) = (waits s)(w := f (waits s w))" "wait_links (upd_wait w f s) = wait_links s"
  "sem_value (upd_wait w f s) = sem_value s" "ssched (upd_wait w f s) = ssched s"
  by (simp_all add: upd_wait_def)

lemma sem_repD:
  assumes "sem_rep D s m (v, ws)"
  shows "ring (wait_links s) (WaitHead m) (map WaitLink ws)" "sem_value s m = v" "w \<in> set ws \<Longrightarrow> asleep D s m w"
    "inj_on (\<lambda>w. wait_proc (waits s w)) (set ws)" "0 \<le> v" "ws \<noteq> [] \<Longrightarrow> v = 0" "distinct ws"
proof -
  show r: "ring (wait_links s) (WaitHead m) (map WaitLink ws)" using assms by (simp add: sem_rep_def)
  then have "distinct (map WaitLink ws)" by (simp add: ring_def)
  then show "distinct ws" by (rule distinct_map [THEN iffD1, THEN conjunct1])
qed (use assms in \<open>simp_all add: sem_rep_def\<close>)

context sched_class_spec
begin

text \<open>Waking the first wait of a queue.\<close>

lemma wakeup_first_wait:
  assumes r: "sem_rep D s m (v, w # ws)" and ok: "sched_ok rep q D (ssched s)"
  shows "\<exists>s' p. wakeup_wait sc q m w flags True s = Some s' \<and> sem_rep D s' m (v, ws) \<and> sched_ok rep q D (ssched s') \<and>
    wait_proc (waits s w) = Some p \<and> pstate (procs (ssched s') p) = PROC_RUNNABLE \<and> wakeup_flags (waits s' w) = flags \<and>
    \<not> wait_in_queue w s' \<and> current (ssched s') = current (ssched s) \<and>
    (\<forall>w' \<in> set ws. waits s' w' = waits s w')"
proof -
  note d = sem_repD [OF r]
  obtain p where p: "p \<in> D" "wait_proc (waits s w) = Some p" "pstate (procs (ssched s) p) = PROC_SLEEPING"
    "wait_queue (waits s w) = Some m" using d(3) [of w] by (auto simp: asleep_def)
  have ne: "\<not> list_empty (wait_links s) (WaitLink w)" using list_empty_entry [OF d(1)] by simp
  let ?l = "list_del_init (WaitLink w) (wait_links s)"
  have l: "ring ?l (WaitHead m) (map WaitLink ws)" "ring ?l (WaitLink w) []"
    using ring_seq_del_init [OF d(1), of "WaitLink w"] by (simp_all add: seq_del_def)
  obtain k where k: "wakeup_proc sc q p (ssched s) = Some k" "sched_ok rep q D k" "pstate (procs k p) = PROC_RUNNABLE"
    "current k = current (ssched s)" "\<And>r. r \<noteq> p \<Longrightarrow> pstate (procs k r) = pstate (procs (ssched s) r) \<and>
       wait_state (procs k r) = wait_state (procs (ssched s) r)"
    using wakeup_ok [OF ok p(1)] p(3) by auto
  let ?s = "(upd_wait w (\<lambda>r. r\<lparr>wakeup_flags := flags\<rparr>) (s\<lparr>wait_links := ?l\<rparr>))\<lparr>ssched := k\<rparr>"
  have run: "wakeup_wait sc q m w flags True s = Some ?s"
    using p ne k(1) by (simp add: wakeup_wait_def wait_queue_del_def)
  have other: "asleep D ?s m w'" if "w' \<in> set ws" for w'
  proof -
    have "w' \<noteq> w" using that d(7) by auto
    moreover have "wait_proc (waits s w') \<noteq> Some p"
      using inj_onD [OF d(4), of w' w] that p(2) \<open>w' \<noteq> w\<close> by auto
    ultimately show ?thesis using d(3) [of w'] that k(5) by (auto simp: asleep_def)
  qed
  have "inj_on (\<lambda>w. wait_proc (waits s w)) (set ws)" by (rule inj_on_subset [OF d(4)]) auto
  then have inj: "inj_on (\<lambda>w. wait_proc (waits ?s w)) (set ws)"
    by (rule inj_on_cong [THEN iffD1, rotated]) (use d(7) in auto)
  have "ring (wait_links ?s) (WaitHead m) (map WaitLink ws)" "sem_value ?s m = v" using l(1) d(2) by simp_all
  then have "sem_rep D ?s m (v, ws)"
    unfolding sem_rep_def fst_conv snd_conv using other inj d(5,6) by blast
  moreover have "\<not> wait_in_queue w ?s"
    using ring_list_empty [OF l(2)] by (simp add: wait_in_queue_def)
  ultimately show ?thesis using run k p(2) d(7) by auto
qed

lemma up_ok:
  assumes r: "sem_rep D s m a" and ok: "sched_ok rep q D (ssched s)"
  shows "\<exists>s'. up sc q m s = Some s' \<and> sem_rep D s' m (a_up a) \<and> sched_ok rep q D (ssched s') \<and>
    (\<forall>w ws p. snd a = w # ws \<longrightarrow> wait_proc (waits s w) = Some p \<longrightarrow>
       pstate (procs (ssched s') p) = PROC_RUNNABLE \<and> down_leave m w s' = Some s') \<and>
    (\<forall>w \<in> set (snd (a_up a)). waits s' w = waits s w)"
proof -
  obtain v ws where a: "a = (v, ws)" by fastforce
  note d = sem_repD [OF r [unfolded a]]
  show ?thesis
  proof (cases ws)
    case Nil
    then have "up sc q m s = Some (s\<lparr>sem_value := (sem_value s)(m := v + 1)\<rparr>)"
      using wait_queue_first_eq [OF d(1)] d(2) by (simp add: up_def sem_up_def)
    then show ?thesis using r ok Nil a by (auto simp: sem_rep_def)
  next
    case (Cons w rest)
    obtain s' p where s': "wakeup_wait sc q m w WT_KSEM True s = Some s'" "sem_rep D s' m (v, rest)"
      "sched_ok rep q D (ssched s')" "wait_proc (waits s w) = Some p" "pstate (procs (ssched s') p) = PROC_RUNNABLE"
      "wakeup_flags (waits s' w) = WT_KSEM" "\<not> wait_in_queue w s'" "\<forall>w' \<in> set rest. waits s' w' = waits s w'"
      using wakeup_first_wait [OF r [unfolded a Cons] ok, of WT_KSEM] by blast
    have "wait_state (procs (ssched s) p) = WT_KSEM" using d(3) [of w] Cons s'(4) by (auto simp: asleep_def)
    then have "up sc q m s = Some s'"
      using wait_queue_first_eq [OF d(1)] Cons s'(1,4) by (simp add: up_def sem_up_def)
    moreover have "down_leave m w s' = Some s'"
      using s'(6,7) by (simp add: down_leave_def sem_down_leave_def wait_current_del_def)
    ultimately show ?thesis using s' Cons a by auto
  qed
qed

lemma sem_down_enter_ok:
  assumes r: "sem_rep D s m (v, ws)" and ok: "sched_ok rep q D (ssched s)"
    and w: "w \<notin> set ws" and c: "pstate (procs (ssched s) (current (ssched s))) = PROC_RUNNABLE"
  shows "\<exists>s'. sem_down_enter m w WT_KSEM s = Some (fst (a_down w (v, ws)), s') \<and> sem_rep D s' m (snd (a_down w (v, ws))) \<and>
    sched_ok rep q D (ssched s') \<and> idleproc (ssched s') = idleproc (ssched s) \<and>
    (if v > 0 then ssched s' = ssched s
     else wait_proc (waits s' w) = Some (current (ssched s)) \<and>
       pstate (procs (ssched s') (current (ssched s))) = PROC_SLEEPING \<and> wait_state (procs (ssched s') (current (ssched s))) = WT_KSEM)"
proof -
  note d = sem_repD [OF r]
  show ?thesis
  proof (cases "v > 0")
    case True
    then show ?thesis using r ok d by (auto simp: sem_down_enter_def a_down_def sem_rep_def asleep_def)
  next
    case False
    let ?c = "current (ssched s)"
    let ?k = "upd_proc ?c (\<lambda>r. r\<lparr>pstate := PROC_SLEEPING, wait_state := WT_KSEM\<rparr>) (ssched s)"
    let ?l = "list_init (WaitLink w) (wait_links s)"
    let ?W = "\<lambda>r. r\<lparr>wait_proc := Some ?c, wakeup_flags := WT_INTERRUPTED, wait_queue := Some m\<rparr>"
    let ?s = "s\<lparr>ssched := ?k, waits := (waits s)(w := ?W (waits s w)),
      wait_links := list_add_before (WaitHead m) (WaitLink w) ?l\<rparr>"
    have "list_empty ?l (WaitLink w)" by (simp add: list_empty_def klist_defs)
    then have run: "sem_down_enter m w WT_KSEM s = Some (False, ?s)"
      using False d(2) by (simp add: sem_down_enter_def wait_current_set_def wait_init_def wait_queue_add_def Let_def upd_wait_def)
    have "ring ?l (WaitHead m) (map WaitLink ws)"
      using d(1) w by (subst ring_frame [of _ _ _ "wait_links s"]) (auto simp: klist_defs)
    then have ring: "ring (wait_links ?s) (WaitHead m) (map WaitLink (ws @ [w]))"
      using klist.put_law [of ?l "WaitHead m" "map WaitLink ws" "WaitLink w"] w by auto
    have other: "wait_proc (waits s w') \<noteq> Some ?c" if "w' \<in> set ws" for w'
      using d(3) [OF that] c by (auto simp: asleep_def)
    have sl: "asleep D ?s m w'" if "w' \<in> set (ws @ [w])" for w'
    proof (cases "w' = w")
      case True
      then show ?thesis using ok by (auto simp: asleep_def sched_ok_def)
    next
      case False
      then show ?thesis using that d(3) [of w'] other [of w'] by (auto simp: asleep_def)
    qed
    have "inj_on (\<lambda>w. wait_proc (waits ?s w)) (set ws)"
      by (rule inj_on_cong [THEN iffD1, OF _ d(4)]) (use w in auto)
    moreover have "wait_proc (waits ?s w) \<notin> (\<lambda>w. wait_proc (waits ?s w)) ` set ws"
    proof
      assume "wait_proc (waits ?s w) \<in> (\<lambda>w. wait_proc (waits ?s w)) ` set ws"
      then obtain w' where w': "w' \<in> set ws" "wait_proc (waits ?s w') = wait_proc (waits ?s w)" by (elim imageE) simp
      then have "w' \<noteq> w" using w by blast
      then show False using w'(2) other [OF w'(1)] by simp
    qed
    ultimately have inj: "inj_on (\<lambda>w. wait_proc (waits ?s w)) (set (ws @ [w]))" using w by (simp add: inj_on_insert)
    have "sem_rep D ?s m (v, ws @ [w])"
      unfolding sem_rep_def fst_conv snd_conv using ring sl inj d(2,5) False by simp
    moreover have "ready D ?k = ready D (ssched s)" by (auto simp: ready_def)
    then have "sched_ok rep q D ?k" using ok by (auto simp: sched_ok_def intro!: rep_upd)
    ultimately show ?thesis using run False by (simp add: a_down_def)
  qed
qed

text \<open>Switching to another process changes no semaphore.\<close>

lemma sem_rep_schedule:
  assumes "sem_rep D s m a" "\<And>p. pstate (procs k p) = pstate (procs (ssched s) p)"
    "\<And>p. wait_state (procs k p) = wait_state (procs (ssched s) p)"
  shows "sem_rep D (s\<lparr>ssched := k\<rparr>) m a"
  using assms by (simp add: sem_rep_def asleep_def)

lemma down_enter_ok:
  assumes r: "sem_rep D s m (v, ws)" and ok: "sched_ok rep q D (ssched s)"
    and w: "w \<notin> set ws" and c: "pstate (procs (ssched s) (current (ssched s))) = PROC_RUNNABLE"
  shows "\<exists>s'. down_enter sc q m w s = Some (fst (a_down w (v, ws)), s') \<and> sem_rep D s' m (snd (a_down w (v, ws))) \<and>
    sched_ok rep q D (ssched s') \<and>
    (if v > 0 then ssched s' = ssched s
     else wait_proc (waits s' w) = Some (current (ssched s)) \<and>
       pstate (procs (ssched s') (current (ssched s))) = PROC_SLEEPING \<and> wait_state (procs (ssched s') (current (ssched s))) = WT_KSEM \<and>
       (current (ssched s) \<noteq> idleproc (ssched s) \<longrightarrow> current (ssched s') \<noteq> current (ssched s)))"
proof -
  obtain s1 where s1: "sem_down_enter m w WT_KSEM s = Some (fst (a_down w (v, ws)), s1)"
    "sem_rep D s1 m (snd (a_down w (v, ws)))" "sched_ok rep q D (ssched s1)" "idleproc (ssched s1) = idleproc (ssched s)"
    "if v > 0 then ssched s1 = ssched s
     else wait_proc (waits s1 w) = Some (current (ssched s)) \<and>
       pstate (procs (ssched s1) (current (ssched s))) = PROC_SLEEPING \<and> wait_state (procs (ssched s1) (current (ssched s))) = WT_KSEM"
    using sem_down_enter_ok [OF assms] by (elim exE conjE) rule
  show ?thesis
  proof (cases "v > 0")
    case True
    then show ?thesis using s1 by (simp add: down_enter_def a_down_def)
  next
    case False
    let ?Q = "{p \<in> D. pstate (procs (ssched s1) p) = PROC_RUNNABLE \<and> p \<noteq> idleproc (ssched s1)}"
    obtain k where k: "schedule sc q (ssched s1) = Some k" "sched_ok rep q D k"
      "if ?Q = {} then current k = idleproc (ssched s1) else current k \<in> ?Q"
      "\<forall>p. pstate (procs k p) = pstate (procs (ssched s1) p)" "\<forall>p. wait_state (procs k p) = wait_state (procs (ssched s1) p)"
      using schedule_ok [OF s1(3)] by (elim exE conjE) rule
    have "down_enter sc q m w s = Some (fst (a_down w (v, ws)), s1\<lparr>ssched := k\<rparr>)"
      using s1(1) k(1) False by (simp add: down_enter_def a_down_def)
    moreover have "sem_rep D (s1\<lparr>ssched := k\<rparr>) m (snd (a_down w (v, ws)))"
      using sem_rep_schedule [OF s1(2)] k(4,5) by blast
    moreover have "current k \<noteq> current (ssched s)" if "current (ssched s) \<noteq> idleproc (ssched s)"
      using k(3) s1(4,5) False that by (auto split: if_splits)
    ultimately show ?thesis using k(2,4,5) s1(5) False by auto
  qed
qed

end

lemma try_down_ok:
  assumes r: "sem_rep D s m (v, ws)"
  shows "\<exists>s'. try_down m s = (v > 0, s') \<and> sem_rep D s' m (if v > 0 then (v - 1, ws) else (v, ws)) \<and> ssched s' = ssched s"
  using r sem_repD(6) [OF r] by (cases "v > 0") (auto simp: try_down_def sem_rep_def asleep_def)

section \<open>Properties\<close>

primrec up_times :: "sched_class \<Rightarrow> rq_ptr \<Rightarrow> wq_ptr \<Rightarrow> nat \<Rightarrow> sync_state \<Rightarrow> sync_state option" where
  "up_times sc q m 0 s = Some s"
| "up_times sc q m (Suc n) s = do { s \<leftarrow> up sc q m s; up_times sc q m n s }"

text \<open>
  C32: The semaphores of sem.c, with their linked wait queues and the run queue of the scheduler, implement
  the abstract semaphore.  A semaphore is initialised to its value with no waiters.  \<open>up\<close> always succeeds; it
  wakes the first waiter, which is then runnable and whose \<open>down\<close> completes, or else counts up.  \<open>down\<close> counts
  down and goes on in the same process, or puts the caller, asleep, at the end of the queue and switches to
  another process; \<open>try_down\<close> counts down or reports failure and never waits.
\<close>

theorem semaphore_refines:
  assumes "sem_rep D s m (v, ws)" "sched_ok stride_rep q D (ssched s)"
  shows "(\<forall>n \<ge> 0. sem_rep D (sem_init m n s) m (n, [])) \<and>
    (\<exists>s'. up default_sched_class q m s = Some s' \<and> sem_rep D s' m (a_up (v, ws)) \<and> sched_ok stride_rep q D (ssched s') \<and>
      (\<forall>w rest p. ws = w # rest \<longrightarrow> wait_proc (waits s w) = Some p \<longrightarrow>
         pstate (procs (ssched s') p) = PROC_RUNNABLE \<and> down_leave m w s' = Some s')) \<and>
    (\<forall>w. w \<notin> set ws \<and> pstate (procs (ssched s) (current (ssched s))) = PROC_RUNNABLE \<longrightarrow>
      (\<exists>s'. down_enter default_sched_class q m w s = Some (fst (a_down w (v, ws)), s') \<and>
         sem_rep D s' m (snd (a_down w (v, ws))) \<and> sched_ok stride_rep q D (ssched s') \<and>
         (if v > 0 then ssched s' = ssched s
          else wait_proc (waits s' w) = Some (current (ssched s)) \<and>
            pstate (procs (ssched s') (current (ssched s))) = PROC_SLEEPING \<and>
            wait_state (procs (ssched s') (current (ssched s))) = WT_KSEM \<and>
            (current (ssched s) \<noteq> idleproc (ssched s) \<longrightarrow> current (ssched s') \<noteq> current (ssched s))))) \<and>
    (\<exists>s'. try_down m s = (v > 0, s') \<and> sem_rep D s' m (if v > 0 then (v - 1, ws) else (v, ws)) \<and> ssched s' = ssched s)"
proof (intro conjI allI impI)
  show "\<exists>s'. up default_sched_class q m s = Some s' \<and> sem_rep D s' m (a_up (v, ws)) \<and> sched_ok stride_rep q D (ssched s') \<and>
      (\<forall>w rest p. ws = w # rest \<longrightarrow> wait_proc (waits s w) = Some p \<longrightarrow>
         pstate (procs (ssched s') p) = PROC_RUNNABLE \<and> down_leave m w s' = Some s')"
    using stride.up_ok [OF assms] unfolding snd_conv by (elim exE conjE) (intro exI conjI; assumption)
next
  fix w assume "w \<notin> set ws \<and> pstate (procs (ssched s) (current (ssched s))) = PROC_RUNNABLE"
  then show "\<exists>s'. down_enter default_sched_class q m w s = Some (fst (a_down w (v, ws)), s') \<and>
         sem_rep D s' m (snd (a_down w (v, ws))) \<and> sched_ok stride_rep q D (ssched s') \<and>
         (if v > 0 then ssched s' = ssched s
          else wait_proc (waits s' w) = Some (current (ssched s)) \<and>
            pstate (procs (ssched s') (current (ssched s))) = PROC_SLEEPING \<and>
            wait_state (procs (ssched s') (current (ssched s))) = WT_KSEM \<and>
            (current (ssched s) \<noteq> idleproc (ssched s) \<longrightarrow> current (ssched s') \<noteq> current (ssched s)))"
    using stride.down_enter_ok [OF assms, of w] by simp
next
  show "\<exists>s'. try_down m s = (v > 0, s') \<and> sem_rep D s' m (if v > 0 then (v - 1, ws) else (v, ws)) \<and> ssched s' = ssched s"
    by (rule try_down_ok [OF assms(1)])
qed (simp add: sem_rep_def sem_init_def wait_queue_init_def klist_defs ring_def linked_def)

lemma up_times_serves:
  assumes "sem_rep D s m (v, ws)" "sched_ok stride_rep q D (ssched s)" "k < length ws" "wait_proc (waits s (ws ! k)) = Some p"
  shows "\<exists>s'. up_times default_sched_class q m (Suc k) s = Some s' \<and> pstate (procs (ssched s') p) = PROC_RUNNABLE \<and>
    sem_rep D s' m (v, drop (Suc k) ws)"
  using assms
proof (induction k arbitrary: s ws)
  case 0
  then obtain w rest where ws: "ws = w # rest" by (cases ws) auto
  show ?case using stride.up_ok [OF "0.prems"(1,2)] ws "0.prems"(4) by auto
next
  case (Suc k)
  then obtain w rest where ws: "ws = w # rest" by (cases ws) auto
  obtain s1 where u: "up default_sched_class q m s = Some s1" "sem_rep D s1 m (v, rest)" "sched_ok stride_rep q D (ssched s1)"
    "\<forall>w \<in> set rest. waits s1 w = waits s w"
    using stride.up_ok [OF Suc.prems(1,2)] ws by auto
  have "wait_proc (waits s1 (rest ! k)) = Some p" using Suc.prems(3,4) ws u(4) by simp
  then show ?case using Suc.IH [OF u(2,3)] Suc.prems(3) ws u(1) by auto
qed

text \<open>
  C33: No waiter is forgotten.  The wait queue is served in order: the process at place \<open>k\<close> of the queue
  is runnable after \<open>k + 1\<close> calls of \<open>up\<close>.
\<close>

theorem semaphore_serves:
  assumes "sem_rep D s m (v, ws)" "sched_ok stride_rep q D (ssched s)" "k < length ws" "wait_proc (waits s (ws ! k)) = Some p"
  shows "\<exists>s'. up_times default_sched_class q m (Suc k) s = Some s' \<and> pstate (procs (ssched s') p) = PROC_RUNNABLE"
  using up_times_serves [OF assms] by blast

text \<open>Process 3 of the example run queue is asleep on semaphore 0.\<close>

definition ex_sem :: sync_state where
  "ex_sem = \<lparr>ssched = upd_proc 3 (\<lambda>r. r\<lparr>pstate := PROC_SLEEPING, wait_state := WT_KSEM\<rparr>) ex_sched,
     waits = (\<lambda>w. \<lparr>wait_proc = Some 3, wakeup_flags = WT_INTERRUPTED, wait_queue = Some 0\<rparr>),
     wait_links = (\<lambda>n. case n of WaitHead _ \<Rightarrow> \<lparr>le_prev = WaitLink 7, le_next = WaitLink 7\<rparr>
        | WaitLink _ \<Rightarrow> \<lparr>le_prev = WaitHead 0, le_next = WaitHead 0\<rparr>),
     sem_value = (\<lambda>m. 0)\<rparr>"

lemma ex_sem_rep: "sem_rep {0, 1, 2, 3} ex_sem 0 (0, [7])"
  by (simp add: sem_rep_def ring_def linked_def asleep_def ex_sem_def)

lemma ex_sem_ok: "sched_ok stride_rep 0 {0, 1, 2, 3} (ssched ex_sem)"
proof -
  have "ssched ex_sem = upd_proc 3 (\<lambda>r. r\<lparr>wait_state := WT_KSEM\<rparr>) ex_asleep"
    by (simp add: ex_sem_def ex_asleep_def upd_proc_def)
  moreover have "ready {0, 1, 2, 3} (upd_proc 3 (\<lambda>r. r\<lparr>wait_state := WT_KSEM\<rparr>) ex_asleep) = ready {0, 1, 2, 3} ex_asleep"
    by (auto simp: ready_def)
  ultimately show ?thesis using ex_asleep_ok by (auto simp: sched_ok_def intro!: stride.rep_upd)
qed

theorem semaphore_refines_witness:
  "(\<exists>s'. up default_sched_class 0 0 ex_sem = Some s' \<and> sem_rep {0, 1, 2, 3} s' 0 (0, []) \<and>
     pstate (procs (ssched s') 3) = PROC_RUNNABLE \<and> down_leave 0 7 s' = Some s') \<and>
   (\<exists>s'. down_enter default_sched_class 0 0 8 ex_sem = Some (False, s') \<and> sem_rep {0, 1, 2, 3} s' 0 (0, [7, 8]) \<and>
     pstate (procs (ssched s') 0) = PROC_SLEEPING) \<and>
   \<not> fst (try_down 0 ex_sem)"
proof -
  have e: "wait_proc (waits ex_sem 7) = Some 3" "current (ssched ex_sem) = 0" "pstate (procs (ssched ex_sem) 0) = PROC_RUNNABLE"
    by (simp_all add: ex_sem_def ex_sched_def)
  note ref = semaphore_refines [OF ex_sem_rep ex_sem_ok]
  have "\<exists>s'. up default_sched_class 0 0 ex_sem = Some s' \<and> sem_rep {0, 1, 2, 3} s' 0 (0, []) \<and>
      pstate (procs (ssched s') 3) = PROC_RUNNABLE \<and> down_leave 0 7 s' = Some s'"
    using ref [THEN conjunct2, THEN conjunct1] e(1) by auto
  moreover have "\<exists>s'. down_enter default_sched_class 0 0 8 ex_sem = Some (False, s') \<and> sem_rep {0, 1, 2, 3} s' 0 (0, [7, 8]) \<and>
      pstate (procs (ssched s') 0) = PROC_SLEEPING"
    using ref [THEN conjunct2, THEN conjunct2, THEN conjunct1, THEN spec, of 8] e(2,3) by (auto simp: a_down_def)
  moreover have "\<not> fst (try_down 0 ex_sem)" using ref [THEN conjunct2, THEN conjunct2, THEN conjunct2] by auto
  ultimately show ?thesis by blast
qed

theorem semaphore_serves_witness:
  "\<exists>s'. up_times default_sched_class 0 0 (Suc 0) ex_sem = Some s' \<and> pstate (procs (ssched s') 3) = PROC_RUNNABLE"
proof -
  have "wait_proc (waits ex_sem ([7] ! 0)) = Some 3" by (simp add: ex_sem_def)
  from semaphore_serves [OF ex_sem_rep ex_sem_ok _ this] show ?thesis by simp
qed

end
