(* ===== verification/Philosophers.thy ===== *)
theory Philosophers
  imports Sync
begin

text \<open>
  The dining philosophers of kern/sync/check_sync.c, in the version with semaphores, as a transition
  system: five threads whose statements interleave.  A step is one statement of a thread; the bodies of
  \<open>up\<close> and \<open>down\<close> run with interrupts off and are one step each.  Semaphores are the abstract ones that
  \<open>sem.c\<close> is shown to implement; the waits in their queues are named by the philosopher that waits.
\<close>

section \<open>The program\<close>

definition N :: nat where "N = 5"
definition LEFT :: "nat \<Rightarrow> nat" where "LEFT i = (i + N - 1) mod N"
definition RIGHT :: "nat \<Rightarrow> nat" where "RIGHT i = (i + 1) mod N"
definition TIMES :: nat where "TIMES = 4"

datatype phase = THINKING | HUNGRY | EATING

text \<open>Where a philosopher is: in its main loop, in \<open>phi_take_forks_sema\<close> or in \<open>phi_put_forks_sema\<close>.\<close>

datatype place =
    Loop | Think
  | TakeDown | TakeHungry | TakeTest | TakeUp | TakeWait
  | Eat
  | PutDown | PutThink | PutLeft | PutRight | PutUp
  | Quit

fun nxt :: "place \<Rightarrow> place" where
  "nxt Loop = Think"
| "nxt Think = TakeDown"
| "nxt TakeDown = TakeHungry"
| "nxt TakeHungry = TakeTest"
| "nxt TakeTest = TakeUp"
| "nxt TakeUp = TakeWait"
| "nxt TakeWait = Eat"
| "nxt Eat = PutDown"
| "nxt PutDown = PutThink"
| "nxt PutThink = PutLeft"
| "nxt PutLeft = PutRight"
| "nxt PutRight = PutUp"
| "nxt PutUp = Loop"
| "nxt Quit = Quit"

record phi_state =
  pc :: "nat \<Rightarrow> place"
  iter :: "nat \<Rightarrow> nat"
  state_sema :: "nat \<Rightarrow> phase"
  mutex :: "int \<times> nat list"
  s_sem :: "nat \<Rightarrow> int \<times> nat list"

definition advance :: "nat \<Rightarrow> phi_state \<Rightarrow> phi_state" where
  "advance i s = s\<lparr>pc := (pc s)(i := nxt (pc s i))\<rparr>"

text \<open>A philosopher that \<open>up\<close> wakes returns from its \<open>down\<close>.\<close>

definition wake_head :: "nat list \<Rightarrow> phi_state \<Rightarrow> phi_state" where
  "wake_head ws s = (case ws of [] \<Rightarrow> s | j # _ \<Rightarrow> advance j s)"

definition up_mutex :: "phi_state \<Rightarrow> phi_state" where
  "up_mutex s = wake_head (snd (mutex s)) (s\<lparr>mutex := a_up (mutex s)\<rparr>)"

definition up_s :: "nat \<Rightarrow> phi_state \<Rightarrow> phi_state" where
  "up_s i s = wake_head (snd (s_sem s i)) (s\<lparr>s_sem := (s_sem s)(i := a_up (s_sem s i))\<rparr>)"

definition down_mutex :: "nat \<Rightarrow> phi_state \<Rightarrow> phi_state" where
  "down_mutex i s =
     (let (ok, a) = a_down i (mutex s); s = s\<lparr>mutex := a\<rparr> in if ok then advance i s else s)"

definition down_s :: "nat \<Rightarrow> phi_state \<Rightarrow> phi_state" where
  "down_s i s =
     (let (ok, a) = a_down i (s_sem s i); s = s\<lparr>s_sem := (s_sem s)(i := a)\<rparr> in if ok then advance i s else s)"

definition set_phase :: "nat \<Rightarrow> phase \<Rightarrow> phi_state \<Rightarrow> phi_state" where
  "set_phase i p s = s\<lparr>state_sema := (state_sema s)(i := p)\<rparr>"

definition phi_test_sema :: "nat \<Rightarrow> phi_state \<Rightarrow> phi_state" where
  "phi_test_sema i s =
     (if state_sema s i = HUNGRY \<and> state_sema s (LEFT i) \<noteq> EATING \<and> state_sema s (RIGHT i) \<noteq> EATING
      then up_s i (set_phase i EATING s) else s)"

fun phi_take_forks_sema :: "place \<Rightarrow> nat \<Rightarrow> phi_state \<Rightarrow> phi_state" where
  "phi_take_forks_sema TakeDown i s = down_mutex i s"
| "phi_take_forks_sema TakeHungry i s = advance i (set_phase i HUNGRY s)"
| "phi_take_forks_sema TakeTest i s = advance i (phi_test_sema i s)"
| "phi_take_forks_sema TakeUp i s = advance i (up_mutex s)"
| "phi_take_forks_sema TakeWait i s = down_s i s"
| "phi_take_forks_sema _ i s = s"

fun phi_put_forks_sema :: "place \<Rightarrow> nat \<Rightarrow> phi_state \<Rightarrow> phi_state" where
  "phi_put_forks_sema PutDown i s = down_mutex i s"
| "phi_put_forks_sema PutThink i s = advance i (set_phase i THINKING s)"
| "phi_put_forks_sema PutLeft i s = advance i (phi_test_sema (LEFT i) s)"
| "phi_put_forks_sema PutRight i s = advance i (phi_test_sema (RIGHT i) s)"
| "phi_put_forks_sema PutUp i s = advance i (up_mutex s)"
| "phi_put_forks_sema _ i s = s"

text \<open>A philosopher in the queue of a semaphore is asleep; the two calls of \<open>do_sleep\<close> are one step each.\<close>

definition blocked :: "nat \<Rightarrow> phi_state \<Rightarrow> bool" where
  "blocked i s \<longleftrightarrow> i \<in> set (snd (mutex s)) \<or> i \<in> set (snd (s_sem s i))"

definition philosopher_using_semaphore :: "nat \<Rightarrow> phi_state \<Rightarrow> phi_state option" where
  "philosopher_using_semaphore i s =
     (if blocked i s then None
      else case pc s i of
        Quit \<Rightarrow> None
      | Loop \<Rightarrow> Some (let s' = s\<lparr>iter := (iter s)(i := iter s i + 1)\<rparr>
                     in if iter s i < TIMES then advance i s' else s'\<lparr>pc := (pc s')(i := Quit)\<rparr>)
      | Think \<Rightarrow> Some (advance i s)
      | Eat \<Rightarrow> Some (advance i s)
      | c \<Rightarrow> Some (if c \<in> {TakeDown, TakeHungry, TakeTest, TakeUp, TakeWait} then phi_take_forks_sema c i s
                  else phi_put_forks_sema c i s))"

definition phi_init :: phi_state where
  "phi_init = \<lparr>pc = (\<lambda>i. Loop), iter = (\<lambda>i. 0), state_sema = (\<lambda>i. THINKING), mutex = (1, []), s_sem = (\<lambda>i. (0, []))\<rparr>"

inductive phi_step :: "phi_state \<Rightarrow> phi_state \<Rightarrow> bool" where
  "i < N \<Longrightarrow> philosopher_using_semaphore i s = Some s' \<Longrightarrow> phi_step s s'"

inductive phi_reach :: "phi_state \<Rightarrow> bool" where
  start: "phi_reach phi_init"
| step: "phi_reach s \<Longrightarrow> phi_step s s' \<Longrightarrow> phi_reach s'"

inductive_cases phi_stepE: "phi_step s s'"

section \<open>The invariant\<close>

definition crit :: "place \<Rightarrow> bool" where
  "crit c \<longleftrightarrow> c \<in> {TakeHungry, TakeTest, TakeUp, PutThink, PutLeft, PutRight, PutUp}"

text \<open>The phase of a philosopher and its semaphore, by where it is.\<close>

definition own_ok :: "place \<Rightarrow> phase \<Rightarrow> int \<times> nat list \<Rightarrow> nat \<Rightarrow> bool" where
  "own_ok c p a i \<longleftrightarrow>
     (if c \<in> {TakeUp, TakeWait} then
        (p = EATING \<and> a = (1, [])) \<or> (p = HUNGRY \<and> (a = (0, []) \<or> (a = (0, [i]) \<and> c = TakeWait)))
      else a = (0, []) \<and>
        p = (if c \<in> {Eat, PutDown, PutThink} then EATING else if c = TakeTest then HUNGRY else THINKING))"

definition mutex_ok :: "phi_state \<Rightarrow> bool" where
  "mutex_ok s \<longleftrightarrow> distinct (snd (mutex s)) \<and> (\<forall>j \<in> set (snd (mutex s)). j < N \<and> pc s j \<in> {TakeDown, PutDown}) \<and>
     (mutex s = (1, []) \<and> (\<forall>i < N. \<not> crit (pc s i)) \<or>
      fst (mutex s) = 0 \<and> (\<exists>h < N. \<forall>i < N. crit (pc s i) \<longleftrightarrow> i = h))"

text \<open>A hungry philosopher has a neighbour that eats or is about to look at it.\<close>

definition hungry_ok :: "phi_state \<Rightarrow> nat \<Rightarrow> bool" where
  "hungry_ok s i \<longleftrightarrow> (state_sema s i = HUNGRY \<and> pc s i \<in> {TakeUp, TakeWait} \<longrightarrow>
     state_sema s (LEFT i) = EATING \<or> state_sema s (RIGHT i) = EATING \<or>
     pc s (RIGHT i) = PutLeft \<or> pc s (LEFT i) \<in> {PutLeft, PutRight})"

definition safe :: "phi_state \<Rightarrow> nat \<Rightarrow> bool" where
  "safe s i \<longleftrightarrow> \<not> (state_sema s i = EATING \<and> state_sema s (RIGHT i) = EATING)"

definition phi_inv :: "phi_state \<Rightarrow> bool" where
  "phi_inv s \<longleftrightarrow> mutex_ok s \<and> (\<forall>i < N. own_ok (pc s i) (state_sema s i) (s_sem s i) i \<and> hungry_ok s i \<and> safe s i \<and>
     (pc s i = Quit \<longrightarrow> iter s i = Suc TIMES) \<and> (pc s i \<noteq> Quit \<longrightarrow> iter s i \<le> TIMES))"

lemma neighbours:
  assumes "i < N"
  shows "LEFT i < N" "RIGHT i < N" "LEFT (RIGHT i) = i" "RIGHT (LEFT i) = i" "LEFT i \<noteq> i" "RIGHT i \<noteq> i" "LEFT i \<noteq> RIGHT i"
proof -
  have "i \<in> {0, 1, 2, 3, 4}" using assms by (auto simp: N_def)
  then show "LEFT i < N" "RIGHT i < N" "LEFT (RIGHT i) = i" "RIGHT (LEFT i) = i" "LEFT i \<noteq> i" "RIGHT i \<noteq> i" "LEFT i \<noteq> RIGHT i"
    by (auto simp: LEFT_def RIGHT_def N_def)
qed

lemma phi_inv_init: "phi_inv phi_init"
  by (simp add: phi_inv_def mutex_ok_def own_ok_def hungry_ok_def safe_def phi_init_def crit_def)

lemma left_right_iff: "i < N \<Longrightarrow> k < N \<Longrightarrow> LEFT k = i \<longleftrightarrow> k = RIGHT i" "i < N \<Longrightarrow> k < N \<Longrightarrow> RIGHT k = i \<longleftrightarrow> k = LEFT i"
  using neighbours by metis+

text \<open>What the invariant says of one philosopher; the conditions on another place \<open>k\<close> after a step.\<close>

definition one_ok :: "phi_state \<Rightarrow> nat \<Rightarrow> bool" where
  "one_ok s i \<longleftrightarrow> own_ok (pc s i) (state_sema s i) (s_sem s i) i \<and> hungry_ok s i \<and> safe s i \<and>
     (pc s i = Quit \<longrightarrow> iter s i = Suc TIMES) \<and> (pc s i \<noteq> Quit \<longrightarrow> iter s i \<le> TIMES)"

lemma phi_inv_eq: "phi_inv s \<longleftrightarrow> mutex_ok s \<and> (\<forall>i < N. one_ok s i)"
  by (simp add: phi_inv_def one_ok_def)

lemma advance_sel [simp]:
  "pc (advance i s) = (pc s)(i := nxt (pc s i))" "iter (advance i s) = iter s" "state_sema (advance i s) = state_sema s"
  "mutex (advance i s) = mutex s" "s_sem (advance i s) = s_sem s"
  by (simp_all add: advance_def)

lemma set_phase_sel [simp]:
  "pc (set_phase i p s) = pc s" "iter (set_phase i p s) = iter s" "state_sema (set_phase i p s) = (state_sema s)(i := p)"
  "mutex (set_phase i p s) = mutex s" "s_sem (set_phase i p s) = s_sem s"
  by (simp_all add: set_phase_def)

lemma upd_mutex_sel [simp]: "wake_head [] s = s" "wake_head (j # js) s = advance j s"
  by (simp_all add: wake_head_def)

lemma in_mutex_queue: "mutex_ok s \<Longrightarrow> j \<in> set (snd (mutex s)) \<Longrightarrow> j < N \<and> pc s j \<in> {TakeDown, PutDown}"
  by (simp add: mutex_ok_def)

text \<open>Steps that leave the mutex alone keep \<open>mutex_ok\<close> if they neither enter nor leave the critical section.\<close>

lemma mutex_ok_move:
  assumes m: "mutex_ok s" "mutex s' = mutex s" and c: "\<And>j. j < N \<Longrightarrow> crit (pc s' j) = crit (pc s j)"
    and q: "\<And>j. j \<in> set (snd (mutex s)) \<Longrightarrow> pc s' j = pc s j"
  shows "mutex_ok s'"
proof -
  have "(\<forall>i < N. \<not> crit (pc s' i)) = (\<forall>i < N. \<not> crit (pc s i))" using c by blast
  moreover have "(\<exists>h < N. \<forall>i < N. crit (pc s' i) \<longleftrightarrow> i = h) = (\<exists>h < N. \<forall>i < N. crit (pc s i) \<longleftrightarrow> i = h)" using c by simp
  moreover have "(\<forall>j \<in> set (snd (mutex s)). j < N \<and> pc s' j \<in> {TakeDown, PutDown}) =
      (\<forall>j \<in> set (snd (mutex s)). j < N \<and> pc s j \<in> {TakeDown, PutDown})" using q by simp
  ultimately show ?thesis using m unfolding mutex_ok_def by simp
qed

text \<open>\<open>attends s i k\<close>: the neighbour \<open>i\<close> of \<open>k\<close> eats, or is about to let \<open>k\<close> eat.\<close>

definition attends :: "phi_state \<Rightarrow> nat \<Rightarrow> nat \<Rightarrow> bool" where
  "attends s i k \<longleftrightarrow> state_sema s i = EATING \<or> (k = LEFT i \<and> pc s i = PutLeft) \<or> (k = RIGHT i \<and> pc s i \<in> {PutLeft, PutRight})"

lemma hungry_attends:
  "k < N \<Longrightarrow> hungry_ok s k \<longleftrightarrow> (state_sema s k = HUNGRY \<and> pc s k \<in> {TakeUp, TakeWait} \<longrightarrow> attends s (LEFT k) k \<or> attends s (RIGHT k) k)"
  using neighbours [of k] neighbours [of "LEFT k"] neighbours [of "RIGHT k"] unfolding hungry_ok_def attends_def by metis

text \<open>A philosopher that a step leaves where it is, and whose neighbours lose nothing.\<close>

lemma one_ok_other:
  assumes ok: "one_ok s k" and k: "k < N"
    and same: "pc s' k = pc s k" "state_sema s' k = state_sema s k" "s_sem s' k = s_sem s k" "iter s' k = iter s k"
    and at: "\<And>n. n \<in> {LEFT k, RIGHT k} \<Longrightarrow> attends s n k \<Longrightarrow> attends s' n k"
    and eat: "state_sema s k = EATING \<Longrightarrow> state_sema s' (RIGHT k) = EATING \<Longrightarrow> state_sema s (RIGHT k) = EATING"
  shows "one_ok s' k"
proof -
  have "hungry_ok s' k" using ok at unfolding one_ok_def hungry_attends [OF k] same by blast
  moreover have "safe s' k" using ok eat unfolding one_ok_def safe_def same by blast
  ultimately show ?thesis using ok unfolding one_ok_def same by simp
qed

definition iter_ok :: "phi_state \<Rightarrow> nat \<Rightarrow> bool" where
  "iter_ok s i \<longleftrightarrow> (pc s i = Quit \<longrightarrow> iter s i = Suc TIMES) \<and> (pc s i \<noteq> Quit \<longrightarrow> iter s i \<le> TIMES)"

lemma phi_invD:
  assumes "phi_inv s"
  shows "mutex_ok s" "i < N \<Longrightarrow> own_ok (pc s i) (state_sema s i) (s_sem s i) i" "i < N \<Longrightarrow> hungry_ok s i" "i < N \<Longrightarrow> safe s i"
    "i < N \<Longrightarrow> iter_ok s i"
  using assms by (simp_all add: phi_inv_def iter_ok_def)

lemma phi_invI:
  assumes "mutex_ok s" "\<And>i. i < N \<Longrightarrow> own_ok (pc s i) (state_sema s i) (s_sem s i) i" "\<And>i. i < N \<Longrightarrow> hungry_ok s i"
    "\<And>i. i < N \<Longrightarrow> safe s i" "\<And>i. i < N \<Longrightarrow> iter_ok s i"
  shows "phi_inv s"
  using assms by (simp add: phi_inv_def iter_ok_def)

text \<open>Steps in which nobody starts or stops eating and nobody leaves \<open>PutLeft\<close> or \<open>PutRight\<close>.\<close>

lemma inv_quiet:
  assumes inv: "phi_inv s" and m: "mutex_ok s'"
    and eat: "\<And>k. k < N \<Longrightarrow> (state_sema s' k = EATING) = (state_sema s k = EATING)"
    and put: "\<And>k. k < N \<Longrightarrow> pc s k \<in> {PutLeft, PutRight} \<Longrightarrow> pc s' k = pc s k"
    and own: "\<And>k. k < N \<Longrightarrow> own_ok (pc s' k) (state_sema s' k) (s_sem s' k) k"
    and hun: "\<And>k. k < N \<Longrightarrow> state_sema s' k = HUNGRY \<Longrightarrow> pc s' k \<in> {TakeUp, TakeWait} \<Longrightarrow>
      state_sema s k = HUNGRY \<and> pc s k \<in> {TakeUp, TakeWait}"
    and it: "\<And>k. k < N \<Longrightarrow> iter_ok s' k"
  shows "phi_inv s'"
proof (rule phi_invI [OF m own _ _ it])
  fix k assume k: "k < N"
  have at: "attends s' n k" if "attends s n k" "n < N" for n
    using that eat [of n] put [of n] by (auto simp: attends_def)
  show "hungry_ok s' k"
    using phi_invD(3) [OF inv k] hun [OF k] at neighbours(1,2) [OF k] unfolding hungry_attends [OF k] by blast
  show "safe s' k" using phi_invD(4) [OF inv k] eat [OF k] eat [OF neighbours(2) [OF k]] by (simp add: safe_def)
qed auto

lemma own_of: "phi_inv s \<Longrightarrow> i < N \<Longrightarrow> own_ok (pc s i) (state_sema s i) (s_sem s i) i"
  by (rule phi_invD(2))

lemma own_nxt: "own_ok c p a i \<Longrightarrow> c \<in> {TakeDown, PutDown, TakeUp, PutUp} \<Longrightarrow> own_ok (nxt c) p a i"
  by (auto simp: own_ok_def split: if_splits)

lemma move_mutex_ok:
  assumes "phi_inv s" "crit c = crit (pc s i)" "pc s i \<notin> {TakeDown, PutDown}" "pc s' = (pc s)(i := c)" "mutex s' = mutex s"
  shows "mutex_ok s'"
  by (rule mutex_ok_move [OF phi_invD(1) [OF assms(1)] assms(5)])
    (use assms in_mutex_queue [OF phi_invD(1) [OF assms(1)]] in auto)

lemma step_loop:
  assumes inv: "phi_inv s" and i: "i < N" "pc s i = Loop"
  shows "phi_inv (let s' = s\<lparr>iter := (iter s)(i := iter s i + 1)\<rparr>
    in if iter s i < TIMES then advance i s' else s'\<lparr>pc := (pc s')(i := Quit)\<rparr>)" (is "phi_inv ?s")
proof -
  let ?c = "if iter s i < TIMES then Think else Quit"
  have f: "pc ?s = (pc s)(i := ?c)" "mutex ?s = mutex s" "state_sema ?s = state_sema s" "s_sem ?s = s_sem s"
    "iter ?s = (iter s)(i := iter s i + 1)" using i by (simp_all add: Let_def)
  have o: "own_ok Loop (state_sema s i) (s_sem s i) i" using own_of [OF inv i(1)] i(2) by simp
  show ?thesis
  proof (rule inv_quiet [OF inv])
    show "mutex_ok ?s" by (rule move_mutex_ok [OF inv _ _ f(1,2)]) (use i in \<open>auto simp: crit_def\<close>)
    show "own_ok (pc ?s k) (state_sema ?s k) (s_sem ?s k) k" if "k < N" for k
      using own_of [OF inv that] o unfolding f by (auto simp: own_ok_def)
    show "iter_ok ?s k" if "k < N" for k
      using phi_invD(5) [OF inv that] i unfolding iter_ok_def f by auto
  qed (use i f in \<open>auto split: if_splits\<close>)
qed

lemma step_plain:
  assumes inv: "phi_inv s" and i: "i < N" "pc s i \<in> {Think, Eat}"
  shows "phi_inv (advance i s)"
proof (rule inv_quiet [OF inv])
  show "mutex_ok (advance i s)" by (rule move_mutex_ok [OF inv, where c = "nxt (pc s i)"]) (use i in \<open>auto simp: crit_def\<close>)
  show "own_ok (pc (advance i s) k) (state_sema (advance i s) k) (s_sem (advance i s) k) k" if "k < N" for k
    using own_of [OF inv that] i by (auto simp: own_ok_def)
  show "iter_ok (advance i s) k" if "k < N" for k using phi_invD(5) [OF inv that] i by (auto simp: iter_ok_def)
qed (use i in \<open>auto split: if_splits\<close>)

lemma step_hungry:
  assumes inv: "phi_inv s" and i: "i < N" "pc s i = TakeHungry"
  shows "phi_inv (advance i (set_phase i HUNGRY s))" (is "phi_inv ?s")
proof (rule inv_quiet [OF inv])
  have o: "state_sema s i = THINKING" using own_of [OF inv i(1)] i(2) by (simp add: own_ok_def)
  show "mutex_ok ?s" by (rule move_mutex_ok [OF inv, where c = TakeTest]) (use i in \<open>auto simp: crit_def\<close>)
  show "own_ok (pc ?s k) (state_sema ?s k) (s_sem ?s k) k" if "k < N" for k
    using own_of [OF inv that] i by (auto simp: own_ok_def)
  show "iter_ok ?s k" if "k < N" for k using phi_invD(5) [OF inv that] i by (auto simp: iter_ok_def)
  show "(state_sema ?s k = EATING) = (state_sema s k = EATING)" for k using o by auto
qed (use i in \<open>auto split: if_splits\<close>)

lemma step_wait:
  assumes inv: "phi_inv s" and i: "i < N" "pc s i = TakeWait" "\<not> blocked i s"
  shows "phi_inv (down_s i s)"
proof -
  consider (go) "state_sema s i = EATING" "s_sem s i = (1, [])" | (sleep) "state_sema s i = HUNGRY" "s_sem s i = (0, [])"
    using own_of [OF inv i(1)] i(2,3) by (auto simp: own_ok_def blocked_def)
  then show ?thesis
  proof cases
    case go
    let ?s = "advance i (s\<lparr>s_sem := (s_sem s)(i := (0, []))\<rparr>)"
    have "phi_inv ?s"
    proof (rule inv_quiet [OF inv])
      show "mutex_ok ?s" by (rule move_mutex_ok [OF inv, where c = Eat]) (use i in \<open>auto simp: crit_def\<close>)
      show "own_ok (pc ?s k) (state_sema ?s k) (s_sem ?s k) k" if "k < N" for k
        using own_of [OF inv that] i go by (auto simp: own_ok_def)
      show "iter_ok ?s k" if "k < N" for k using phi_invD(5) [OF inv that] i by (auto simp: iter_ok_def)
    qed (use i go in \<open>auto split: if_splits\<close>)
    then show ?thesis using go by (simp add: down_s_def a_down_def)
  next
    case sleep
    let ?s = "s\<lparr>s_sem := (s_sem s)(i := (0, [i]))\<rparr>"
    have "phi_inv ?s"
    proof (rule inv_quiet [OF inv])
      show "mutex_ok ?s" using phi_invD(1) [OF inv] by (simp add: mutex_ok_def)
      show "own_ok (pc ?s k) (state_sema ?s k) (s_sem ?s k) k" if "k < N" for k
        using own_of [OF inv that] i sleep by (auto simp: own_ok_def)
      show "iter_ok ?s k" if "k < N" for k using phi_invD(5) [OF inv that] by (simp add: iter_ok_def)
    qed auto
    then show ?thesis using sleep by (simp add: down_s_def a_down_def)
  qed
qed

lemma mutex_cases:
  assumes "mutex_ok s"
  obtains (free) "mutex s = (1, [])" "\<And>k. k < N \<Longrightarrow> \<not> crit (pc s k)"
    | (held) h ws where "mutex s = (0, ws)" "h < N" "\<And>k. k < N \<Longrightarrow> crit (pc s k) \<longleftrightarrow> k = h"
  using assms unfolding mutex_ok_def by (metis prod.collapse)

lemma step_down:
  assumes inv: "phi_inv s" and i: "i < N" "pc s i \<in> {TakeDown, PutDown}" "\<not> blocked i s"
  shows "phi_inv (down_mutex i s)"
  using phi_invD(1) [OF inv]
proof (cases rule: mutex_cases)
  case free
  let ?s = "advance i (s\<lparr>mutex := (0, [])\<rparr>)"
  have "phi_inv ?s"
  proof (rule inv_quiet [OF inv])
    have "crit (pc ?s k) \<longleftrightarrow> k = i" if "k < N" for k using free(2) [OF that] i by (auto simp: crit_def)
    then show "mutex_ok ?s" using i(1) by (auto simp: mutex_ok_def)
    show "own_ok (pc ?s k) (state_sema ?s k) (s_sem ?s k) k" if "k < N" for k
      using own_of [OF inv that] i by (auto simp: own_ok_def)
    show "iter_ok ?s k" if "k < N" for k using phi_invD(5) [OF inv that] i by (auto simp: iter_ok_def)
  qed (use i in \<open>auto split: if_splits\<close>)
  then show ?thesis using free by (simp add: down_mutex_def a_down_def)
next
  case (held h ws)
  let ?s = "s\<lparr>mutex := (0, ws @ [i])\<rparr>"
  have "phi_inv ?s"
  proof (rule inv_quiet [OF inv])
    have "i \<notin> set ws" using i(3) held(1) by (simp add: blocked_def)
    then show "mutex_ok ?s" using phi_invD(1) [OF inv] held i by (auto simp: mutex_ok_def)
    show "own_ok (pc ?s k) (state_sema ?s k) (s_sem ?s k) k" if "k < N" for k using own_of [OF inv that] by simp
    show "iter_ok ?s k" if "k < N" for k using phi_invD(5) [OF inv that] by (simp add: iter_ok_def)
  qed auto
  then show ?thesis using held by (simp add: down_mutex_def a_down_def)
qed

lemma step_up:
  assumes inv: "phi_inv s" and i: "i < N" "pc s i \<in> {TakeUp, PutUp}"
  shows "phi_inv (advance i (up_mutex s))"
  using phi_invD(1) [OF inv]
proof (cases rule: mutex_cases)
  case free
  then show ?thesis using i by (auto simp: crit_def)
next
  case (held h ws)
  have h: "h = i" using held(3) [OF i(1)] i by (auto simp: crit_def)
  have nc: "\<not> crit (nxt (pc s i))" using i by (auto simp: crit_def)
  show ?thesis
  proof (cases ws)
    case Nil
    let ?s = "advance i (s\<lparr>mutex := (1, [])\<rparr>)"
    have "phi_inv ?s"
    proof (rule inv_quiet [OF inv])
      show "mutex_ok ?s" using held(3) h nc by (auto simp: mutex_ok_def)
      show "own_ok (pc ?s k) (state_sema ?s k) (s_sem ?s k) k" if "k < N" for k
        using own_of [OF inv that] i by (auto simp: own_ok_def)
      show "iter_ok ?s k" if "k < N" for k using phi_invD(5) [OF inv that] i by (auto simp: iter_ok_def)
    qed (use i in \<open>auto split: if_splits\<close>)
    then show ?thesis using held Nil by (simp add: up_mutex_def)
  next
    case (Cons j js)
    note q = phi_invD(1) [OF inv, unfolded mutex_ok_def]
    have j: "j < N" "pc s j \<in> {TakeDown, PutDown}" "j \<noteq> i" "j \<notin> set js" "distinct js" "\<And>k. k \<in> set js \<Longrightarrow> k < N \<and> k \<noteq> i \<and> pc s k \<in> {TakeDown, PutDown}"
      using q held(1) Cons i(2) by auto
    let ?s = "advance i (advance j (s\<lparr>mutex := (0, js)\<rparr>))"
    have "phi_inv ?s"
    proof (rule inv_quiet [OF inv])
      have "crit (pc ?s k) \<longleftrightarrow> k = j" if "k < N" for k using held(3) [OF that] h nc j by (auto simp: crit_def)
      then show "mutex_ok ?s" using j by (auto simp: mutex_ok_def)
      show "own_ok (pc ?s k) (state_sema ?s k) (s_sem ?s k) k" if "k < N" for k
        using own_of [OF inv that] own_nxt [OF own_of [OF inv that]] i(2) j(2,3) by (cases "k = i"; cases "k = j") auto
      show "iter_ok ?s k" if "k < N" for k using phi_invD(5) [OF inv that] i j by (auto simp: iter_ok_def)
    qed (use i j in \<open>auto split: if_splits\<close>)
    then show ?thesis using held(1) Cons by (simp add: up_mutex_def)
  qed
qed

section \<open>Testing and putting down\<close>

lemma holder:
  assumes inv: "phi_inv s" and i: "i < N" "crit (pc s i)" and k: "k < N" "k \<noteq> i"
  shows "\<not> crit (pc s k)"
  using phi_invD(1) [OF inv] by (cases rule: mutex_cases) (use i k in auto)

text \<open>A successful test, by the holder \<open>i\<close> of the mutex.\<close>

lemma test_fields:
  assumes inv: "phi_inv s" and t: "t < N" "state_sema s t = HUNGRY" "pc s t \<in> {TakeTest, TakeWait}"
  shows "pc (up_s t (set_phase t EATING s)) = (pc s)(t := if snd (s_sem s t) = [] then pc s t else Eat)"
    "s_sem (up_s t (set_phase t EATING s)) = (s_sem s)(t := if snd (s_sem s t) = [] then (1, []) else (0, []))"
    "state_sema (up_s t (set_phase t EATING s)) = (state_sema s)(t := EATING)"
    "mutex (up_s t (set_phase t EATING s)) = mutex s" "iter (up_s t (set_phase t EATING s)) = iter s"
    "snd (s_sem s t) \<noteq> [] \<Longrightarrow> pc s t = TakeWait"
proof -
  have o: "s_sem s t = (0, []) \<or> (s_sem s t = (0, [t]) \<and> pc s t = TakeWait)"
    using own_of [OF inv t(1)] t(2,3) by (auto simp: own_ok_def split: if_splits)
  then show "pc (up_s t (set_phase t EATING s)) = (pc s)(t := if snd (s_sem s t) = [] then pc s t else Eat)"
    "s_sem (up_s t (set_phase t EATING s)) = (s_sem s)(t := if snd (s_sem s t) = [] then (1, []) else (0, []))"
    "state_sema (up_s t (set_phase t EATING s)) = (state_sema s)(t := EATING)"
    "mutex (up_s t (set_phase t EATING s)) = mutex s" "iter (up_s t (set_phase t EATING s)) = iter s"
    "snd (s_sem s t) \<noteq> [] \<Longrightarrow> pc s t = TakeWait"
    by (auto simp: up_s_def)
qed

lemma safe_upd:
  assumes sf: "safe s k" and t: "t < N" and k: "k < N" and n: "state_sema s (LEFT t) \<noteq> EATING" "state_sema s (RIGHT t) \<noteq> EATING"
    and s': "state_sema s' = (state_sema s)(t := EATING)"
  shows "safe s' k"
proof (cases "k = t")
  case True
  then show ?thesis using neighbours(6) [OF t] n(2) by (simp add: safe_def s')
next
  case False
  show ?thesis
  proof (cases "RIGHT k = t")
    case True
    then have "k = LEFT t" using left_right_iff(2) [OF t k] by simp
    then show ?thesis using n(1) False by (simp add: safe_def s')
  next
    case right: False
    then show ?thesis using sf False by (simp add: safe_def s')
  qed
qed

lemma step_test:
  assumes inv: "phi_inv s" and i: "i < N" "pc s i = TakeTest"
  shows "phi_inv (advance i (phi_test_sema i s))"
proof -
  have o: "state_sema s i = HUNGRY" "s_sem s i = (0, [])" using own_of [OF inv i(1)] i(2) by (auto simp: own_ok_def)
  note nb = neighbours [OF i(1)]
  show ?thesis
  proof (cases "state_sema s (LEFT i) \<noteq> EATING \<and> state_sema s (RIGHT i) \<noteq> EATING")
    case True
    let ?s = "advance i (up_s i (set_phase i EATING s))"
    note f = test_fields [OF inv i(1) o(1)]
    have F: "pc ?s = (pc s)(i := TakeUp)" "s_sem ?s = (s_sem s)(i := (1, []))" "state_sema ?s = (state_sema s)(i := EATING)"
      "mutex ?s = mutex s" "iter ?s = iter s" using f o(2) i(2) by (simp_all add: fun_eq_iff)
    have "phi_inv ?s"
    proof (rule phi_invI)
      show "mutex_ok ?s" by (rule move_mutex_ok [OF inv _ _ F(1,4)]) (use i in \<open>auto simp: crit_def\<close>)
      fix k assume k: "k < N"
      show "own_ok (pc ?s k) (state_sema ?s k) (s_sem ?s k) k" using own_of [OF inv k] unfolding F by (cases "k = i") (simp add: own_ok_def, simp)
      show "iter_ok ?s k" using phi_invD(5) [OF inv k] i unfolding iter_ok_def F by auto
      have at: "attends ?s n k" if "attends s n k" for n using that i unfolding attends_def F by auto
      show "hungry_ok ?s k"
        using phi_invD(3) [OF inv k] at unfolding hungry_attends [OF k] F by (cases "k = i") auto
      show "safe ?s k"
        by (rule safe_upd [OF phi_invD(4) [OF inv k] i(1) k _ _ F(3)]) (use True in auto)
    qed
    then show ?thesis using True o by (simp add: phi_test_sema_def)
  next
    case False
    let ?s = "advance i s"
    have "phi_inv ?s"
    proof (rule phi_invI)
      show "mutex_ok ?s" by (rule move_mutex_ok [OF inv, where c = TakeUp]) (use i in \<open>auto simp: crit_def\<close>)
      fix k assume k: "k < N"
      show "own_ok (pc ?s k) (state_sema ?s k) (s_sem ?s k) k" using own_of [OF inv k] i o by (auto simp: own_ok_def)
      show "iter_ok ?s k" using phi_invD(5) [OF inv k] i by (auto simp: iter_ok_def)
      have at: "attends ?s n k" if "attends s n k" for n using that i by (auto simp: attends_def)
      show "hungry_ok ?s k"
      proof (cases "k = i")
        case True
        then show ?thesis using False by (auto simp: hungry_ok_def)
      next
        case False
        then show ?thesis using phi_invD(3) [OF inv k] at unfolding hungry_attends [OF k] by auto
      qed
      show "safe ?s k" using phi_invD(4) [OF inv k] by (simp add: safe_def)
    qed
    then show ?thesis using False by (auto simp: phi_test_sema_def)
  qed
qed

lemma step_think:
  assumes inv: "phi_inv s" and i: "i < N" "pc s i = PutThink"
  shows "phi_inv (advance i (set_phase i THINKING s))" (is "phi_inv ?s")
proof (rule phi_invI)
  show "mutex_ok ?s" by (rule move_mutex_ok [OF inv, where c = PutLeft]) (use i in \<open>auto simp: crit_def\<close>)
  fix k assume k: "k < N"
  show "own_ok (pc ?s k) (state_sema ?s k) (s_sem ?s k) k" using own_of [OF inv k] i by (auto simp: own_ok_def)
  show "iter_ok ?s k" using phi_invD(5) [OF inv k] i by (auto simp: iter_ok_def)
  have at: "attends ?s n k" if "attends s n k" "n \<in> {LEFT k, RIGHT k}" for n
    using that i left_right_iff [OF i(1) k] neighbours [OF k] by (cases "n = i") (auto simp: attends_def)
  show "hungry_ok ?s k" using phi_invD(3) [OF inv k] at unfolding hungry_attends [OF k] by (cases "k = i") auto
  show "safe ?s k" using phi_invD(4) [OF inv k] by (auto simp: safe_def)
qed

lemma step_look:
  assumes inv: "phi_inv s" and i: "i < N" and t: "(pc s i = PutLeft \<and> t = LEFT i) \<or> (pc s i = PutRight \<and> t = RIGHT i)"
  shows "phi_inv (advance i (phi_test_sema t s))"
proof -
  note nb = neighbours [OF i]
  have tN: "t < N" "t \<noteq> i" using t nb by auto
  have ci: "crit (pc s i)" "crit (nxt (pc s i))" "pc s i \<notin> {TakeDown, PutDown}" using t by (auto simp: crit_def)
  have oi: "state_sema s i = THINKING" "own_ok (nxt (pc s i)) (state_sema s i) (s_sem s i) i"
    using own_of [OF inv i] t by (auto simp: own_ok_def)
  have tc: "\<not> crit (pc s t)" by (rule holder [OF inv i ci(1) tN])
  have lose: "k = t \<or> attends s' i k" if "attends s i k" "pc s' i = nxt (pc s i)" for s' k
    using that oi(1) t by (auto simp: attends_def)
  show ?thesis
  proof (cases "state_sema s t = HUNGRY \<and> state_sema s (LEFT t) \<noteq> EATING \<and> state_sema s (RIGHT t) \<noteq> EATING")
    case True
    have pt: "pc s t = TakeWait" using own_of [OF inv tN(1)] True tc by (auto simp: own_ok_def crit_def split: if_splits)
    let ?s = "advance i (up_s t (set_phase t EATING s))"
    let ?c = "if snd (s_sem s t) = [] then TakeWait else Eat"
    note f = test_fields [OF inv tN(1)]
    have F: "pc ?s = (pc s)(t := ?c, i := nxt (pc s i))" "s_sem ?s = (s_sem s)(t := if snd (s_sem s t) = [] then (1, []) else (0, []))"
      "state_sema ?s = (state_sema s)(t := EATING)" "mutex ?s = mutex s" "iter ?s = iter s"
      using f True pt tN(2) by (simp_all add: fun_eq_iff)
    have "phi_inv ?s"
    proof (rule phi_invI)
      show "mutex_ok ?s"
      proof (rule mutex_ok_move [OF phi_invD(1) [OF inv] F(4)])
        show "crit (pc ?s j) = crit (pc s j)" for j unfolding F(1) using ci(1,2) pt by (auto simp: crit_def)
        show "pc ?s j = pc s j" if "j \<in> set (snd (mutex s))" for j
          using in_mutex_queue [OF phi_invD(1) [OF inv] that] ci(3) pt unfolding F(1) by auto
      qed
      fix k assume k: "k < N"
      show "own_ok (pc ?s k) (state_sema ?s k) (s_sem ?s k) k"
      proof (cases "k = t")
        case True
        then show ?thesis using tN(2) unfolding F by (simp add: own_ok_def)
      next
        case False
        then show ?thesis using own_of [OF inv k] oi(2) unfolding F by (cases "k = i") simp_all
      qed
      show "iter_ok ?s k" using phi_invD(5) [OF inv k] t pt unfolding iter_ok_def F by auto
      have "attends ?s n k" if "attends s n k" "k \<noteq> t" for n
      proof (cases "n = i")
        case True
        have "pc ?s i = nxt (pc s i)" unfolding F(1) by simp
        then show ?thesis using lose that True by blast
      next
        case False
        then show ?thesis using that pt True unfolding attends_def F by auto
      qed
      then show "hungry_ok ?s k"
        using phi_invD(3) [OF inv k] F(1) t unfolding hungry_attends [OF k] F(3) by (cases "k = t"; cases "k = i") auto
      show "safe ?s k"
        by (rule safe_upd [OF phi_invD(4) [OF inv k] tN(1) k _ _ F(3)]) (use True in auto)
    qed
    then show ?thesis using True by (simp add: phi_test_sema_def)
  next
    case False
    let ?s = "advance i s"
    have "phi_inv ?s"
    proof (rule phi_invI)
      show "mutex_ok ?s" by (rule move_mutex_ok [OF inv, where c = "nxt (pc s i)"]) (use ci in auto)
      fix k assume k: "k < N"
      show "own_ok (pc ?s k) (state_sema ?s k) (s_sem ?s k) k" using own_of [OF inv k] oi(2) by (cases "k = i") simp_all
      show "iter_ok ?s k" using phi_invD(5) [OF inv k] t by (auto simp: iter_ok_def)
      have at: "attends ?s n k" if "attends s n k" "k \<noteq> t" for n
      proof (cases "n = i")
        case True
        then show ?thesis using lose [of k ?s] that by auto
      next
        case False
        then show ?thesis using that(1) by (auto simp: attends_def)
      qed
      show "hungry_ok ?s k"
      proof (cases "k = t")
        case True
        then show ?thesis using False tN(2) by (auto simp: hungry_ok_def)
      next
        case False
        then show ?thesis using phi_invD(3) [OF inv k] at t unfolding hungry_attends [OF k] by (cases "k = i") auto
      qed
      show "safe ?s k" using phi_invD(4) [OF inv k] by (simp add: safe_def)
    qed
    then show ?thesis using False by (auto simp: phi_test_sema_def)
  qed
qed

lemma phi_inv_step:
  assumes inv: "phi_inv s" and st: "phi_step s s'"
  shows "phi_inv s'"
proof -
  obtain i where i: "i < N" "philosopher_using_semaphore i s = Some s'" using st by (rule phi_stepE)
  then have nb: "\<not> blocked i s" by (auto simp: philosopher_using_semaphore_def)
  note d = i(2) [unfolded philosopher_using_semaphore_def]
  show ?thesis
  proof (cases "pc s i")
    case Loop
    then show ?thesis using d nb step_loop [OF inv i(1)] by simp
  next
    case Think
    then show ?thesis using d nb step_plain [OF inv i(1)] by simp
  next
    case TakeDown
    then show ?thesis using d nb step_down [OF inv i(1)] by simp
  next
    case TakeHungry
    then show ?thesis using d nb step_hungry [OF inv i(1)] by simp
  next
    case TakeTest
    then show ?thesis using d nb step_test [OF inv i(1)] by simp
  next
    case TakeUp
    then show ?thesis using d nb step_up [OF inv i(1)] by simp
  next
    case TakeWait
    then show ?thesis using d nb step_wait [OF inv i(1)] by simp
  next
    case Eat
    then show ?thesis using d nb step_plain [OF inv i(1)] by simp
  next
    case PutDown
    then show ?thesis using d nb step_down [OF inv i(1)] by simp
  next
    case PutThink
    then show ?thesis using d nb step_think [OF inv i(1)] by simp
  next
    case PutLeft
    then show ?thesis using d nb step_look [OF inv i(1), of "LEFT i"] by simp
  next
    case PutRight
    then show ?thesis using d nb step_look [OF inv i(1), of "RIGHT i"] by simp
  next
    case PutUp
    then show ?thesis using d nb step_up [OF inv i(1)] by simp
  qed (use d in \<open>simp split: if_splits\<close>)
qed

lemma phi_inv_reach: "phi_reach s \<Longrightarrow> phi_inv s"
  by (induction rule: phi_reach.induct) (auto simp: phi_inv_init intro: phi_inv_step)

section \<open>Progress\<close>

lemma step_enabled:
  assumes "i < N" "\<not> blocked i s" "pc s i \<noteq> Quit"
  shows "\<exists>s'. phi_step s s'"
proof -
  have "philosopher_using_semaphore i s \<noteq> None" using assms(2,3) by (cases "pc s i") (simp_all add: philosopher_using_semaphore_def)
  then show ?thesis using assms(1) phi_step.intros by blast
qed

lemma own_blocked: "phi_inv s \<Longrightarrow> i < N \<Longrightarrow> i \<in> set (snd (s_sem s i)) \<Longrightarrow> pc s i = TakeWait \<and> state_sema s i = HUNGRY"
  using own_of [of s i] by (auto simp: own_ok_def split: if_splits)

lemma phi_progress:
  assumes inv: "phi_inv s" and i: "i < N" "pc s i \<noteq> Quit"
  shows "\<exists>s'. phi_step s s'"
  using phi_invD(1) [OF inv]
proof (cases rule: mutex_cases)
  case (held h ws)
  have c: "crit (pc s h)" using held by blast
  then have "h \<notin> set (snd (mutex s))" using in_mutex_queue [OF phi_invD(1) [OF inv], of h] by (auto simp: crit_def)
  moreover have "h \<notin> set (snd (s_sem s h))" using own_blocked [OF inv held(2)] c by (auto simp: crit_def)
  ultimately show ?thesis using step_enabled [OF held(2)] c by (auto simp: blocked_def crit_def)
next
  case free
  show ?thesis
  proof (cases "blocked i s")
    case False
    then show ?thesis using step_enabled i by blast
  next
    case True
    then have "i \<in> set (snd (s_sem s i))" using free(1) by (simp add: blocked_def)
    then have h: "state_sema s i = HUNGRY" "pc s i = TakeWait" using own_blocked [OF inv i(1)] by auto
    then obtain n where n: "n < N" "attends s n i"
      using phi_invD(3) [OF inv i(1)] neighbours(1,2) [OF i(1)] unfolding hungry_attends [OF i(1)] by blast
    then have e: "state_sema s n = EATING" using free(2) [OF n(1)] by (auto simp: attends_def crit_def)
    then have "n \<notin> set (snd (s_sem s n))" using own_blocked [OF inv n(1)] by auto
    then have "\<not> blocked n s" using free(1) by (simp add: blocked_def)
    moreover have "pc s n \<noteq> Quit" using own_of [OF inv n(1)] e by (auto simp: own_ok_def)
    ultimately show ?thesis using step_enabled n(1) by blast
  qed
qed

section \<open>Every run ends\<close>

fun rank :: "place \<Rightarrow> nat" where
  "rank Think = 12" | "rank TakeDown = 11" | "rank TakeHungry = 10" | "rank TakeTest = 9" | "rank TakeUp = 8"
| "rank TakeWait = 7" | "rank Eat = 6" | "rank PutDown = 5" | "rank PutThink = 4" | "rank PutLeft = 3" | "rank PutRight = 2"
| "rank PutUp = 1" | "rank Loop = 0" | "rank Quit = 0"

definition weight :: "phi_state \<Rightarrow> nat \<Rightarrow> nat" where
  "weight s i = 2 * (14 * (Suc TIMES - iter s i) + rank (pc s i)) + (if blocked i s then 0 else 1)"

definition total :: "phi_state \<Rightarrow> nat" where
  "total s = (\<Sum>i < N. weight s i)"

lemma total_less:
  assumes "\<And>k. k < N \<Longrightarrow> weight s' k \<le> weight s k" "i < N" "weight s' i < weight s i"
  shows "total s' < total s"
  unfolding total_def by (rule sum_strict_mono_ex1) (use assms in auto)

lemma weight_same:
  "pc s' k = pc s k \<Longrightarrow> iter s' k = iter s k \<Longrightarrow> blocked k s' = blocked k s \<Longrightarrow> weight s' k = weight s k"
  by (simp add: weight_def)

text \<open>Moving on, and being woken, both reduce the weight.\<close>

lemma weight_advance:
  assumes "pc s' k = nxt (pc s k)" "iter s' k = iter s k" "pc s k \<notin> {Loop, Quit}"
  shows "weight s' k < weight s k"
  using assms by (cases "pc s k") (auto simp: weight_def)

lemma weight_block:
  assumes "pc s' k = pc s k" "iter s' k = iter s k" "blocked k s'" "\<not> blocked k s"
  shows "weight s' k < weight s k"
  using assms by (simp add: weight_def)

lemma total_loop:
  assumes inv: "phi_inv s" and i: "i < N" "pc s i = Loop" "\<not> blocked i s"
  shows "total (let s' = s\<lparr>iter := (iter s)(i := iter s i + 1)\<rparr>
    in if iter s i < TIMES then advance i s' else s'\<lparr>pc := (pc s')(i := Quit)\<rparr>) < total s" (is "total ?s < _")
proof (rule total_less [OF _ i(1)])
  have b: "blocked k ?s = blocked k s" for k by (simp add: blocked_def Let_def)
  have it: "iter s i \<le> TIMES" using phi_invD(5) [OF inv i(1)] i(2) by (simp add: iter_ok_def)
  then show l: "weight ?s i < weight s i" using i by (auto simp: weight_def b Let_def)
  have "pc ?s k = pc s k \<and> iter ?s k = iter s k" if "k \<noteq> i" for k using that by (simp add: Let_def)
  then show "weight ?s k \<le> weight s k" for k using l weight_same [of ?s k s] b by (cases "k = i") auto
qed

lemma total_advance:
  assumes i: "i < N" "pc s i \<notin> {Loop, Quit}" and f: "pc s' = (pc s)(i := nxt (pc s i))" "iter s' = iter s"
    and b: "\<And>k. k < N \<Longrightarrow> k \<noteq> i \<Longrightarrow> blocked k s' = blocked k s"
  shows "total s' < total s"
proof (rule total_less [OF _ i(1)])
  show l: "weight s' i < weight s i" by (rule weight_advance) (use f i in auto)
  show "weight s' k \<le> weight s k" if "k < N" for k
    using l weight_same [of s' k s] b [OF that] f by (cases "k = i") auto
qed

lemma total_block:
  assumes i: "i < N" "\<not> blocked i s" "blocked i s'" and f: "pc s' = pc s" "iter s' = iter s"
    and b: "\<And>k. k < N \<Longrightarrow> k \<noteq> i \<Longrightarrow> blocked k s' = blocked k s"
  shows "total s' < total s"
proof (rule total_less [OF _ i(1)])
  show l: "weight s' i < weight s i" by (rule weight_block) (use f i in auto)
  show "weight s' k \<le> weight s k" if "k < N" for k
    using l weight_same [of s' k s] b [OF that] f by (cases "k = i") auto
qed

lemma total_wake:
  assumes i: "i < N" "pc s i \<notin> {Loop, Quit}" and j: "j \<noteq> i" "pc s j \<notin> {Loop, Quit}"
    and f: "pc s' = (pc s)(j := nxt (pc s j), i := nxt (pc s i))" "iter s' = iter s"
    and b: "\<And>k. k < N \<Longrightarrow> k \<noteq> i \<Longrightarrow> k \<noteq> j \<Longrightarrow> blocked k s' = blocked k s"
  shows "total s' < total s"
proof (rule total_less [OF _ i(1)])
  show l: "weight s' i < weight s i" by (rule weight_advance) (use f i in auto)
  have m: "weight s' j < weight s j" by (rule weight_advance) (use f j in auto)
  show "weight s' k \<le> weight s k" if "k < N" for k
    using l m weight_same [of s' k s] b [OF that] f by (cases "k = i"; cases "k = j") auto
qed

lemma total_down:
  assumes inv: "phi_inv s" and i: "i < N" "pc s i \<in> {TakeDown, PutDown}" "\<not> blocked i s"
  shows "total (down_mutex i s) < total s"
  using phi_invD(1) [OF inv]
proof (cases rule: mutex_cases)
  case free
  then have "down_mutex i s = advance i (s\<lparr>mutex := (0, [])\<rparr>)" by (simp add: down_mutex_def a_down_def)
  then show ?thesis using i free by (intro total_advance [of i]) (auto simp: blocked_def)
next
  case (held h ws)
  then have "down_mutex i s = s\<lparr>mutex := (0, ws @ [i])\<rparr>" by (simp add: down_mutex_def a_down_def)
  then show ?thesis using i held by (intro total_block [of i]) (auto simp: blocked_def)
qed

lemma total_up:
  assumes inv: "phi_inv s" and i: "i < N" "pc s i \<in> {TakeUp, PutUp}"
  shows "total (advance i (up_mutex s)) < total s"
  using phi_invD(1) [OF inv]
proof (cases rule: mutex_cases)
  case free
  then show ?thesis using i by (auto simp: crit_def)
next
  case (held h ws)
  show ?thesis
  proof (cases ws)
    case Nil
    then have "advance i (up_mutex s) = advance i (s\<lparr>mutex := (1, [])\<rparr>)" using held by (simp add: up_mutex_def)
    then show ?thesis using i held Nil by (intro total_advance [of i]) (auto simp: blocked_def)
  next
    case (Cons j js)
    have j: "j < N" "pc s j \<in> {TakeDown, PutDown}" using in_mutex_queue [OF phi_invD(1) [OF inv], of j] held(1) Cons by auto
    then have "j \<noteq> i" using i by auto
    moreover have "advance i (up_mutex s) = advance i (advance j (s\<lparr>mutex := (0, js)\<rparr>))" using held Cons by (simp add: up_mutex_def)
    ultimately show ?thesis using i j held(1) Cons by (intro total_wake [of i _ j]) (auto simp: blocked_def)
  qed
qed

lemma total_wait:
  assumes inv: "phi_inv s" and i: "i < N" "pc s i = TakeWait" "\<not> blocked i s"
  shows "total (down_s i s) < total s"
proof -
  consider "s_sem s i = (1, [])" | "s_sem s i = (0, [])"
    using own_of [OF inv i(1)] i(2,3) by (auto simp: own_ok_def blocked_def)
  then show ?thesis
  proof cases
    case 1
    then have "down_s i s = advance i (s\<lparr>s_sem := (s_sem s)(i := (0, []))\<rparr>)" by (simp add: down_s_def a_down_def)
    then show ?thesis using i by (intro total_advance [of i]) (auto simp: blocked_def)
  next
    case 2
    then have "down_s i s = s\<lparr>s_sem := (s_sem s)(i := (0, [i]))\<rparr>" by (simp add: down_s_def a_down_def)
    then show ?thesis using i by (intro total_block [of i]) (auto simp: blocked_def)
  qed
qed

lemma total_test:
  assumes inv: "phi_inv s" and i: "i < N" "pc s i \<in> {TakeTest, PutLeft, PutRight}"
    and t: "t < N" "pc s i = TakeTest \<longleftrightarrow> t = i"
  shows "total (advance i (phi_test_sema t s)) < total s"
proof (cases "state_sema s t = HUNGRY \<and> state_sema s (LEFT t) \<noteq> EATING \<and> state_sema s (RIGHT t) \<noteq> EATING")
  case False
  then have "phi_test_sema t s = s" by (auto simp: phi_test_sema_def)
  then show ?thesis using i by (intro total_advance [of i]) (auto simp: blocked_def)
next
  case True
  have "\<not> crit (pc s t)" if "t \<noteq> i" by (rule holder [OF inv i(1) _ t(1) that]) (use i in \<open>auto simp: crit_def\<close>)
  then have pt: "pc s t \<in> {TakeTest, TakeWait}"
    using own_of [OF inv t(1)] True i(2) t(2) by (auto simp: own_ok_def crit_def split: if_splits)
  have sem: "s_sem s t = (0, []) \<or> (s_sem s t = (0, [t]) \<and> pc s t = TakeWait)"
    using own_of [OF inv t(1)] True pt by (auto simp: own_ok_def split: if_splits)
  note f = test_fields [OF inv t(1) conjunct1 [OF True] pt]
  have e: "phi_test_sema t s = up_s t (set_phase t EATING s)" using True by (simp add: phi_test_sema_def)
  show ?thesis
  proof (cases "snd (s_sem s t) = []")
    case True
    then have "pc (up_s t (set_phase t EATING s)) = pc s" using f(1) by simp
    then show ?thesis using i f True unfolding e by (intro total_advance [of i]) (auto simp: blocked_def)
  next
    case False
    then have "pc s t = TakeWait" using f(6) by simp
    then have "t \<noteq> i" using t(2) by auto
    then show ?thesis using i f False \<open>pc s t = TakeWait\<close> unfolding e
      by (intro total_wake [of i _ t]) (auto simp: blocked_def)
  qed
qed

lemma total_step:
  assumes inv: "phi_inv s" and st: "phi_step s s'"
  shows "total s' < total s"
proof -
  obtain i where i: "i < N" "philosopher_using_semaphore i s = Some s'" using st by (rule phi_stepE)
  then have nb: "\<not> blocked i s" by (auto simp: philosopher_using_semaphore_def)
  note d = i(2) [unfolded philosopher_using_semaphore_def] and n = neighbours [OF i(1)]
  have same: "total (advance i s'') < total s" if "pc s i \<notin> {Loop, Quit}" "pc s'' = pc s" "iter s'' = iter s"
    "mutex s'' = mutex s" "s_sem s'' = s_sem s" for s''
    by (rule total_advance [OF i(1)]) (use that in \<open>auto simp: blocked_def\<close>)
  show ?thesis
  proof (cases "pc s i")
    case Loop
    then show ?thesis using d nb total_loop [OF inv i(1)] by simp
  next
    case TakeDown
    then show ?thesis using d nb total_down [OF inv i(1)] by simp
  next
    case TakeTest
    then show ?thesis using d nb total_test [OF inv i(1), of i] i(1) by simp
  next
    case TakeUp
    then show ?thesis using d nb total_up [OF inv i(1)] by simp
  next
    case TakeWait
    then show ?thesis using d nb total_wait [OF inv i(1)] by simp
  next
    case PutDown
    then show ?thesis using d nb total_down [OF inv i(1)] by simp
  next
    case PutLeft
    then show ?thesis using d nb total_test [OF inv i(1), of "LEFT i"] n by simp
  next
    case PutRight
    then show ?thesis using d nb total_test [OF inv i(1), of "RIGHT i"] n by simp
  next
    case PutUp
    then show ?thesis using d nb total_up [OF inv i(1)] by simp
  qed (use d nb same in \<open>auto split: if_splits\<close>)
qed

lemma run_reach: "(phi_step ^^ n) phi_init s \<Longrightarrow> phi_reach s \<and> total s + n \<le> total phi_init"
proof (induction n arbitrary: s)
  case (Suc n)
  then obtain t where t: "(phi_step ^^ n) phi_init t" "phi_step t s" by auto
  then have "phi_reach t" "total t + n \<le> total phi_init" using Suc.IH by auto
  then show ?case using total_step [OF phi_inv_reach t(2)] phi_reach.step t(2) by fastforce
qed (auto intro: phi_reach.start)

lemma total_init: "total phi_init = 705"
proof -
  have "weight phi_init i = 141" for i by (simp add: weight_def phi_init_def blocked_def TIMES_def)
  then show ?thesis by (simp add: total_def N_def)
qed

lemma all_quit:
  assumes "phi_reach s"
  shows "(\<nexists>s'. phi_step s s') \<longleftrightarrow> (\<forall>i < N. pc s i = Quit)"
proof
  show "\<forall>i < N. pc s i = Quit" if "\<nexists>s'. phi_step s s'"
    using phi_progress [OF phi_inv_reach [OF assms]] that by blast
qed (auto elim!: phi_stepE simp: philosopher_using_semaphore_def split: if_splits)

section \<open>What the program guarantees\<close>

text \<open>
  C34: However the statements of the five philosophers interleave, no two neighbours are ever eating: neither in
  the array of states, nor as threads between the end of \<open>phi_take_forks_sema\<close> and the reset in
  \<open>phi_put_forks_sema\<close>.
\<close>

theorem phi_safe:
  assumes "phi_reach s" and "i < N"
  shows "\<not> (state_sema s i = EATING \<and> state_sema s (RIGHT i) = EATING) \<and>
    \<not> (pc s i \<in> {Eat, PutDown, PutThink} \<and> pc s (RIGHT i) \<in> {Eat, PutDown, PutThink})"
proof -
  have inv: "phi_inv s" by (rule phi_inv_reach [OF assms(1)])
  have "pc s k \<in> {Eat, PutDown, PutThink} \<Longrightarrow> state_sema s k = EATING" if "k < N" for k
    using own_of [OF inv that] by (auto simp: own_ok_def)
  moreover have "safe s i" using inv assms(2) by (simp add: phi_inv_def)
  ultimately show ?thesis using neighbours(2) [OF assms(2)] assms(2) unfolding safe_def by blast
qed

theorem phi_safe_witness:
  "\<not> (state_sema phi_init 2 = EATING \<and> state_sema phi_init (RIGHT 2) = EATING) \<and>
    \<not> (pc phi_init 2 \<in> {Eat, PutDown, PutThink} \<and> pc phi_init (RIGHT 2) \<in> {Eat, PutDown, PutThink})"
  by (rule phi_safe [OF phi_reach.start]) (simp add: N_def)

text \<open>
  C35: The program neither deadlocks nor livelocks: a run of \<open>n\<close> steps from the start has at most 705 of them, and
  it cannot be continued exactly when every philosopher has left its loop; then each has been through it \<open>TIMES\<close>
  times, is thinking again, and both the mutex and the private semaphores are as they were initialised.
\<close>

theorem phi_finish:
  assumes "(phi_step ^^ n) phi_init s"
  shows "n \<le> 705 \<and> ((\<nexists>s'. phi_step s s') \<longleftrightarrow> (\<forall>i < N. pc s i = Quit)) \<and>
    ((\<forall>i < N. pc s i = Quit) \<longrightarrow> mutex s = (1, []) \<and>
      (\<forall>i < N. iter s i = Suc TIMES \<and> state_sema s i = THINKING \<and> s_sem s i = (0, [])))"
proof -
  have r: "phi_reach s" "n \<le> 705" using run_reach [OF assms] total_init by auto
  have inv: "phi_inv s" by (rule phi_inv_reach [OF r(1)])
  have q: "iter s i = Suc TIMES \<and> state_sema s i = THINKING \<and> s_sem s i = (0, [])" if "i < N" "pc s i = Quit" for i
    using inv that by (auto simp: phi_inv_def own_ok_def)
  have "mutex s = (1, [])" if "\<forall>i < N. pc s i = Quit"
    using phi_invD(1) [OF inv] that by (auto simp: mutex_ok_def crit_def)
  then show ?thesis using r all_quit [OF r(1)] q by blast
qed

theorem phi_finish_witness:
  "\<exists>s. (phi_step ^^ 1) phi_init s \<and> pc s 3 = Think \<and> iter s 3 = 1 \<and> (\<exists>s'. phi_step s s')"
proof -
  let ?s = "phi_init\<lparr>iter := (iter phi_init)(3 := 1), pc := (pc phi_init)(3 := Think)\<rparr>"
  have "phi_step phi_init ?s"
    by (rule phi_step.intros [of 3])
       (simp_all add: N_def philosopher_using_semaphore_def phi_init_def blocked_def advance_def TIMES_def)
  then have z: "(phi_step ^^ 1) phi_init ?s" by (auto simp: relcompp.simps)
  have "\<not> (\<forall>i < N. pc ?s i = Quit)" by (auto simp: phi_init_def N_def intro!: exI [of _ 0])
  then have "\<exists>s'. phi_step ?s s'" using phi_finish [OF z] by blast
  then show ?thesis using z by (intro exI [of _ ?s]) simp
qed

end
