(* ===== verification/Vfs.thy ===== *)
theory Vfs
  imports Kstring
begin

text \<open>
  The virtual file system of kern/fs/vfs: inodes and their counts (inode.c, inode.h), the table of devices
  (vfsdev.c), the boot file system (vfs.c), the current directory (vfspath.c), path names (vfslookup.c) and
  opening and closing (vfsfile.c).

  File systems and devices are reached through tables of function pointers.  A table is a record of functions on
  the state, a function that the table lacks is \<open>None\<close>; the tables are an argument \<open>V\<close> of every operation that
  calls through them, and \<open>world\<close> is what the file systems and devices keep themselves.  A semaphore is its value: a
  \<open>down\<close> that would block does not return, so it is \<open>None\<close> like a failed assertion.
\<close>

section \<open>Data\<close>

type_synonym inode_ptr = nat
type_synonym ops_ptr = nat
type_synonym fs_ptr = nat
type_synonym files_ptr = nat

datatype inode_type = inode_type_device_info | inode_type_sfs_inode_info

record inode =
  in_type :: inode_type
  ref_count :: int
  open_count :: int
  in_fs :: "fs_ptr option"
  in_ops :: "ops_ptr option"

datatype fd_status = FD_NONE | FD_INIT | FD_OPENED | FD_CLOSED

record kfile =
  status :: fd_status
  readable :: bool
  writable :: bool
  fd :: int
  pos :: u32
  node :: "inode_ptr option"
  fopen_count :: int

record files_struct =
  pwd :: "inode_ptr option"
  fd_array :: "nat \<Rightarrow> kfile"
  files_count :: int
  files_sem :: int

record vfs_dev =
  devname :: cstring
  devnode :: "inode_ptr option"
  dev_fs :: "fs_ptr option"
  mountable :: bool

record 'w vfs_state =
  inodes :: "inode_ptr \<Rightarrow> inode option"
  bootfs_node :: "inode_ptr option"
  bootfs_sem :: int
  vdev_list :: "vfs_dev list"
  vdev_list_sem :: int
  files :: "files_ptr \<Rightarrow> files_struct option"
  cur_files :: "files_ptr option"
  world :: 'w

record iobuf =
  io_base :: u32
  io_offset :: u32
  io_len :: u32
  io_resid :: u32

record kstat =
  st_mode :: u32
  st_nlinks :: u32
  st_blocks :: u32
  st_size :: u32

text \<open>An operation of an inode gives its result, what it stores through its pointers, and the new state.\<close>

record 'w inode_ops =
  vop_magic :: u32
  op_open :: "(inode_ptr \<Rightarrow> u32 \<Rightarrow> 'w vfs_state \<Rightarrow> (int \<times> 'w vfs_state) option) option"
  op_close :: "(inode_ptr \<Rightarrow> 'w vfs_state \<Rightarrow> (int \<times> 'w vfs_state) option) option"
  op_read :: "(inode_ptr \<Rightarrow> iobuf \<Rightarrow> 'w vfs_state \<Rightarrow> (int \<times> iobuf \<times> 'w vfs_state) option) option"
  op_write :: "(inode_ptr \<Rightarrow> iobuf \<Rightarrow> 'w vfs_state \<Rightarrow> (int \<times> iobuf \<times> 'w vfs_state) option) option"
  op_fstat :: "(inode_ptr \<Rightarrow> 'w vfs_state \<Rightarrow> (int \<times> kstat \<times> 'w vfs_state) option) option"
  op_fsync :: "(inode_ptr \<Rightarrow> 'w vfs_state \<Rightarrow> (int \<times> 'w vfs_state) option) option"
  op_namefile :: "(inode_ptr \<Rightarrow> iobuf \<Rightarrow> 'w vfs_state \<Rightarrow> (int \<times> iobuf \<times> 'w vfs_state) option) option"
  op_getdirentry :: "(inode_ptr \<Rightarrow> iobuf \<Rightarrow> 'w vfs_state \<Rightarrow> (int \<times> iobuf \<times> 'w vfs_state) option) option"
  op_reclaim :: "(inode_ptr \<Rightarrow> 'w vfs_state \<Rightarrow> (int \<times> 'w vfs_state) option) option"
  op_gettype :: "(inode_ptr \<Rightarrow> 'w vfs_state \<Rightarrow> (int \<times> u32 \<times> 'w vfs_state) option) option"
  op_tryseek :: "(inode_ptr \<Rightarrow> u32 \<Rightarrow> 'w vfs_state \<Rightarrow> (int \<times> 'w vfs_state) option) option"
  op_truncate :: "(inode_ptr \<Rightarrow> u32 \<Rightarrow> 'w vfs_state \<Rightarrow> (int \<times> 'w vfs_state) option) option"
  op_create :: "(inode_ptr \<Rightarrow> cstring \<Rightarrow> bool \<Rightarrow> 'w vfs_state \<Rightarrow> (int \<times> inode_ptr option \<times> 'w vfs_state) option) option"
  op_lookup :: "(inode_ptr \<Rightarrow> cstring \<Rightarrow> 'w vfs_state \<Rightarrow> (int \<times> inode_ptr option \<times> 'w vfs_state) option) option"

record 'w fs_ops =
  fs_sync :: "'w vfs_state \<Rightarrow> (int \<times> 'w vfs_state) option"
  fs_get_root :: "'w vfs_state \<Rightarrow> (inode_ptr option \<times> 'w vfs_state) option"
  fs_unmount :: "'w vfs_state \<Rightarrow> (int \<times> 'w vfs_state) option"
  fs_cleanup :: "'w vfs_state \<Rightarrow> 'w vfs_state option"

record 'w vtab =
  node_ops :: "ops_ptr \<Rightarrow> 'w inode_ops"
  fs_ops_of :: "fs_ptr \<Rightarrow> 'w fs_ops"

section \<open>Inodes\<close>

definition VOP_MAGIC :: u32 where "VOP_MAGIC = 0x8c4ba476"
definition MAX_INODE_COUNT :: int where "MAX_INODE_COUNT = 0x10000"

definition upd_inode :: "inode_ptr \<Rightarrow> (inode \<Rightarrow> inode) \<Rightarrow> 'w vfs_state \<Rightarrow> 'w vfs_state" where
  "upd_inode n f s = s\<lparr>inodes := (inodes s)(n := map_option f (inodes s n))\<rparr>"

text \<open>The pointer that \<open>kmalloc\<close> returned is the argument \<open>p\<close>.\<close>

definition alloc_inode :: "inode_ptr option \<Rightarrow> inode_type \<Rightarrow> 'w vfs_state \<Rightarrow> 'w vfs_state" where
  "alloc_inode p t s =
     (case p of None \<Rightarrow> s
      | Some n \<Rightarrow> s\<lparr>inodes := (inodes s)(n \<mapsto> \<lparr>in_type = t, ref_count = 0, open_count = 0, in_fs = None, in_ops = None\<rparr>)\<rparr>)"

definition inode_ref_inc :: "inode_ptr \<Rightarrow> 'w vfs_state \<Rightarrow> (int \<times> 'w vfs_state) option" where
  "inode_ref_inc n s = do {
     x \<leftarrow> inodes s n;
     Some (ref_count x + 1, upd_inode n (\<lambda>x. x\<lparr>ref_count := ref_count x + 1\<rparr>) s) }"

definition inode_init :: "inode_ptr \<Rightarrow> ops_ptr \<Rightarrow> fs_ptr option \<Rightarrow> 'w vfs_state \<Rightarrow> 'w vfs_state option" where
  "inode_init n ops f s = do {
     let s = upd_inode n (\<lambda>x. x\<lparr>ref_count := 0, open_count := 0, in_ops := Some ops, in_fs := f\<rparr>) s;
     (_, s) \<leftarrow> inode_ref_inc n s;
     Some s }"

definition inode_kill :: "inode_ptr \<Rightarrow> 'w vfs_state \<Rightarrow> 'w vfs_state option" where
  "inode_kill n s = do {
     x \<leftarrow> inodes s n;
     kassert (ref_count x = 0);
     kassert (open_count x = 0);
     Some (s\<lparr>inodes := (inodes s)(n := None)\<rparr>) }"

definition inode_check :: "'w vtab \<Rightarrow> inode_ptr option \<Rightarrow> 'w vfs_state \<Rightarrow> unit option" where
  "inode_check V n s = do {
     n \<leftarrow> n;
     x \<leftarrow> inodes s n;
     p \<leftarrow> in_ops x;
     kassert (vop_magic (node_ops V p) = VOP_MAGIC);
     kassert (ref_count x \<ge> open_count x \<and> open_count x \<ge> 0);
     kassert (ref_count x < MAX_INODE_COUNT \<and> open_count x < MAX_INODE_COUNT) }"

text \<open>The function that \<open>vop_sym(node)\<close> calls: it must be there, and the inode is checked first.\<close>

definition vop_op :: "'w vtab \<Rightarrow> ('w inode_ops \<Rightarrow> 'f option) \<Rightarrow> inode_ptr option \<Rightarrow> 'w vfs_state \<Rightarrow> (inode_ptr \<times> 'f) option" where
  "vop_op V slot nd s = do {
     n \<leftarrow> nd;
     x \<leftarrow> inodes s n;
     p \<leftarrow> in_ops x;
     f \<leftarrow> slot (node_ops V p);
     inode_check V nd s;
     Some (n, f) }"

definition inode_ref_dec :: "'w vtab \<Rightarrow> inode_ptr \<Rightarrow> 'w vfs_state \<Rightarrow> (int \<times> 'w vfs_state) option" where
  "inode_ref_dec V n s = do {
     x \<leftarrow> inodes s n;
     kassert (ref_count x > 0);
     let s = upd_inode n (\<lambda>x. x\<lparr>ref_count := ref_count x - 1\<rparr>) s;
     let c = ref_count x - 1;
     if c = 0 then do {
       (n, f) \<leftarrow> vop_op V op_reclaim (Some n) s;
       (_, s) \<leftarrow> f n s;
       Some (c, s) }
     else Some (c, s) }"

definition inode_open_inc :: "inode_ptr \<Rightarrow> 'w vfs_state \<Rightarrow> (int \<times> 'w vfs_state) option" where
  "inode_open_inc n s = do {
     x \<leftarrow> inodes s n;
     Some (open_count x + 1, upd_inode n (\<lambda>x. x\<lparr>open_count := open_count x + 1\<rparr>) s) }"

definition inode_open_dec :: "'w vtab \<Rightarrow> inode_ptr \<Rightarrow> 'w vfs_state \<Rightarrow> (int \<times> 'w vfs_state) option" where
  "inode_open_dec V n s = do {
     x \<leftarrow> inodes s n;
     kassert (open_count x > 0);
     let s = upd_inode n (\<lambda>x. x\<lparr>open_count := open_count x - 1\<rparr>) s;
     let c = open_count x - 1;
     if c = 0 then do {
       (n, f) \<leftarrow> vop_op V op_close (Some n) s;
       (_, s) \<leftarrow> f n s;
       Some (c, s) }
     else Some (c, s) }"

section \<open>The current directory and the boot file system\<close>

definition down_value :: "int \<Rightarrow> int option" where
  "down_value v = (if v > 0 then Some (v - 1) else None)"

definition lock_files :: "files_ptr \<Rightarrow> 'w vfs_state \<Rightarrow> 'w vfs_state option" where
  "lock_files f s = do {
     fs \<leftarrow> files s f;
     v \<leftarrow> down_value (files_sem fs);
     Some (s\<lparr>files := (files s)(f \<mapsto> fs\<lparr>files_sem := v\<rparr>)\<rparr>) }"

definition unlock_files :: "files_ptr \<Rightarrow> 'w vfs_state \<Rightarrow> 'w vfs_state option" where
  "unlock_files f s = do {
     fs \<leftarrow> files s f;
     Some (s\<lparr>files := (files s)(f \<mapsto> fs\<lparr>files_sem := files_sem fs + 1\<rparr>)\<rparr>) }"

definition get_cwd_nolock :: "'w vfs_state \<Rightarrow> inode_ptr option option" where
  "get_cwd_nolock s = do { f \<leftarrow> cur_files s; fs \<leftarrow> files s f; Some (pwd fs) }"

definition set_cwd_nolock :: "inode_ptr option \<Rightarrow> 'w vfs_state \<Rightarrow> 'w vfs_state option" where
  "set_cwd_nolock d s = do {
     f \<leftarrow> cur_files s;
     fs \<leftarrow> files s f;
     Some (s\<lparr>files := (files s)(f \<mapsto> fs\<lparr>pwd := d\<rparr>)\<rparr>) }"

definition lock_cfs :: "'w vfs_state \<Rightarrow> 'w vfs_state option" where
  "lock_cfs s = do { f \<leftarrow> cur_files s; lock_files f s }"

definition unlock_cfs :: "'w vfs_state \<Rightarrow> 'w vfs_state option" where
  "unlock_cfs s = do { f \<leftarrow> cur_files s; unlock_files f s }"

text \<open>A function that stores an inode through a pointer gives \<open>Inr\<close> of it, or \<open>Inl\<close> of its error.\<close>

definition vfs_get_curdir :: "'w vfs_state \<Rightarrow> ((int + inode_ptr option) \<times> 'w vfs_state) option" where
  "vfs_get_curdir s = do {
     d \<leftarrow> get_cwd_nolock s;
     (case d of
        Some n \<Rightarrow> do { (_, s) \<leftarrow> inode_ref_inc n s; Some (Inr (Some n), s) }
      | None \<Rightarrow> Some (Inl (err E_NOENT), s)) }"

definition S_IFMT :: u32 where "S_IFMT = 0x7000"
definition S_IFDIR :: u32 where "S_IFDIR = 0x2000"
definition S_ISDIR :: "u32 \<Rightarrow> bool" where "S_ISDIR m \<longleftrightarrow> m AND S_IFMT = S_IFDIR"

definition change_cwd :: "'w vtab \<Rightarrow> inode_ptr option \<Rightarrow> inode_ptr option \<Rightarrow> 'w vfs_state \<Rightarrow> 'w vfs_state option" where
  "change_cwd V dir old s = do {
     s \<leftarrow> set_cwd_nolock dir s;
     (case old of Some n \<Rightarrow> do { (_, s) \<leftarrow> inode_ref_dec V n s; Some s } | None \<Rightarrow> Some s) }"

definition vfs_set_curdir :: "'w vtab \<Rightarrow> inode_ptr option \<Rightarrow> 'w vfs_state \<Rightarrow> (int \<times> 'w vfs_state) option" where
  "vfs_set_curdir V dir s = do {
     s \<leftarrow> lock_cfs s;
     old \<leftarrow> get_cwd_nolock s;
     (ret, s) \<leftarrow>
       (if old = dir then Some (0, s)
        else case dir of
          None \<Rightarrow> do { s \<leftarrow> change_cwd V dir old s; Some (0, s) }
        | Some _ \<Rightarrow> do {
            (n, f) \<leftarrow> vop_op V op_gettype dir s;
            (ret, type, s) \<leftarrow> f n s;
            if ret \<noteq> 0 then Some (ret, s)
            else if \<not> S_ISDIR type then Some (err E_NOTDIR, s)
            else do {
              (_, s) \<leftarrow> inode_ref_inc n s;
              s \<leftarrow> change_cwd V dir old s;
              Some (0, s) } });
     s \<leftarrow> unlock_cfs s;
     Some (ret, s) }"

definition lock_bootfs :: "'w vfs_state \<Rightarrow> 'w vfs_state option" where
  "lock_bootfs s = do { v \<leftarrow> down_value (bootfs_sem s); Some (s\<lparr>bootfs_sem := v\<rparr>) }"

definition unlock_bootfs :: "'w vfs_state \<Rightarrow> 'w vfs_state" where
  "unlock_bootfs s = s\<lparr>bootfs_sem := bootfs_sem s + 1\<rparr>"

definition change_bootfs :: "'w vtab \<Rightarrow> inode_ptr option \<Rightarrow> 'w vfs_state \<Rightarrow> 'w vfs_state option" where
  "change_bootfs V nd s = do {
     s \<leftarrow> lock_bootfs s;
     let old = bootfs_node s;
     let s = unlock_bootfs (s\<lparr>bootfs_node := nd\<rparr>);
     (case old of Some n \<Rightarrow> do { (_, s) \<leftarrow> inode_ref_dec V n s; Some s } | None \<Rightarrow> Some s) }"

definition vfs_get_bootfs :: "'w vfs_state \<Rightarrow> ((int + inode_ptr option) \<times> 'w vfs_state) option" where
  "vfs_get_bootfs s =
     (case bootfs_node s of
        None \<Rightarrow> Some (Inl (err E_NOENT), s)
      | Some n \<Rightarrow> do {
          s \<leftarrow> lock_bootfs s;
          (_, s) \<leftarrow> inode_ref_inc n s;
          Some (Inr (Some n), unlock_bootfs s) })"

section \<open>The table of devices\<close>

definition lock_vdev_list :: "'w vfs_state \<Rightarrow> 'w vfs_state option" where
  "lock_vdev_list s = do { v \<leftarrow> down_value (vdev_list_sem s); Some (s\<lparr>vdev_list_sem := v\<rparr>) }"

definition unlock_vdev_list :: "'w vfs_state \<Rightarrow> 'w vfs_state" where
  "unlock_vdev_list s = s\<lparr>vdev_list_sem := vdev_list_sem s + 1\<rparr>"

definition vfs_devlist_init :: "'w vfs_state \<Rightarrow> 'w vfs_state" where
  "vfs_devlist_init s = s\<lparr>vdev_list := [], vdev_list_sem := 1\<rparr>"

definition vfs_init :: "'w vfs_state \<Rightarrow> 'w vfs_state" where
  "vfs_init s = vfs_devlist_init (s\<lparr>bootfs_sem := 1\<rparr>)"

fun cleanup_loop :: "'w vtab \<Rightarrow> vfs_dev list \<Rightarrow> 'w vfs_state \<Rightarrow> 'w vfs_state option" where
  "cleanup_loop V [] s = Some s"
| "cleanup_loop V (d # ds) s =
     (case dev_fs d of
        Some f \<Rightarrow> do { s \<leftarrow> fs_cleanup (fs_ops_of V f) s; cleanup_loop V ds s }
      | None \<Rightarrow> cleanup_loop V ds s)"

definition vfs_cleanup :: "'w vtab \<Rightarrow> 'w vfs_state \<Rightarrow> 'w vfs_state option" where
  "vfs_cleanup V s =
     (if vdev_list s \<noteq> [] then do {
        s \<leftarrow> lock_vdev_list s;
        s \<leftarrow> cleanup_loop V (vdev_list s) s;
        Some (unlock_vdev_list s) }
      else Some s)"

fun find_dev :: "(vfs_dev \<Rightarrow> bool) \<Rightarrow> vfs_dev list \<Rightarrow> vfs_dev option" where
  "find_dev P [] = None"
| "find_dev P (d # ds) = (if P d then Some d else find_dev P ds)"

definition dev_root :: "'w vtab \<Rightarrow> vfs_dev \<Rightarrow> 'w vfs_state \<Rightarrow> (inode_ptr option \<times> 'w vfs_state) option" where
  "dev_root V d s =
     (case dev_fs d of
        Some f \<Rightarrow> fs_get_root (fs_ops_of V f) s
      | None \<Rightarrow>
          if \<not> mountable d then do {
            n \<leftarrow> devnode d;
            (_, s) \<leftarrow> inode_ref_inc n s;
            Some (devnode d, s) }
          else Some (None, s))"

definition vfs_get_root :: "'w vtab \<Rightarrow> cstring \<Rightarrow> 'w vfs_state \<Rightarrow> ((int + inode_ptr option) \<times> 'w vfs_state) option" where
  "vfs_get_root V name s =
     (if vdev_list s \<noteq> [] then do {
        s \<leftarrow> lock_vdev_list s;
        (r, s) \<leftarrow>
          (case find_dev (\<lambda>d. strcmp name (devname d) = 0) (vdev_list s) of
             None \<Rightarrow> Some (Inl (err E_NO_DEV), s)
           | Some d \<Rightarrow> do {
               (found, s) \<leftarrow> dev_root V d s;
               Some (if found \<noteq> None then Inr found else Inl (err E_NA_DEV), s) });
        Some (r, unlock_vdev_list s) }
      else Some (Inl (err E_NO_DEV), s))"

definition vfs_get_devname :: "fs_ptr \<Rightarrow> 'w vfs_state \<Rightarrow> cstring option" where
  "vfs_get_devname f s = map_option devname (find_dev (\<lambda>d. dev_fs d = Some f) (vdev_list s))"

definition check_devname_conflict :: "cstring \<Rightarrow> 'w vfs_state \<Rightarrow> bool" where
  "check_devname_conflict name s \<longleftrightarrow> find_dev (\<lambda>d. strcmp (devname d) name = 0) (vdev_list s) = None"

definition FS_MAX_DNAME_LEN :: nat where "FS_MAX_DNAME_LEN = 31"

text \<open>Whether \<open>strdup\<close> and \<open>kmalloc\<close> found memory are the arguments \<open>name_ok\<close> and \<open>vdev_ok\<close>.\<close>

definition vfs_do_add ::
  "bool \<Rightarrow> bool \<Rightarrow> cstring \<Rightarrow> inode_ptr option \<Rightarrow> fs_ptr option \<Rightarrow> bool \<Rightarrow> 'w vfs_state \<Rightarrow> (int \<times> 'w vfs_state) option" where
  "vfs_do_add name_ok vdev_ok name dnode f mnt s = do {
     (case dnode of
        None \<Rightarrow> kassert (\<not> mnt)
      | Some n \<Rightarrow> do { x \<leftarrow> inodes s n; kassert (in_type x = inode_type_device_info) });
     if strlen name > FS_MAX_DNAME_LEN then Some (err E_TOO_BIG, s)
     else if \<not> name_ok \<or> \<not> vdev_ok then Some (err E_NO_MEM, s)
     else do {
       s \<leftarrow> lock_vdev_list s;
       if \<not> check_devname_conflict name s then Some (err E_EXISTS, unlock_vdev_list s)
       else do {
         let d = \<lparr>devname = name, devnode = dnode, dev_fs = f, mountable = mnt\<rparr>;
         Some (0, unlock_vdev_list (s\<lparr>vdev_list := d # vdev_list s\<rparr>)) } } }"

definition vfs_add_fs :: "bool \<Rightarrow> bool \<Rightarrow> cstring \<Rightarrow> fs_ptr option \<Rightarrow> 'w vfs_state \<Rightarrow> (int \<times> 'w vfs_state) option" where
  "vfs_add_fs name_ok vdev_ok name f s = vfs_do_add name_ok vdev_ok name None f False s"

definition vfs_add_dev ::
  "bool \<Rightarrow> bool \<Rightarrow> cstring \<Rightarrow> inode_ptr option \<Rightarrow> bool \<Rightarrow> 'w vfs_state \<Rightarrow> (int \<times> 'w vfs_state) option" where
  "vfs_add_dev name_ok vdev_ok name dnode mnt s = vfs_do_add name_ok vdev_ok name dnode None mnt s"

definition is_mount :: "cstring \<Rightarrow> vfs_dev \<Rightarrow> bool" where
  "is_mount name d \<longleftrightarrow> mountable d \<and> strcmp (devname d) name = 0"

text \<open>\<open>find_mount\<close> hands back a pointer to the entry: its place in the list.\<close>

fun find_mount_from :: "cstring \<Rightarrow> vfs_dev list \<Rightarrow> nat \<Rightarrow> int + nat" where
  "find_mount_from name [] i = Inl (err E_NO_DEV)"
| "find_mount_from name (d # ds) i = (if is_mount name d then Inr i else find_mount_from name ds (Suc i))"

definition find_mount :: "cstring \<Rightarrow> 'w vfs_state \<Rightarrow> int + nat" where
  "find_mount name s = find_mount_from name (vdev_list s) 0"

definition set_dev_fs :: "nat \<Rightarrow> fs_ptr option \<Rightarrow> 'w vfs_state \<Rightarrow> 'w vfs_state" where
  "set_dev_fs i f s = s\<lparr>vdev_list := (vdev_list s)[i := (vdev_list s ! i)\<lparr>dev_fs := f\<rparr>]\<rparr>"

definition vfs_mount ::
  "cstring \<Rightarrow> (inode_ptr \<Rightarrow> 'w vfs_state \<Rightarrow> (int \<times> fs_ptr option \<times> 'w vfs_state) option) \<Rightarrow> 'w vfs_state \<Rightarrow>
   (int \<times> 'w vfs_state) option" where
  "vfs_mount name mountfunc s = do {
     s \<leftarrow> lock_vdev_list s;
     (ret, s) \<leftarrow>
       (case find_mount name s of
          Inl e \<Rightarrow> Some (e, s)
        | Inr i \<Rightarrow>
            if dev_fs (vdev_list s ! i) \<noteq> None then Some (err E_BUSY, s)
            else do {
              kassert (mountable (vdev_list s ! i));
              n \<leftarrow> devnode (vdev_list s ! i);
              x \<leftarrow> inodes s n;
              kassert (in_type x = inode_type_device_info);
              (ret, f, s) \<leftarrow> mountfunc n s;
              let s = set_dev_fs i f s;
              kassert (ret = 0 \<longrightarrow> f \<noteq> None);
              Some (ret, s) });
     Some (ret, unlock_vdev_list s) }"

definition vfs_unmount :: "'w vtab \<Rightarrow> cstring \<Rightarrow> 'w vfs_state \<Rightarrow> (int \<times> 'w vfs_state) option" where
  "vfs_unmount V name s = do {
     s \<leftarrow> lock_vdev_list s;
     (ret, s) \<leftarrow>
       (case find_mount name s of
          Inl e \<Rightarrow> Some (e, s)
        | Inr i \<Rightarrow>
            (case dev_fs (vdev_list s ! i) of
               None \<Rightarrow> Some (err E_INVAL, s)
             | Some f \<Rightarrow> do {
                 kassert (mountable (vdev_list s ! i));
                 (ret, s) \<leftarrow> fs_sync (fs_ops_of V f) s;
                 if ret \<noteq> 0 then Some (ret, s)
                 else do {
                   (ret, s) \<leftarrow> fs_unmount (fs_ops_of V f) s;
                   Some (ret, if ret = 0 then set_dev_fs i None s else s) } }));
     Some (ret, unlock_vdev_list s) }"

fun unmount_loop :: "'w vtab \<Rightarrow> nat list \<Rightarrow> 'w vfs_state \<Rightarrow> 'w vfs_state option" where
  "unmount_loop V [] s = Some s"
| "unmount_loop V (i # is) s =
     (case dev_fs (vdev_list s ! i) of
        Some f \<Rightarrow>
          if mountable (vdev_list s ! i) then do {
            (ret, s) \<leftarrow> fs_sync (fs_ops_of V f) s;
            if ret \<noteq> 0 then unmount_loop V is s
            else do {
              (ret, s) \<leftarrow> fs_unmount (fs_ops_of V f) s;
              if ret \<noteq> 0 then unmount_loop V is s
              else unmount_loop V is (set_dev_fs i None s) } }
          else unmount_loop V is s
      | None \<Rightarrow> unmount_loop V is s)"

definition vfs_unmount_all :: "'w vtab \<Rightarrow> 'w vfs_state \<Rightarrow> (int \<times> 'w vfs_state) option" where
  "vfs_unmount_all V s =
     (if vdev_list s \<noteq> [] then do {
        s \<leftarrow> lock_vdev_list s;
        s \<leftarrow> unmount_loop V [0..<length (vdev_list s)] s;
        Some (0, unlock_vdev_list s) }
      else Some (0, s))"

section \<open>Path names\<close>

abbreviation colon_char :: u8 where "colon_char \<equiv> 58"
abbreviation slash_char :: u8 where "slash_char \<equiv> 47"

text \<open>The first colon or slash of a path, whichever comes first.\<close>

fun path_mark :: "cstring \<Rightarrow> nat \<Rightarrow> (u8 \<times> nat) option" where
  "path_mark [] i = None"
| "path_mark (c # cs) i =
     (if c = 0 then None
      else if c = colon_char \<or> c = slash_char then Some (c, i) else path_mark cs (Suc i))"

fun skip_slashes :: "cstring \<Rightarrow> cstring" where
  "skip_slashes (c # cs) = (if c = slash_char then skip_slashes cs else c # cs)"
| "skip_slashes [] = []"

text \<open>
  \<open>get_device\<close> ends the path at the colon, in the caller's buffer: the first result is the path as the caller sees it
  afterwards.
\<close>

definition get_device ::
  "'w vtab \<Rightarrow> cstring \<Rightarrow> 'w vfs_state \<Rightarrow> (cstring \<times> (int + cstring \<times> inode_ptr option) \<times> 'w vfs_state) option" where
  "get_device V path s =
     (case path_mark path 0 of
        Some (c, i) \<Rightarrow>
          if c = colon_char \<and> i > 0 then do {
            (r, s) \<leftarrow> vfs_get_root V (take i path) s;
            Some (take i path, map_sum id (Pair (skip_slashes (drop (Suc i) path))) r, s) }
          else if c = slash_char \<and> i > 0 then do {
            (r, s) \<leftarrow> vfs_get_curdir s;
            Some (path, map_sum id (Pair path) r, s) }
          else if c = slash_char then do {
            (r, s) \<leftarrow> vfs_get_bootfs s;
            Some (path, map_sum id (Pair (skip_slashes (drop 1 path))) r, s) }
          else do {
            (r, s) \<leftarrow> vfs_get_curdir s;
            (case r of
               Inl e \<Rightarrow> Some (path, Inl e, s)
             | Inr nd \<Rightarrow> do {
                 n \<leftarrow> nd;
                 x \<leftarrow> inodes s n;
                 f \<leftarrow> in_fs x;
                 (root, s) \<leftarrow> fs_get_root (fs_ops_of V f) s;
                 (_, s) \<leftarrow> inode_ref_dec V n s;
                 Some (path, Inr (skip_slashes (drop 1 path), root), s) }) }
      | None \<Rightarrow> do {
          (r, s) \<leftarrow> vfs_get_curdir s;
          Some (path, map_sum id (Pair path) r, s) })"

definition vfs_lookup ::
  "'w vtab \<Rightarrow> cstring \<Rightarrow> 'w vfs_state \<Rightarrow> (cstring \<times> (int + inode_ptr option) \<times> 'w vfs_state) option" where
  "vfs_lookup V path s = do {
     (path', r, s) \<leftarrow> get_device V path s;
     (case r of
        Inl e \<Rightarrow> Some (path', Inl e, s)
      | Inr (sub, nd) \<Rightarrow>
          if at0 sub \<noteq> 0 then do {
            (n, f) \<leftarrow> vop_op V op_lookup nd s;
            (ret, res, s) \<leftarrow> f n sub s;
            (_, s) \<leftarrow> inode_ref_dec V n s;
            Some (path', if ret = 0 then Inr res else Inl ret, s) }
          else Some (path', Inr nd, s)) }"

definition vfs_lookup_parent ::
  "'w vtab \<Rightarrow> cstring \<Rightarrow> 'w vfs_state \<Rightarrow> (cstring \<times> (int + cstring \<times> inode_ptr option) \<times> 'w vfs_state) option" where
  "vfs_lookup_parent V path s = get_device V path s"

definition vfs_chdir :: "'w vtab \<Rightarrow> cstring \<Rightarrow> 'w vfs_state \<Rightarrow> (int \<times> 'w vfs_state) option" where
  "vfs_chdir V path s = do {
     (_, r, s) \<leftarrow> vfs_lookup V path s;
     (case r of
        Inl e \<Rightarrow> Some (e, s)
      | Inr nd \<Rightarrow> do {
          (ret, s) \<leftarrow> vfs_set_curdir V nd s;
          n \<leftarrow> nd;
          (_, s) \<leftarrow> inode_ref_dec V n s;
          Some (ret, s) }) }"

definition vfs_set_bootfs :: "'w vtab \<Rightarrow> cstring option \<Rightarrow> 'w vfs_state \<Rightarrow> (int \<times> 'w vfs_state) option" where
  "vfs_set_bootfs V fsname s =
     (case fsname of
        None \<Rightarrow> do { s \<leftarrow> change_bootfs V None s; Some (0, s) }
      | Some name \<Rightarrow>
          (case strchr name colon_char of
             None \<Rightarrow> Some (err E_INVAL, s)
           | Some rest \<Rightarrow>
               if at0 (drop 1 rest) \<noteq> 0 then Some (err E_INVAL, s)
               else do {
                 (ret, s) \<leftarrow> vfs_chdir V name s;
                 if ret \<noteq> 0 then Some (ret, s)
                 else do {
                   (r, s) \<leftarrow> vfs_get_curdir s;
                   (case r of
                      Inl e \<Rightarrow> Some (e, s)
                    | Inr nd \<Rightarrow> do { s \<leftarrow> change_bootfs V nd s; Some (0, s) }) } }))"

section \<open>Opening and closing\<close>

definition O_RDONLY :: u32 where "O_RDONLY = 0"
definition O_WRONLY :: u32 where "O_WRONLY = 1"
definition O_RDWR :: u32 where "O_RDWR = 2"
definition O_CREAT :: u32 where "O_CREAT = 4"
definition O_EXCL :: u32 where "O_EXCL = 8"
definition O_TRUNC :: u32 where "O_TRUNC = 0x10"
definition O_APPEND :: u32 where "O_APPEND = 0x20"
definition O_ACCMODE :: u32 where "O_ACCMODE = 3"

text \<open>The part of \<open>vfs_open\<close> after the inode has been found.\<close>

definition open_node :: "'w vtab \<Rightarrow> u32 \<Rightarrow> inode_ptr option \<Rightarrow> 'w vfs_state \<Rightarrow> ((int + inode_ptr option) \<times> 'w vfs_state) option" where
  "open_node V open_flags nd s = do {
     n \<leftarrow> nd;
     (n, f) \<leftarrow> vop_op V op_open nd s;
     (ret, s) \<leftarrow> f n open_flags s;
     if ret \<noteq> 0 then do { (_, s) \<leftarrow> inode_ref_dec V n s; Some (Inl ret, s) }
     else do {
       (_, s) \<leftarrow> inode_open_inc n s;
       if open_flags AND O_TRUNC \<noteq> 0 \<or> open_flags AND O_CREAT \<noteq> 0 then do {
         (n, f) \<leftarrow> vop_op V op_truncate nd s;
         (ret, s) \<leftarrow> f n 0 s;
         if ret \<noteq> 0 then do {
           (_, s) \<leftarrow> inode_open_dec V n s;
           (_, s) \<leftarrow> inode_ref_dec V n s;
           Some (Inl ret, s) }
         else Some (Inr nd, s) }
       else Some (Inr nd, s) } }"

text \<open>
  The local \<open>node\<close> of \<open>vfs_open\<close> is not initialised; what \<open>vop_create\<close> stores there, also when it fails, is the second
  component of its result.
\<close>

definition vfs_open :: "'w vtab \<Rightarrow> cstring \<Rightarrow> u32 \<Rightarrow> 'w vfs_state \<Rightarrow> ((int + inode_ptr option) \<times> 'w vfs_state) option" where
  "vfs_open V path open_flags s =
     (let can_write = (open_flags AND O_ACCMODE = O_WRONLY \<or> open_flags AND O_ACCMODE = O_RDWR);
          excl = (open_flags AND O_EXCL \<noteq> 0); create = (open_flags AND O_CREAT \<noteq> 0)
      in if open_flags AND O_ACCMODE \<notin> {O_RDONLY, O_WRONLY, O_RDWR} then Some (Inl (err E_INVAL), s)
      else if open_flags AND O_TRUNC \<noteq> 0 \<and> \<not> can_write then Some (Inl (err E_INVAL), s)
      else do {
        (path, r, s) \<leftarrow> vfs_lookup V path s;
        (case r of
           Inl ret \<Rightarrow>
             if ret = -16 \<and> create then do {
               (_, r, s) \<leftarrow> vfs_lookup_parent V path s;
               (case r of
                  Inl ret \<Rightarrow> Some (Inl ret, s)
                | Inr (name, dir) \<Rightarrow> do {
                    (d, f) \<leftarrow> vop_op V op_create dir s;
                    (_, nd, s) \<leftarrow> f d name excl s;
                    open_node V open_flags nd s }) }
             else Some (Inl ret, s)
         | Inr nd \<Rightarrow>
             if excl \<and> create then Some (Inl (err E_EXISTS), s)
             else open_node V open_flags nd s) })"

definition vfs_close :: "'w vtab \<Rightarrow> inode_ptr option \<Rightarrow> 'w vfs_state \<Rightarrow> (int \<times> 'w vfs_state) option" where
  "vfs_close V nd s = do {
     n \<leftarrow> nd;
     (_, s) \<leftarrow> inode_open_dec V n s;
     (_, s) \<leftarrow> inode_ref_dec V n s;
     Some (0, s) }"

definition vfs_unlink :: "cstring \<Rightarrow> int" where "vfs_unlink path = err E_UNIMP"
definition vfs_rename :: "cstring \<Rightarrow> cstring \<Rightarrow> int" where "vfs_rename old_path new_path = err E_UNIMP"
definition vfs_link :: "cstring \<Rightarrow> cstring \<Rightarrow> int" where "vfs_link old_path new_path = err E_UNIMP"
definition vfs_symlink :: "cstring \<Rightarrow> cstring \<Rightarrow> int" where "vfs_symlink old_path new_path = err E_UNIMP"
definition vfs_readlink :: "cstring \<Rightarrow> iobuf \<Rightarrow> int" where "vfs_readlink path iob = err E_UNIMP"
definition vfs_mkdir :: "cstring \<Rightarrow> int" where "vfs_mkdir path = err E_UNIMP"

end
