(* ===== verification/File.thy ===== *)
theory File
  imports Vfs
begin

text \<open>
  Open files: I/O buffers (kern/fs/iobuf.c), the table of open files of a process and the operations on it
  (kern/fs/file.c), and the life of such tables (kern/fs/fs.c, \<open>copy_fs\<close> and \<open>put_fs\<close> of kern/process/proc.c).
  A pointer to an entry of a table is the table with the index of the entry.
\<close>

section \<open>I/O buffers\<close>

definition iobuf_init :: "u32 \<Rightarrow> u32 \<Rightarrow> u32 \<Rightarrow> iobuf" where
  "iobuf_init base len offset = \<lparr>io_base = base, io_offset = offset, io_len = len, io_resid = len\<rparr>"

definition iobuf_used :: "iobuf \<Rightarrow> u32" where
  "iobuf_used iob = io_len iob - io_resid iob"

definition iobuf_skip :: "u32 \<Rightarrow> iobuf \<Rightarrow> iobuf option" where
  "iobuf_skip n iob = do {
     kassert (io_resid iob \<ge> n);
     Some (iob\<lparr>io_base := io_base iob + n, io_offset := io_offset iob + n, io_resid := io_resid iob - n\<rparr>) }"

text \<open>The result with the number of bytes that were moved, the buffer and the memory afterwards.\<close>

definition iobuf_move :: "iobuf \<Rightarrow> u32 \<Rightarrow> u32 \<Rightarrow> bool \<Rightarrow> memory \<Rightarrow> (int \<times> u32 \<times> iobuf \<times> memory) option" where
  "iobuf_move iob data len m2b m =
     (let alen = (if io_resid iob > len then len else io_resid iob) in
      if alen > 0 then do {
        let (src, dst) = (if m2b then (data, io_base iob) else (io_base iob, data));
        let m = memmove (unat dst) (unat src) (unat alen) m;
        iob \<leftarrow> iobuf_skip alen iob;
        Some (if len - alen = 0 then 0 else err E_NO_MEM, alen, iob, m) }
      else Some (if len = 0 then 0 else err E_NO_MEM, alen, iob, m))"

definition iobuf_move_zeros :: "iobuf \<Rightarrow> u32 \<Rightarrow> memory \<Rightarrow> (int \<times> u32 \<times> iobuf \<times> memory) option" where
  "iobuf_move_zeros iob len m =
     (let alen = (if io_resid iob > len then len else io_resid iob) in
      if alen > 0 then do {
        let m = memset (unat (io_base iob)) 0 (unat alen) m;
        iob \<leftarrow> iobuf_skip alen iob;
        Some (if len - alen = 0 then 0 else err E_NO_MEM, alen, iob, m) }
      else Some (if len = 0 then 0 else err E_NO_MEM, alen, iob, m))"

section \<open>The table of open files\<close>

type_synonym file_ptr = "files_ptr \<times> nat"

text \<open>The sizes of \<open>struct files_struct\<close> and \<open>struct file\<close> are 24 and 28 bytes.\<close>

definition FILES_STRUCT_BUFSIZE :: nat where "FILES_STRUCT_BUFSIZE = 4096 - 24"
definition FILES_STRUCT_NENTRY :: nat where "FILES_STRUCT_NENTRY = FILES_STRUCT_BUFSIZE div 28"
definition NO_FD :: int where "NO_FD = - 0x9527"

definition testfd :: "int \<Rightarrow> bool" where
  "testfd d \<longleftrightarrow> d \<ge> 0 \<and> d < int FILES_STRUCT_NENTRY"

definition file_at :: "'w vfs_state \<Rightarrow> file_ptr \<Rightarrow> kfile option" where
  "file_at s p = map_option (\<lambda>fs. fd_array fs (snd p)) (files s (fst p))"

definition upd_file :: "file_ptr \<Rightarrow> (kfile \<Rightarrow> kfile) \<Rightarrow> 'w vfs_state \<Rightarrow> 'w vfs_state" where
  "upd_file p g s =
     s\<lparr>files := (files s)(fst p := map_option (\<lambda>fs. fs\<lparr>fd_array := (fd_array fs)(snd p := g (fd_array fs (snd p)))\<rparr>) (files s (fst p)))\<rparr>"

definition get_fd_array :: "'w vfs_state \<Rightarrow> files_ptr option" where
  "get_fd_array s = do {
     f \<leftarrow> cur_files s;
     fs \<leftarrow> files s f;
     kassert (files_count fs > 0);
     Some f }"

definition fd_array_init :: "(nat \<Rightarrow> kfile) \<Rightarrow> nat \<Rightarrow> kfile" where
  "fd_array_init a = (\<lambda>i. if i < FILES_STRUCT_NENTRY then (a i)\<lparr>fopen_count := 0, status := FD_NONE, fd := int i\<rparr> else a i)"

definition fd_array_found :: "file_ptr \<Rightarrow> 'w vfs_state \<Rightarrow> ((int + file_ptr) \<times> 'w vfs_state) option" where
  "fd_array_found p s = do {
     x \<leftarrow> file_at s p;
     kassert (fopen_count x = 0);
     Some (Inr p, upd_file p (\<lambda>x. x\<lparr>status := FD_INIT, node := None\<rparr>) s) }"

definition fd_array_alloc :: "int \<Rightarrow> 'w vfs_state \<Rightarrow> ((int + file_ptr) \<times> 'w vfs_state) option" where
  "fd_array_alloc d s = do {
     f \<leftarrow> get_fd_array s;
     fs \<leftarrow> files s f;
     if d = NO_FD then
       (case find (\<lambda>i. status (fd_array fs i) = FD_NONE) [0..<FILES_STRUCT_NENTRY] of
          None \<Rightarrow> Some (Inl (err E_MAX_OPEN), s)
        | Some i \<Rightarrow> fd_array_found (f, i) s)
     else if testfd d then
       if status (fd_array fs (nat d)) = FD_NONE then fd_array_found (f, nat d) s
       else Some (Inl (err E_BUSY), s)
     else Some (Inl (err E_INVAL), s) }"

definition fd_array_free :: "'w vtab \<Rightarrow> file_ptr \<Rightarrow> 'w vfs_state \<Rightarrow> 'w vfs_state option" where
  "fd_array_free V p s = do {
     x \<leftarrow> file_at s p;
     kassert (status x = FD_INIT \<or> status x = FD_CLOSED);
     kassert (fopen_count x = 0);
     s \<leftarrow> (if status x = FD_CLOSED then do { (_, s) \<leftarrow> vfs_close V (node x) s; Some s } else Some s);
     Some (upd_file p (\<lambda>x. x\<lparr>status := FD_NONE\<rparr>) s) }"

definition fopen_count_inc :: "file_ptr \<Rightarrow> 'w vfs_state \<Rightarrow> 'w vfs_state" where
  "fopen_count_inc p s = upd_file p (\<lambda>x. x\<lparr>fopen_count := fopen_count x + 1\<rparr>) s"

definition fopen_count_dec :: "file_ptr \<Rightarrow> 'w vfs_state \<Rightarrow> 'w vfs_state" where
  "fopen_count_dec p s = upd_file p (\<lambda>x. x\<lparr>fopen_count := fopen_count x - 1\<rparr>) s"

definition fd_array_acquire :: "file_ptr \<Rightarrow> 'w vfs_state \<Rightarrow> 'w vfs_state option" where
  "fd_array_acquire p s = do {
     x \<leftarrow> file_at s p;
     kassert (status x = FD_OPENED);
     Some (fopen_count_inc p s) }"

definition fd_array_release :: "'w vtab \<Rightarrow> file_ptr \<Rightarrow> 'w vfs_state \<Rightarrow> 'w vfs_state option" where
  "fd_array_release V p s = do {
     x \<leftarrow> file_at s p;
     kassert (status x = FD_OPENED \<or> status x = FD_CLOSED);
     kassert (fopen_count x > 0);
     let s = fopen_count_dec p s;
     if fopen_count x - 1 = 0 then fd_array_free V p s else Some s }"

definition fd_array_open :: "file_ptr \<Rightarrow> 'w vfs_state \<Rightarrow> 'w vfs_state option" where
  "fd_array_open p s = do {
     x \<leftarrow> file_at s p;
     kassert (status x = FD_INIT \<and> node x \<noteq> None);
     Some (fopen_count_inc p (upd_file p (\<lambda>x. x\<lparr>status := FD_OPENED\<rparr>) s)) }"

definition fd_array_close :: "'w vtab \<Rightarrow> file_ptr \<Rightarrow> 'w vfs_state \<Rightarrow> 'w vfs_state option" where
  "fd_array_close V p s = do {
     x \<leftarrow> file_at s p;
     kassert (status x = FD_OPENED);
     kassert (fopen_count x > 0);
     let s = fopen_count_dec p (upd_file p (\<lambda>x. x\<lparr>status := FD_CLOSED\<rparr>) s);
     if fopen_count x - 1 = 0 then fd_array_free V p s else Some s }"

definition fd_array_dup :: "file_ptr \<Rightarrow> file_ptr \<Rightarrow> 'w vfs_state \<Rightarrow> 'w vfs_state option" where
  "fd_array_dup to_p from_p s = do {
     to_x \<leftarrow> file_at s to_p;
     from_x \<leftarrow> file_at s from_p;
     kassert (status to_x = FD_INIT \<and> status from_x = FD_OPENED);
     let s = upd_file to_p (\<lambda>x. x\<lparr>pos := pos from_x, readable := readable from_x, writable := writable from_x\<rparr>) s;
     n \<leftarrow> node from_x;
     (_, s) \<leftarrow> inode_ref_inc n s;
     (_, s) \<leftarrow> inode_open_inc n s;
     fd_array_open to_p (upd_file to_p (\<lambda>x. x\<lparr>node := Some n\<rparr>) s) }"

definition fd2file :: "int \<Rightarrow> 'w vfs_state \<Rightarrow> (int + file_ptr) option" where
  "fd2file d s =
     (if testfd d then do {
        f \<leftarrow> get_fd_array s;
        x \<leftarrow> file_at s (f, nat d);
        Some (if status x = FD_OPENED \<and> fd x = d then Inr (f, nat d) else Inl (err E_INVAL)) }
      else Some (Inl (err E_INVAL)))"

definition file_testfd :: "int \<Rightarrow> bool \<Rightarrow> bool \<Rightarrow> 'w vfs_state \<Rightarrow> bool option" where
  "file_testfd d rd wr s = do {
     r \<leftarrow> fd2file d s;
     (case r of
        Inl _ \<Rightarrow> Some False
      | Inr p \<Rightarrow> do {
          x \<leftarrow> file_at s p;
          Some (\<not> (rd \<and> \<not> readable x) \<and> \<not> (wr \<and> \<not> writable x)) }) }"

section \<open>Operations on open files\<close>

definition file_open_at ::
  "'w vtab \<Rightarrow> u32 \<Rightarrow> bool \<Rightarrow> bool \<Rightarrow> file_ptr \<Rightarrow> inode_ptr option \<Rightarrow> 'w vfs_state \<Rightarrow> (int \<times> 'w vfs_state) option" where
  "file_open_at V open_flags rd wr p nd s = do {
     let s = upd_file p (\<lambda>x. x\<lparr>pos := 0\<rparr>) s;
     (ret, s) \<leftarrow>
       (if open_flags AND O_APPEND \<noteq> 0 then do {
          (n, f) \<leftarrow> vop_op V op_fstat nd s;
          (ret, st, s) \<leftarrow> f n s;
          if ret \<noteq> 0 then do {
            (_, s) \<leftarrow> vfs_close V nd s;
            s \<leftarrow> fd_array_free V p s;
            Some (ret, s) }
          else Some (0, upd_file p (\<lambda>x. x\<lparr>pos := st_size st\<rparr>) s) }
        else Some (0, s));
     if ret \<noteq> 0 then Some (ret, s)
     else do {
       s \<leftarrow> fd_array_open p (upd_file p (\<lambda>x. x\<lparr>node := nd, readable := rd, writable := wr\<rparr>) s);
       x \<leftarrow> file_at s p;
       Some (fd x, s) } }"

definition file_open :: "'w vtab \<Rightarrow> cstring \<Rightarrow> u32 \<Rightarrow> 'w vfs_state \<Rightarrow> (int \<times> 'w vfs_state) option" where
  "file_open V path open_flags s =
     (let acc = open_flags AND O_ACCMODE in
      if acc \<notin> {O_RDONLY, O_WRONLY, O_RDWR} then Some (err E_INVAL, s)
      else do {
        (r, s) \<leftarrow> fd_array_alloc NO_FD s;
        (case r of
           Inl ret \<Rightarrow> Some (ret, s)
         | Inr p \<Rightarrow> do {
             (r, s) \<leftarrow> vfs_open V path open_flags s;
             (case r of
                Inl ret \<Rightarrow> do { s \<leftarrow> fd_array_free V p s; Some (ret, s) }
              | Inr nd \<Rightarrow> file_open_at V open_flags (acc = O_RDONLY \<or> acc = O_RDWR) (acc = O_WRONLY \<or> acc = O_RDWR) p nd s) }) })"

definition file_close :: "'w vtab \<Rightarrow> int \<Rightarrow> 'w vfs_state \<Rightarrow> (int \<times> 'w vfs_state) option" where
  "file_close V d s = do {
     r \<leftarrow> fd2file d s;
     (case r of
        Inl ret \<Rightarrow> Some (ret, s)
      | Inr p \<Rightarrow> do { s \<leftarrow> fd_array_close V p s; Some (0, s) }) }"

text \<open>What \<open>file_read\<close> and \<open>file_write\<close> share: the call of the inode with a buffer at the position of the file.\<close>

definition file_io ::
  "'w vtab \<Rightarrow> ('w inode_ops \<Rightarrow> (inode_ptr \<Rightarrow> iobuf \<Rightarrow> 'w vfs_state \<Rightarrow> (int \<times> iobuf \<times> 'w vfs_state) option) option) \<Rightarrow>
   file_ptr \<Rightarrow> u32 \<Rightarrow> u32 \<Rightarrow> 'w vfs_state \<Rightarrow> (int \<times> u32 \<times> 'w vfs_state) option" where
  "file_io V op p base len s = do {
     s \<leftarrow> fd_array_acquire p s;
     x \<leftarrow> file_at s p;
     (n, f) \<leftarrow> vop_op V op (node x) s;
     (ret, iob, s) \<leftarrow> f n (iobuf_init base len (pos x)) s;
     let copied = iobuf_used iob;
     x \<leftarrow> file_at s p;
     let s = (if status x = FD_OPENED then upd_file p (\<lambda>x. x\<lparr>pos := pos x + copied\<rparr>) s else s);
     s \<leftarrow> fd_array_release V p s;
     Some (ret, copied, s) }"

definition file_read :: "'w vtab \<Rightarrow> int \<Rightarrow> u32 \<Rightarrow> u32 \<Rightarrow> 'w vfs_state \<Rightarrow> (int \<times> u32 \<times> 'w vfs_state) option" where
  "file_read V d base len s = do {
     r \<leftarrow> fd2file d s;
     (case r of
        Inl ret \<Rightarrow> Some (ret, 0, s)
      | Inr p \<Rightarrow> do {
          x \<leftarrow> file_at s p;
          if \<not> readable x then Some (err E_INVAL, 0, s) else file_io V op_read p base len s }) }"

definition file_write :: "'w vtab \<Rightarrow> int \<Rightarrow> u32 \<Rightarrow> u32 \<Rightarrow> 'w vfs_state \<Rightarrow> (int \<times> u32 \<times> 'w vfs_state) option" where
  "file_write V d base len s = do {
     r \<leftarrow> fd2file d s;
     (case r of
        Inl ret \<Rightarrow> Some (ret, 0, s)
      | Inr p \<Rightarrow> do {
          x \<leftarrow> file_at s p;
          if \<not> writable x then Some (err E_INVAL, 0, s) else file_io V op_write p base len s }) }"

definition LSEEK_SET :: int where "LSEEK_SET = 0"
definition LSEEK_CUR :: int where "LSEEK_CUR = 1"
definition LSEEK_END :: int where "LSEEK_END = 2"

definition file_seek :: "'w vtab \<Rightarrow> int \<Rightarrow> u32 \<Rightarrow> int \<Rightarrow> 'w vfs_state \<Rightarrow> (int \<times> 'w vfs_state) option" where
  "file_seek V d off whence s = do {
     r \<leftarrow> fd2file d s;
     (case r of
        Inl ret \<Rightarrow> Some (ret, s)
      | Inr p \<Rightarrow> do {
          s \<leftarrow> fd_array_acquire p s;
          x \<leftarrow> file_at s p;
          (ret, off, s) \<leftarrow>
            (if whence = LSEEK_SET then Some (0, off, s)
             else if whence = LSEEK_CUR then Some (0, off + pos x, s)
             else if whence = LSEEK_END then do {
               (n, f) \<leftarrow> vop_op V op_fstat (node x) s;
               (ret, st, s) \<leftarrow> f n s;
               Some (ret, if ret = 0 then off + st_size st else off, s) }
             else Some (err E_INVAL, off, s));
          (ret, s) \<leftarrow>
            (if ret = 0 then do {
               x \<leftarrow> file_at s p;
               (n, f) \<leftarrow> vop_op V op_tryseek (node x) s;
               (ret, s) \<leftarrow> f n off s;
               Some (ret, if ret = 0 then upd_file p (\<lambda>x. x\<lparr>pos := off\<rparr>) s else s) }
             else Some (ret, s));
          s \<leftarrow> fd_array_release V p s;
          Some (ret, s) }) }"

definition no_stat :: kstat where
  "no_stat = \<lparr>st_mode = 0, st_nlinks = 0, st_blocks = 0, st_size = 0\<rparr>"

text \<open>The second result is what is stored through \<open>stat\<close>; it is only meaningful when the first is 0.\<close>

definition file_fstat :: "'w vtab \<Rightarrow> int \<Rightarrow> 'w vfs_state \<Rightarrow> (int \<times> kstat \<times> 'w vfs_state) option" where
  "file_fstat V d s = do {
     r \<leftarrow> fd2file d s;
     (case r of
        Inl ret \<Rightarrow> Some (ret, no_stat, s)
      | Inr p \<Rightarrow> do {
          s \<leftarrow> fd_array_acquire p s;
          x \<leftarrow> file_at s p;
          (n, f) \<leftarrow> vop_op V op_fstat (node x) s;
          (ret, st, s) \<leftarrow> f n s;
          s \<leftarrow> fd_array_release V p s;
          Some (ret, st, s) }) }"

definition file_fsync :: "'w vtab \<Rightarrow> int \<Rightarrow> 'w vfs_state \<Rightarrow> (int \<times> 'w vfs_state) option" where
  "file_fsync V d s = do {
     r \<leftarrow> fd2file d s;
     (case r of
        Inl ret \<Rightarrow> Some (ret, s)
      | Inr p \<Rightarrow> do {
          s \<leftarrow> fd_array_acquire p s;
          x \<leftarrow> file_at s p;
          (n, f) \<leftarrow> vop_op V op_fsync (node x) s;
          (ret, s) \<leftarrow> f n s;
          s \<leftarrow> fd_array_release V p s;
          Some (ret, s) }) }"

text \<open>A \<open>struct dirent\<close> is the address of its name with its offset; the name has 256 bytes.\<close>

definition file_getdirentry :: "'w vtab \<Rightarrow> int \<Rightarrow> u32 \<Rightarrow> u32 \<Rightarrow> 'w vfs_state \<Rightarrow> (int \<times> u32 \<times> 'w vfs_state) option" where
  "file_getdirentry V d name offset s = do {
     r \<leftarrow> fd2file d s;
     (case r of
        Inl ret \<Rightarrow> Some (ret, offset, s)
      | Inr p \<Rightarrow> do {
          s \<leftarrow> fd_array_acquire p s;
          x \<leftarrow> file_at s p;
          (n, f) \<leftarrow> vop_op V op_getdirentry (node x) s;
          (ret, iob, s) \<leftarrow> f n (iobuf_init name 256 offset) s;
          s \<leftarrow> fd_array_release V p s;
          Some (ret, if ret = 0 then offset + iobuf_used iob else offset, s) }) }"

definition file_dup :: "int \<Rightarrow> int \<Rightarrow> 'w vfs_state \<Rightarrow> (int \<times> 'w vfs_state) option" where
  "file_dup fd1 fd2 s = do {
     r \<leftarrow> fd2file fd1 s;
     (case r of
        Inl ret \<Rightarrow> Some (ret, s)
      | Inr p1 \<Rightarrow> do {
          (r, s) \<leftarrow> fd_array_alloc fd2 s;
          (case r of
             Inl ret \<Rightarrow> Some (ret, s)
           | Inr p2 \<Rightarrow> do {
               s \<leftarrow> fd_array_dup p2 p1 s;
               x \<leftarrow> file_at s p2;
               Some (fd x, s) }) }) }"

section \<open>The life of a table\<close>

definition no_file :: kfile where
  "no_file = \<lparr>status = FD_NONE, readable = False, writable = False, fd = 0, pos = 0, node = None, fopen_count = 0\<rparr>"

text \<open>The pointer that \<open>kmalloc\<close> returned is the argument \<open>p\<close>; the new entries are \<open>garbage\<close> before they are initialised.\<close>

definition files_create :: "files_ptr option \<Rightarrow> (nat \<Rightarrow> kfile) \<Rightarrow> 'w vfs_state \<Rightarrow> files_ptr option \<times> 'w vfs_state" where
  "files_create p garbage s =
     (case p of
        None \<Rightarrow> (None, s)
      | Some f \<Rightarrow> (Some f, s\<lparr>files := (files s)(f \<mapsto>
          \<lparr>pwd = None, fd_array = fd_array_init garbage, files_count = 0, files_sem = 1\<rparr>)\<rparr>))"

fun destroy_loop :: "'w vtab \<Rightarrow> files_ptr \<Rightarrow> nat list \<Rightarrow> 'w vfs_state \<Rightarrow> 'w vfs_state option" where
  "destroy_loop V f [] s = Some s"
| "destroy_loop V f (i # is) s = do {
     x \<leftarrow> file_at s (f, i);
     s \<leftarrow> (if status x = FD_OPENED then fd_array_close V (f, i) s else Some s);
     x \<leftarrow> file_at s (f, i);
     kassert (status x = FD_NONE);
     destroy_loop V f is s }"

definition files_destroy :: "'w vtab \<Rightarrow> files_ptr \<Rightarrow> 'w vfs_state \<Rightarrow> 'w vfs_state option" where
  "files_destroy V f s = do {
     fs \<leftarrow> files s f;
     kassert (files_count fs = 0);
     s \<leftarrow> (case pwd fs of Some n \<Rightarrow> do { (_, s) \<leftarrow> inode_ref_dec V n s; Some s } | None \<Rightarrow> Some s);
     s \<leftarrow> destroy_loop V f [0..<FILES_STRUCT_NENTRY] s;
     Some (s\<lparr>files := (files s)(f := None)\<rparr>) }"

fun closeall_loop :: "'w vtab \<Rightarrow> files_ptr \<Rightarrow> nat list \<Rightarrow> 'w vfs_state \<Rightarrow> 'w vfs_state option" where
  "closeall_loop V f [] s = Some s"
| "closeall_loop V f (i # is) s = do {
     x \<leftarrow> file_at s (f, i);
     s \<leftarrow> (if status x = FD_OPENED then fd_array_close V (f, i) s else Some s);
     closeall_loop V f is s }"

definition files_closeall :: "'w vtab \<Rightarrow> files_ptr \<Rightarrow> 'w vfs_state \<Rightarrow> 'w vfs_state option" where
  "files_closeall V f s = do {
     fs \<leftarrow> files s f;
     kassert (files_count fs > 0);
     closeall_loop V f [2..<FILES_STRUCT_NENTRY] s }"

fun dup_loop :: "files_ptr \<Rightarrow> files_ptr \<Rightarrow> nat list \<Rightarrow> 'w vfs_state \<Rightarrow> 'w vfs_state option" where
  "dup_loop to_f from_f [] s = Some s"
| "dup_loop to_f from_f (i # is) s = do {
     x \<leftarrow> file_at s (from_f, i);
     s \<leftarrow> (if status x = FD_OPENED
          then fd_array_dup (to_f, i) (from_f, i) (upd_file (to_f, i) (\<lambda>x. x\<lparr>status := FD_INIT\<rparr>) s)
          else Some s);
     dup_loop to_f from_f is s }"

definition dup_fs :: "files_ptr \<Rightarrow> files_ptr \<Rightarrow> 'w vfs_state \<Rightarrow> (int \<times> 'w vfs_state) option" where
  "dup_fs to_f from_f s = do {
     to_fs \<leftarrow> files s to_f;
     from_fs \<leftarrow> files s from_f;
     kassert (files_count to_fs = 0 \<and> files_count from_fs > 0);
     let s = s\<lparr>files := (files s)(to_f \<mapsto> to_fs\<lparr>pwd := pwd from_fs\<rparr>)\<rparr>;
     s \<leftarrow> (case pwd from_fs of Some n \<Rightarrow> do { (_, s) \<leftarrow> inode_ref_inc n s; Some s } | None \<Rightarrow> Some s);
     s \<leftarrow> dup_loop to_f from_f [0..<FILES_STRUCT_NENTRY] s;
     Some (0, s) }"

definition files_count_inc :: "files_ptr \<Rightarrow> 'w vfs_state \<Rightarrow> (int \<times> 'w vfs_state) option" where
  "files_count_inc f s = do {
     fs \<leftarrow> files s f;
     Some (files_count fs + 1, s\<lparr>files := (files s)(f \<mapsto> fs\<lparr>files_count := files_count fs + 1\<rparr>)\<rparr>) }"

definition files_count_dec :: "files_ptr \<Rightarrow> 'w vfs_state \<Rightarrow> (int \<times> 'w vfs_state) option" where
  "files_count_dec f s = do {
     fs \<leftarrow> files s f;
     Some (files_count fs - 1, s\<lparr>files := (files s)(f \<mapsto> fs\<lparr>files_count := files_count fs - 1\<rparr>)\<rparr>) }"

definition CLONE_FS :: u32 where "CLONE_FS = 0x800"

text \<open>\<open>copy_fs\<close> gives the table that becomes \<open>proc->filesp\<close>.\<close>

definition copy_fs ::
  "'w vtab \<Rightarrow> files_ptr option \<Rightarrow> (nat \<Rightarrow> kfile) \<Rightarrow> u32 \<Rightarrow> 'w vfs_state \<Rightarrow> ((int + files_ptr) \<times> 'w vfs_state) option" where
  "copy_fs V p garbage clone_flags s = do {
     old \<leftarrow> cur_files s;
     if clone_flags AND CLONE_FS \<noteq> 0 then do { (_, s) \<leftarrow> files_count_inc old s; Some (Inr old, s) }
     else do {
       let (r, s) = files_create p garbage s;
       (case r of
          None \<Rightarrow> Some (Inl (err E_NO_MEM), s)
        | Some f \<Rightarrow> do {
            (ret, s) \<leftarrow> dup_fs f old s;
            if ret \<noteq> 0 then do { s \<leftarrow> files_destroy V f s; Some (Inl ret, s) }
            else do { (_, s) \<leftarrow> files_count_inc f s; Some (Inr f, s) } }) } }"

definition put_fs :: "'w vtab \<Rightarrow> files_ptr option \<Rightarrow> 'w vfs_state \<Rightarrow> 'w vfs_state option" where
  "put_fs V fp s =
     (case fp of
        None \<Rightarrow> Some s
      | Some f \<Rightarrow> do {
          (c, s) \<leftarrow> files_count_dec f s;
          if c = 0 then files_destroy V f s else Some s })"

end
