(* ===== verification/File_inv.thy ===== *)
theory File_inv
  imports File
begin

text \<open>
  The accounting of open files.  Every open entry of a table holds one reference and one open count of its inode;
  the counts of an entry are its own and one for each operation in progress on it.  The invariant is relative to a
  ledger: which operations are in progress (\<open>pins\<close>), which entries are being released (\<open>dying\<close>), and how many
  references and open counts of an inode belong to somebody else than a table (\<open>xref\<close>, \<open>xopen\<close>).
\<close>

section \<open>The invariant\<close>

record ledger =
  pins :: "file_ptr \<Rightarrow> nat"
  dying :: "file_ptr set"
  xref :: "inode_ptr \<Rightarrow> int"
  xopen :: "inode_ptr \<Rightarrow> int"

definition pin :: "file_ptr \<Rightarrow> ledger \<Rightarrow> ledger" where
  "pin p g = g\<lparr>pins := (pins g)(p := Suc (pins g p))\<rparr>"

definition owe :: "inode_ptr \<Rightarrow> int \<Rightarrow> int \<Rightarrow> ledger \<Rightarrow> ledger" where
  "owe n a b g = g\<lparr>xref := (xref g)(n := xref g n + a), xopen := (xopen g)(n := xopen g n + b)\<rparr>"

definition die :: "file_ptr \<Rightarrow> ledger \<Rightarrow> ledger" where
  "die p g = g\<lparr>dying := insert p (dying g)\<rparr>"

definition slot_ok :: "ledger \<Rightarrow> file_ptr \<Rightarrow> kfile \<Rightarrow> bool" where
  "slot_ok g p x \<longleftrightarrow> fd x = int (snd p) \<and>
     (if p \<in> dying g then status x = FD_CLOSED \<and> fopen_count x = 0 \<and> pins g p = 0
      else fopen_count x = (if status x = FD_OPENED then 1 else 0) + int (pins g p) \<and>
        (status x = FD_NONE \<or> status x = FD_INIT \<longrightarrow> pins g p = 0) \<and>
        (status x = FD_CLOSED \<longrightarrow> pins g p > 0) \<and>
        (status x = FD_OPENED \<or> status x = FD_CLOSED \<longrightarrow> node x \<noteq> None))"

definition holds :: "ledger \<Rightarrow> file_ptr \<Rightarrow> kfile \<Rightarrow> inode_ptr \<Rightarrow> bool" where
  "holds g p x n \<longleftrightarrow> p \<notin> dying g \<and> (status x = FD_OPENED \<or> status x = FD_CLOSED) \<and> node x = Some n"

definition holders :: "ledger \<Rightarrow> 'w vfs_state \<Rightarrow> inode_ptr \<Rightarrow> file_ptr set" where
  "holders g s n = {p. snd p < FILES_STRUCT_NENTRY \<and> (\<exists>x. file_at s p = Some x \<and> holds g p x n)}"

definition file_inv :: "ledger \<Rightarrow> 'w vfs_state \<Rightarrow> bool" where
  "file_inv g s \<longleftrightarrow> finite (dom (files s)) \<and> (\<forall>p \<in> dying g. file_at s p \<noteq> None) \<and>
     (\<forall>p x. snd p < FILES_STRUCT_NENTRY \<and> file_at s p = Some x \<longrightarrow> slot_ok g p x) \<and>
     (\<forall>n. 0 \<le> xref g n \<and> 0 \<le> xopen g n) \<and>
     (\<forall>n x. inodes s n = Some x \<longrightarrow> ref_count x = int (card (holders g s n)) + xref g n \<and>
        open_count x = int (card (holders g s n)) + xopen g n) \<and>
     (\<forall>n. inodes s n = None \<longrightarrow> holders g s n = {} \<and> xref g n = 0 \<and> xopen g n = 0)"

section \<open>Single updates\<close>

lemma ledger_sel [simp]:
  "pins (pin p g) = (pins g)(p := Suc (pins g p))" "dying (pin p g) = dying g" "xref (pin p g) = xref g" "xopen (pin p g) = xopen g"
  "pins (owe n a b g) = pins g" "dying (owe n a b g) = dying g"
  "xref (owe n a b g) = (xref g)(n := xref g n + a)" "xopen (owe n a b g) = (xopen g)(n := xopen g n + b)"
  "pins (die p g) = pins g" "dying (die p g) = insert p (dying g)" "xref (die p g) = xref g" "xopen (die p g) = xopen g"
  by (simp_all add: pin_def owe_def die_def)

lemma owe_owe [simp]: "owe n a b (owe n c d g) = owe n (c + a) (d + b) g"
  by (simp add: owe_def add.assoc)

lemma owe_0 [simp]: "owe n 0 0 g = g"
  by (simp add: owe_def)

lemma file_at_upd [simp]:
  "file_at (upd_file p h s) q = (if q = p then map_option h (file_at s p) else file_at s q)"
  by (cases "files s (fst p)"; cases p; cases q) (auto simp: file_at_def upd_file_def)

lemma upd_file_sel [simp]:
  "inodes (upd_file p h s) = inodes s" "dom (files (upd_file p h s)) = dom (files s)" "cur_files (upd_file p h s) = cur_files s"
  by (auto simp: upd_file_def dom_def)

lemma upd_inode_sel [simp]:
  "inodes (upd_inode n h s) = (inodes s)(n := map_option h (inodes s n))" "files (upd_inode n h s) = files s"
  "file_at (upd_inode n h s) = file_at s" "cur_files (upd_inode n h s) = cur_files s"
  by (auto simp: upd_inode_def file_at_def)

lemma holders_finite: "finite (dom (files s)) \<Longrightarrow> finite (holders g s n)"
proof -
  have "holders g s n \<subseteq> dom (files s) \<times> {..<FILES_STRUCT_NENTRY}"
    by (auto simp: holders_def file_at_def)
  then show "finite (dom (files s)) \<Longrightarrow> ?thesis" using finite_subset by blast
qed

lemma file_invD:
  assumes "file_inv g s"
  shows "finite (holders g s n)" "p \<in> dying g \<Longrightarrow> file_at s p \<noteq> None" "snd p < FILES_STRUCT_NENTRY \<Longrightarrow> file_at s p = Some x \<Longrightarrow> slot_ok g p x"
    "0 \<le> xref g n" "0 \<le> xopen g n"
    "inodes s n = Some y \<Longrightarrow> ref_count y = int (card (holders g s n)) + xref g n"
    "inodes s n = Some y \<Longrightarrow> open_count y = int (card (holders g s n)) + xopen g n"
    "inodes s n = None \<Longrightarrow> holders g s n = {}" "inodes s n = None \<Longrightarrow> xref g n = 0" "inodes s n = None \<Longrightarrow> xopen g n = 0"
  using assms holders_finite [of s g n] unfolding file_inv_def by blast+

text \<open>An entry changes from \<open>x\<close> to \<open>h x\<close>: what it no longer holds goes to the ledger.\<close>

lemma holders_upd:
  assumes "file_at s p = Some x" "snd p < FILES_STRUCT_NENTRY"
    and "\<And>q. q \<noteq> p \<Longrightarrow> q \<in> dying g' \<longleftrightarrow> q \<in> dying g"
  shows "holders g' (upd_file p h s) n = holders g s n - {p} \<union> (if holds g' p (h x) n then {p} else {})"
  using assms by (auto simp: holders_def holds_def split: if_splits)

lemma inv_slot:
  assumes inv: "file_inv g s" and p: "file_at s p = Some x" "snd p < FILES_STRUCT_NENTRY"
    and ok: "slot_ok g' p (h x)"
    and others: "\<And>q. q \<noteq> p \<Longrightarrow> pins g' q = pins g q \<and> (q \<in> dying g' \<longleftrightarrow> q \<in> dying g)"
    and r: "\<And>n. of_bool (holds g' p (h x) n) + xref g' n = of_bool (holds g p x n) + xref g n"
    and o: "\<And>n. of_bool (holds g' p (h x) n) + xopen g' n = of_bool (holds g p x n) + xopen g n"
    and nn: "\<And>n. 0 \<le> xref g' n" "\<And>n. 0 \<le> xopen g' n"
  shows "file_inv g' (upd_file p h s)"
proof -
  have H: "holders g' (upd_file p h s) n = holders g s n - {p} \<union> (if holds g' p (h x) n then {p} else {})" for n
    by (rule holders_upd [OF p]) (use others in auto)
  have old: "p \<in> holders g s n \<longleftrightarrow> holds g p x n" for n using p by (simp add: holders_def)
  have c: "int (card (holders g' (upd_file p h s) n)) + of_bool (holds g p x n) = int (card (holders g s n)) + of_bool (holds g' p (h x) n)" for n
    using card_Diff_singleton_if [of "holders g s n" p] card_gt_0_iff [of "holders g s n"] file_invD(1) [OF inv, of n] old [of n]
    by (auto simp: H card_insert_if)
  have "slot_ok g' q y" if "snd q < FILES_STRUCT_NENTRY" "file_at (upd_file p h s) q = Some y" for q y
    using that file_invD(3) [OF inv, of q y] ok p others [of q] by (cases "q = p") (auto simp: slot_ok_def)
  moreover have "ref_count y = int (card (holders g' (upd_file p h s) n)) + xref g' n \<and>
      open_count y = int (card (holders g' (upd_file p h s) n)) + xopen g' n" if "inodes s n = Some y" for n y
    using file_invD(6,7) [OF inv that] c [of n] r [of n] o [of n] by linarith
  moreover have "holders g' (upd_file p h s) n = {} \<and> xref g' n = 0 \<and> xopen g' n = 0" if "inodes s n = None" for n
  proof -
    have z: "holders g s n = {}" "xref g n = 0" "xopen g n = 0" using file_invD(8,9,10) [OF inv that] by auto
    then have "\<not> holds g p x n" using old by blast
    then have "\<not> holds g' p (h x) n \<and> xref g' n = 0 \<and> xopen g' n = 0"
      using z r [of n] o [of n] nn [of n] by (cases "holds g' p (h x) n") auto
    then show ?thesis by (simp add: H z)
  qed
  moreover have "file_at (upd_file p h s) q \<noteq> None" if "q \<in> dying g'" for q
    using file_invD(2) [OF inv, of q] others [of q] p that by (cases "q = p") auto
  ultimately show ?thesis using inv nn unfolding file_inv_def upd_file_sel by blast
qed

text \<open>The counts of an inode change, and the ledger with them.\<close>

lemma inv_inode:
  assumes inv: "file_inv g s" and n: "inodes s n = Some y"
    and h: "ref_count (h y) = ref_count y + a" "open_count (h y) = open_count y + b"
    and nn: "0 \<le> xref g n + a" "0 \<le> xopen g n + b"
  shows "file_inv (owe n a b g) (upd_inode n h s)"
proof -
  have H: "holders (owe n a b g) (upd_inode n h s) m = holders g s m" for m by (simp add: holders_def holds_def)
  have S: "slot_ok (owe n a b g) p x = slot_ok g p x" for p x by (simp add: slot_ok_def)
  show ?thesis using inv n h nn by (auto simp: file_inv_def H S)
qed

text \<open>Fields that do not count.\<close>

lemma upd_file_none: "file_at s p = None \<Longrightarrow> upd_file p h s = s"
  by (cases "files s (fst p)") (auto simp: file_at_def upd_file_def intro!: vfs_state.equality)

lemma inv_field:
  assumes inv: "file_inv g s" and p: "snd p < FILES_STRUCT_NENTRY"
    and h: "\<And>x. file_at s p = Some x \<Longrightarrow> fd (h x) = fd x \<and> fopen_count (h x) = fopen_count x \<and> status (h x) = status x \<and>
      (status x \<noteq> FD_INIT \<longrightarrow> node (h x) = node x)"
  shows "file_inv g (upd_file p h s)"
proof (cases "file_at s p")
  case None
  then show ?thesis using inv upd_file_none by metis
next
  case (Some x)
  show ?thesis
    by (rule inv_slot [OF inv Some p]) (use h [OF Some] file_invD(3) [OF inv p Some] file_invD(4,5) [OF inv] in \<open>auto simp: slot_ok_def holds_def\<close>)
qed

section \<open>Counting\<close>

lemma bind2E:
  assumes "Option.bind m (\<lambda>(a, b). f a b) = Some y"
  obtains a b where "m = Some (a, b)" "f a b = Some y"
  using assms by (cases m) auto

lemma bind3E:
  assumes "Option.bind m (\<lambda>(a, b, c). f a b c) = Some y"
  obtains a b c where "m = Some (a, b, c)" "f a b c = Some y"
  using assms by (cases m) auto

lemma vop_opD: "vop_op V slot nd s = Some (n, f) \<Longrightarrow> nd = Some n \<and> (\<exists>p. slot (node_ops V p) = Some f)"
  by (auto simp: vop_op_def bind_eq_Some_conv)

lemma ref_inc_inv:
  assumes "file_inv g s" "inode_ref_inc n s = Some (c, s')"
  shows "file_inv (owe n 1 0 g) s'"
proof -
  obtain y where y: "inodes s n = Some y" "s' = upd_inode n (\<lambda>x. x\<lparr>ref_count := ref_count x + 1\<rparr>) s"
    using assms(2) by (auto simp: inode_ref_inc_def bind_eq_Some_conv)
  show ?thesis unfolding y(2)
    by (rule inv_inode [OF assms(1) y(1)]) (use file_invD(4,5) [OF assms(1), of n] in auto)
qed

lemma open_inc_inv:
  assumes "file_inv g s" "inode_open_inc n s = Some (c, s')"
  shows "file_inv (owe n 0 1 g) s'"
proof -
  obtain y where y: "inodes s n = Some y" "s' = upd_inode n (\<lambda>x. x\<lparr>open_count := open_count x + 1\<rparr>) s"
    using assms(2) by (auto simp: inode_open_inc_def bind_eq_Some_conv)
  show ?thesis unfolding y(2)
    by (rule inv_inode [OF assms(1) y(1)]) (use file_invD(4,5) [OF assms(1), of n] in auto)
qed

section \<open>What the tables promise\<close>

text \<open>An operation keeps the books when it leaves the invariant as it is, for every ledger.\<close>

definition keeps :: "('w vfs_state \<Rightarrow> ('a \<times> 'w vfs_state) option) \<Rightarrow> bool" where
  "keeps f \<longleftrightarrow> (\<forall>g s r s'. file_inv g s \<longrightarrow> f s = Some (r, s') \<longrightarrow> file_inv g s')"

definition keeps2 :: "('w vfs_state \<Rightarrow> ('a \<times> 'b \<times> 'w vfs_state) option) \<Rightarrow> bool" where
  "keeps2 f \<longleftrightarrow> (\<forall>g s r t s'. file_inv g s \<longrightarrow> f s = Some (r, t, s') \<longrightarrow> file_inv g s')"

text \<open>An operation that hands out an inode hands out a reference to it.\<close>

fun owed :: "inode_ptr option \<Rightarrow> ledger \<Rightarrow> ledger" where
  "owed None g = g"
| "owed (Some n) g = owe n 1 0 g"

locale inode_contract =
  fixes V :: "'w vtab"
  assumes open_keeps: "op_open (node_ops V p) = Some f1 \<Longrightarrow> keeps (f1 n flags)"
    and close_keeps: "op_close (node_ops V p) = Some f2 \<Longrightarrow> keeps (f2 n)"
    and read_keeps: "op_read (node_ops V p) = Some f3 \<Longrightarrow> keeps2 (f3 n iob)"
    and write_keeps: "op_write (node_ops V p) = Some f3 \<Longrightarrow> keeps2 (f3 n iob)"
    and fstat_keeps: "op_fstat (node_ops V p) = Some f4 \<Longrightarrow> keeps2 (f4 n)"
    and fsync_keeps: "op_fsync (node_ops V p) = Some f2 \<Longrightarrow> keeps (f2 n)"
    and getdirentry_keeps: "op_getdirentry (node_ops V p) = Some f3 \<Longrightarrow> keeps2 (f3 n iob)"
    and reclaim_keeps: "op_reclaim (node_ops V p) = Some f2 \<Longrightarrow> keeps (f2 n)"
    and tryseek_keeps: "op_tryseek (node_ops V p) = Some f1 \<Longrightarrow> keeps (f1 n off)"
    and truncate_keeps: "op_truncate (node_ops V p) = Some f1 \<Longrightarrow> keeps (f1 n off)"
    and lookup_owes: "op_lookup (node_ops V p) = Some f5 \<Longrightarrow> file_inv g s \<Longrightarrow> f5 n path s = Some (r, nd, s') \<Longrightarrow>
      file_inv (if r = 0 then owed nd g else g) s'"
    and create_owes: "op_create (node_ops V p) = Some f6 \<Longrightarrow> file_inv g s \<Longrightarrow> f6 n path excl s = Some (r, nd, s') \<Longrightarrow>
      file_inv (owed nd g) s'"
    and root_owes: "file_inv g s \<Longrightarrow> fs_get_root (fs_ops_of V q) s = Some (nd, s') \<Longrightarrow> file_inv (owed nd g) s'"
begin

lemma ref_dec_inv:
  assumes inv: "file_inv (owe n 1 0 g) s" and d: "inode_ref_dec V n s = Some (c, s')" and nn: "0 \<le> xref g n"
  shows "file_inv g s'"
proof -
  let ?s = "upd_inode n (\<lambda>x. x\<lparr>ref_count := ref_count x - 1\<rparr>) s"
  obtain y where y: "inodes s n = Some y" using d by (auto simp: inode_ref_dec_def bind_eq_Some_conv)
  have "file_inv (owe n (-1) 0 (owe n 1 0 g)) ?s"
    by (rule inv_inode [OF inv y]) (use file_invD(5) [OF inv, of n] nn in auto)
  then have i: "file_inv g ?s" by simp
  show ?thesis
  proof (cases "ref_count y = 1")
    case True
    then obtain f r where "vop_op V op_reclaim (Some n) ?s = Some (n, f)" "f n ?s = Some (r, s')"
      using d y by (auto simp: inode_ref_dec_def kbind bind_eq_Some_conv Let_def vop_op_def)
    then show ?thesis using i reclaim_keeps by (auto simp: vop_op_def bind_eq_Some_conv keeps_def)
  next
    case False
    then have "s' = ?s" using d y by (auto simp: inode_ref_dec_def kbind Let_def)
    then show ?thesis using i by simp
  qed
qed

lemma open_dec_inv:
  assumes inv: "file_inv (owe n a 1 g) s" and d: "inode_open_dec V n s = Some (c, s')" and nn: "0 \<le> xopen g n"
  shows "file_inv (owe n a 0 g) s'"
proof -
  let ?s = "upd_inode n (\<lambda>x. x\<lparr>open_count := open_count x - 1\<rparr>) s"
  obtain y where y: "inodes s n = Some y" using d by (auto simp: inode_open_dec_def bind_eq_Some_conv)
  have "file_inv (owe n 0 (-1) (owe n a 1 g)) ?s"
    by (rule inv_inode [OF inv y]) (use file_invD(4) [OF inv, of n] nn in auto)
  then have i: "file_inv (owe n a 0 g) ?s" by simp
  show ?thesis
  proof (cases "open_count y = 1")
    case True
    then obtain f r where "vop_op V op_close (Some n) ?s = Some (n, f)" "f n ?s = Some (r, s')"
      using d y by (auto simp: inode_open_dec_def kbind bind_eq_Some_conv Let_def vop_op_def)
    then show ?thesis using i close_keeps by (auto simp: vop_op_def bind_eq_Some_conv keeps_def)
  next
    case False
    then have "s' = ?s" using d y by (auto simp: inode_open_dec_def kbind Let_def)
    then show ?thesis using i by simp
  qed
qed

lemma vfs_close_inv:
  assumes inv: "file_inv (owe n 1 1 g) s" and d: "vfs_close V (Some n) s = Some (r, s')"
    and nn: "0 \<le> xref g n" "0 \<le> xopen g n"
  shows "file_inv g s'"
proof -
  obtain c c' s1 where "inode_open_dec V n s = Some (c, s1)" "inode_ref_dec V n s1 = Some (c', s')"
    using d by (auto simp: vfs_close_def bind_eq_Some_conv)
  then show ?thesis using ref_dec_inv open_dec_inv [OF inv] nn by blast
qed

lemma free_closed:
  assumes inv: "file_inv (owe n 1 1 (die p g)) s" and x: "file_at s p = Some x" "status x = FD_CLOSED" "node x = Some n"
    and p: "snd p < FILES_STRUCT_NENTRY" "p \<notin> dying g" and nn: "\<And>m. 0 \<le> xref g m" "\<And>m. 0 \<le> xopen g m"
    and f: "fd_array_free V p s = Some s'"
  shows "file_inv g s'"
proof -
  obtain r s1 where c: "vfs_close V (Some n) s = Some (r, s1)" "s' = upd_file p (\<lambda>x. x\<lparr>status := FD_NONE\<rparr>) s1"
    using f x by (auto simp: fd_array_free_def kbind bind_eq_Some_conv)
  have i: "file_inv (die p g) s1" by (rule vfs_close_inv [OF inv c(1)]) (use nn in simp_all)
  then obtain y where y: "file_at s1 p = Some y" using file_invD(2) [OF i, of p] by auto
  show ?thesis unfolding c(2)
    by (rule inv_slot [OF i y p(1)]) (use file_invD(3) [OF i p(1) y] p(2) nn in \<open>auto simp: slot_ok_def holds_def\<close>)
qed

lemma release_inv:
  assumes inv: "file_inv (pin p g) s" and p: "snd p < FILES_STRUCT_NENTRY" and f: "fd_array_release V p s = Some s'"
  shows "file_inv g s'"
proof -
  let ?s = "fopen_count_dec p s"
  obtain x where x: "file_at s p = Some x" "status x = FD_OPENED \<or> status x = FD_CLOSED"
    using f by (auto simp: fd_array_release_def kbind bind_eq_Some_conv)
  have ok: "slot_ok (pin p g) p x" by (rule file_invD(3) [OF inv p x(1)])
  then have np: "p \<notin> dying g" by (auto simp: slot_ok_def)
  then obtain n where n: "node x = Some n" using ok x by (auto simp: slot_ok_def)
  note nn = file_invD(4,5) [OF inv, simplified]
  show ?thesis
  proof (cases "fopen_count x = 1")
    case True
    then have c: "status x = FD_CLOSED" "pins g p = 0" using ok x np by (auto simp: slot_ok_def)
    have d: "file_inv (owe n 1 1 (die p g)) ?s" unfolding fopen_count_dec_def
      by (rule inv_slot [OF inv x(1) p]) (use ok np c n nn True in \<open>auto simp: slot_ok_def holds_def\<close>)
    have f': "fd_array_free V p ?s = Some s'" using f x True by (simp add: fd_array_release_def kbind)
    show ?thesis
      by (rule free_closed [where x = "x\<lparr>fopen_count := fopen_count x - 1\<rparr>", OF d _ _ _ p np nn f'])
         (use x c n in \<open>auto simp: fopen_count_dec_def\<close>)
  next
    case False
    then have e: "s' = ?s" using f x by (auto simp: fd_array_release_def kbind bind_eq_Some_conv)
    show ?thesis unfolding e fopen_count_dec_def
      by (rule inv_slot [OF inv x(1) p]) (use ok np n nn False in \<open>auto simp: slot_ok_def holds_def\<close>)
  qed
qed

lemma close_inv:
  assumes inv: "file_inv g s" and p: "snd p < FILES_STRUCT_NENTRY" and f: "fd_array_close V p s = Some s'"
  shows "file_inv g s'"
proof -
  let ?s = "fopen_count_dec p (upd_file p (\<lambda>x. x\<lparr>status := FD_CLOSED\<rparr>) s)"
  let ?h = "\<lambda>x. x\<lparr>status := FD_CLOSED, fopen_count := fopen_count x - 1\<rparr>"
  obtain x where x: "file_at s p = Some x" "status x = FD_OPENED"
    using f by (auto simp: fd_array_close_def kbind bind_eq_Some_conv)
  have ok: "slot_ok g p x" by (rule file_invD(3) [OF inv p x(1)])
  then have np: "p \<notin> dying g" using x by (auto simp: slot_ok_def)
  then obtain n where n: "node x = Some n" using ok x by (auto simp: slot_ok_def)
  note nn = file_invD(4,5) [OF inv]
  have e: "?s = upd_file p ?h s"
    by (cases "files s (fst p)") (auto simp: fopen_count_dec_def upd_file_def intro!: vfs_state.equality)
  show ?thesis
  proof (cases "fopen_count x = 1")
    case True
    then have c: "pins g p = 0" using ok x np by (auto simp: slot_ok_def)
    have d: "file_inv (owe n 1 1 (die p g)) ?s" unfolding e
      by (rule inv_slot [OF inv x(1) p]) (use ok np c n nn True x in \<open>auto simp: slot_ok_def holds_def\<close>)
    have f': "fd_array_free V p ?s = Some s'" using f x True by (simp add: fd_array_close_def kbind)
    show ?thesis
      by (rule free_closed [where x = "?h x", OF d _ _ _ p np nn f']) (use x c n in \<open>auto simp: e\<close>)
  next
    case False
    then have e': "s' = ?s" using f x by (auto simp: fd_array_close_def kbind bind_eq_Some_conv)
    show ?thesis unfolding e' e
      by (rule inv_slot [OF inv x(1) p]) (use ok np n nn False x in \<open>auto simp: slot_ok_def holds_def\<close>)
  qed
qed

end

lemma acquire_inv:
  assumes inv: "file_inv g s" and p: "snd p < FILES_STRUCT_NENTRY" and f: "fd_array_acquire p s = Some s'"
  shows "file_inv (pin p g) s'"
proof -
  obtain x where x: "file_at s p = Some x" "status x = FD_OPENED" "s' = fopen_count_inc p s"
    using f by (auto simp: fd_array_acquire_def kbind bind_eq_Some_conv)
  have ok: "slot_ok g p x" by (rule file_invD(3) [OF inv p x(1)])
  show ?thesis unfolding x(3) fopen_count_inc_def
    by (rule inv_slot [OF inv x(1) p]) (use ok x file_invD(4,5) [OF inv] in \<open>auto simp: slot_ok_def holds_def\<close>)
qed

lemma fd_array_open_inv:
  assumes inv: "file_inv (owe n 1 1 g) s" and p: "snd p < FILES_STRUCT_NENTRY" and x: "file_at s p = Some x" "node x = Some n"
    and nn: "\<And>m. 0 \<le> xref g m" "\<And>m. 0 \<le> xopen g m" and f: "fd_array_open p s = Some s'"
  shows "file_inv g s'"
proof -
  let ?h = "\<lambda>x. x\<lparr>status := FD_OPENED, fopen_count := fopen_count x + 1\<rparr>"
  have i: "status x = FD_INIT" and "s' = fopen_count_inc p (upd_file p (\<lambda>x. x\<lparr>status := FD_OPENED\<rparr>) s)"
    using f x by (auto simp: fd_array_open_def kbind bind_eq_Some_conv)
  then have e: "s' = upd_file p ?h s"
    by (cases "files s (fst p)") (auto simp: fopen_count_inc_def upd_file_def intro!: vfs_state.equality)
  have ok: "slot_ok (owe n 1 1 g) p x" by (rule file_invD(3) [OF inv p x(1)])
  show ?thesis unfolding e
    by (rule inv_slot [OF inv x(1) p]) (use ok i x nn in \<open>auto simp: slot_ok_def holds_def split: if_splits\<close>)
qed

lemma found_inv:
  assumes inv: "file_inv g s" and p: "snd p < FILES_STRUCT_NENTRY" and x: "file_at s p = Some x" "status x = FD_NONE"
    and f: "fd_array_found p s = Some (r, s')"
  shows "file_inv g s' \<and> r = Inr p \<and> (\<exists>y. file_at s' p = Some y \<and> status y = FD_INIT) \<and>
    (\<forall>q. q \<noteq> p \<longrightarrow> file_at s' q = file_at s q)"
proof -
  have e: "r = Inr p" "s' = upd_file p (\<lambda>x. x\<lparr>status := FD_INIT, node := None\<rparr>) s"
    using f x by (auto simp: fd_array_found_def kbind)
  have "file_inv g s'" unfolding e(2)
    by (rule inv_slot [OF inv x(1) p])
       (use file_invD(3) [OF inv p x(1)] x file_invD(4,5) [OF inv] in \<open>auto simp: slot_ok_def holds_def\<close>)
  then show ?thesis using e x by simp
qed

lemma alloc_inv:
  assumes inv: "file_inv g s" and f: "fd_array_alloc d s = Some (r, s')"
  shows "file_inv g s' \<and> (case r of Inl _ \<Rightarrow> s' = s
    | Inr p \<Rightarrow> snd p < FILES_STRUCT_NENTRY \<and> (\<exists>x. file_at s p = Some x \<and> status x = FD_NONE) \<and>
        (\<exists>y. file_at s' p = Some y \<and> status y = FD_INIT) \<and> (\<forall>q. q \<noteq> p \<longrightarrow> file_at s' q = file_at s q))"
proof -
  obtain c fs where c: "get_fd_array s = Some c" "files s c = Some fs"
    using f by (auto simp: fd_array_alloc_def bind_eq_Some_conv)
  have *: "file_inv g s' \<and> (case r of Inl _ \<Rightarrow> s' = s
    | Inr p \<Rightarrow> snd p < FILES_STRUCT_NENTRY \<and> (\<exists>x. file_at s p = Some x \<and> status x = FD_NONE) \<and>
        (\<exists>y. file_at s' p = Some y \<and> status y = FD_INIT) \<and> (\<forall>q. q \<noteq> p \<longrightarrow> file_at s' q = file_at s q))"
    if "fd_array_found (c, i) s = Some (r, s')" "i < FILES_STRUCT_NENTRY" "status (fd_array fs i) = FD_NONE" for i
  proof -
    have x: "file_at s (c, i) = Some (fd_array fs i)" using c by (simp add: file_at_def)
    show ?thesis using found_inv [OF inv _ x _ that(1)] that x by auto
  qed
  show ?thesis
  proof (cases "d = NO_FD")
    case True
    then show ?thesis using f c inv * by (auto simp: fd_array_alloc_def find_Some_iff split: option.splits)
  next
    case False
    then show ?thesis using f c inv * [of "nat d"] by (auto simp: fd_array_alloc_def testfd_def split: if_splits)
  qed
qed

lemma inv_cong:
  "files s' = files s \<Longrightarrow> inodes s' = inodes s \<Longrightarrow> file_inv g s' = file_inv g s"
  by (simp add: file_inv_def holders_def file_at_def)

section \<open>Path names and opening\<close>

fun gives :: "int + inode_ptr option \<Rightarrow> ledger \<Rightarrow> ledger" where
  "gives (Inl _) g = g"
| "gives (Inr nd) g = owed nd g"

fun gives_sub :: "int + cstring \<times> inode_ptr option \<Rightarrow> ledger \<Rightarrow> ledger" where
  "gives_sub (Inl _) g = g"
| "gives_sub (Inr (_, nd)) g = owed nd g"

lemma gives_sub_map: "gives_sub (map_sum id (Pair sub) r) g = gives r g"
  by (cases r) simp_all

lemma owe_swap: "owe m c d (owe n a b g) = owe n a b (owe m c d g)"
  by (cases "m = n") (auto simp: owe_def fun_upd_twist ac_simps)

lemma owed_swap: "owed nd (owe n a b g) = owe n a b (owed nd g)"
  by (cases nd) (simp_all add: owe_swap)

lemma owed_xref: "file_inv g s \<Longrightarrow> 0 \<le> xref (owed nd g) n \<and> 0 \<le> xopen (owed nd g) n"
  using file_invD(4,5) [of g s n] by (cases nd) auto

lemma get_curdir_inv:
  assumes "file_inv g s" "vfs_get_curdir s = Some (r, s')"
  shows "file_inv (gives r g) s'"
  using assms ref_inc_inv [OF assms(1)]
  by (auto simp: vfs_get_curdir_def bind_eq_Some_conv split: option.splits)

lemma get_bootfs_inv:
  assumes inv: "file_inv g s" and b: "vfs_get_bootfs s = Some (r, s')"
  shows "file_inv (gives r g) s'"
proof (cases "bootfs_node s")
  case None
  then show ?thesis using assms by (auto simp: vfs_get_bootfs_def)
next
  case (Some n)
  then obtain s1 c s2 where s: "lock_bootfs s = Some s1" "inode_ref_inc n s1 = Some (c, s2)" "r = Inr (Some n)" "s' = unlock_bootfs s2"
    using b by (auto simp: vfs_get_bootfs_def bind_eq_Some_conv)
  have "file_inv g s1" using inv s(1) inv_cong [of s1 s g] by (auto simp: lock_bootfs_def bind_eq_Some_conv)
  from ref_inc_inv [OF this s(2)] show ?thesis using inv_cong [of s' s2 "owe n 1 0 g"] s(3,4) by (simp add: unlock_bootfs_def)
qed

context inode_contract
begin

lemma dev_root_inv:
  assumes "file_inv g s" "dev_root V d s = Some (nd, s')"
  shows "file_inv (owed nd g) s'"
  using assms ref_inc_inv [OF assms(1)] root_owes [OF assms(1)]
  by (auto simp: dev_root_def bind_eq_Some_conv split: option.splits if_splits)

lemma get_root_inv:
  assumes inv: "file_inv g s" and f: "vfs_get_root V name s = Some (r, s')"
  shows "file_inv (gives r g) s'"
proof (cases "vdev_list s = []")
  case True
  then show ?thesis using assms by (auto simp: vfs_get_root_def)
next
  case False
  then obtain s1 s2 where s: "lock_vdev_list s = Some s1" "s' = unlock_vdev_list s2"
    and d: "(case find_dev (\<lambda>d. strcmp name (devname d) = 0) (vdev_list s1) of
             None \<Rightarrow> Some (Inl (err E_NO_DEV), s1)
           | Some d \<Rightarrow> do {
               (found, s) \<leftarrow> dev_root V d s1;
               Some (if found \<noteq> None then Inr found else Inl (err E_NA_DEV), s) }) = Some (r, s2)"
    using f by (auto simp: vfs_get_root_def bind_eq_Some_conv)
  have i: "file_inv g s1" using inv s(1) inv_cong [of s1 s g] by (auto simp: lock_vdev_list_def bind_eq_Some_conv)
  have "file_inv (gives r g) s2"
  proof (cases "find_dev (\<lambda>d. strcmp name (devname d) = 0) (vdev_list s1)")
    case None
    then show ?thesis using d i by auto
  next
    case (Some dv)
    then have "do {
               (found, s) \<leftarrow> dev_root V dv s1;
               Some (if found \<noteq> None then Inr found else Inl (err E_NA_DEV), s) } = Some (r, s2)" using d by simp
    then obtain found where f: "dev_root V dv s1 = Some (found, s2)" "r = (if found \<noteq> None then Inr found else Inl (err E_NA_DEV))"
      by (rule bind2E) simp
    then show ?thesis using dev_root_inv [OF i f(1)] by (cases found) auto
  qed
  then show ?thesis using inv_cong [of s' s2 "gives r g"] s(2) by (simp add: unlock_vdev_list_def)
qed

lemma fs_root_inv:
  assumes inv: "file_inv g s" and c: "vfs_get_curdir s = Some (Inr (Some n), s1)"
    and r: "fs_get_root (fs_ops_of V q) s1 = Some (root, s2)" and d: "inode_ref_dec V n s2 = Some (k, s')"
  shows "file_inv (owed root g) s'"
proof -
  have "file_inv (owe n 1 0 g) s1" using get_curdir_inv [OF inv c] by simp
  from root_owes [OF this r] have "file_inv (owe n 1 0 (owed root g)) s2" by (simp add: owed_swap)
  from ref_dec_inv [OF this d] show ?thesis using owed_xref [OF inv] by simp
qed

lemma cur_root_inv:
  assumes inv: "file_inv g s" and c: "vfs_get_curdir s = Some (r1, s1)"
    and m: "(case r1 of
               Inl e \<Rightarrow> Some (path, Inl e, s1)
             | Inr nd \<Rightarrow> do {
                 n \<leftarrow> nd;
                 x \<leftarrow> inodes s1 n;
                 f \<leftarrow> in_fs x;
                 (root, s) \<leftarrow> fs_get_root (fs_ops_of V f) s1;
                 (_, s) \<leftarrow> inode_ref_dec V n s;
                 Some (path, Inr (skip_slashes (drop 1 path), root), s) }) = Some (path', r, s')"
  shows "file_inv (gives_sub r g) s'"
proof (cases r1)
  case (Inl e)
  then show ?thesis using m get_curdir_inv [OF inv c] by auto
next
  case (Inr nd)
  then obtain n q root s2 k where n: "nd = Some n" "fs_get_root (fs_ops_of V q) s1 = Some (root, s2)"
    "inode_ref_dec V n s2 = Some (k, s')" "r = Inr (skip_slashes (drop 1 path), root)"
    using m by (auto simp: bind_eq_Some_conv)
  then show ?thesis using fs_root_inv [OF inv] c Inr by auto
qed

lemma get_device_inv:
  assumes inv: "file_inv g s" and f: "get_device V path s = Some (path', r, s')"
  shows "file_inv (gives_sub r g) s'"
proof -
  have one: "file_inv (gives_sub r g) s'"
    if "do { (r, s) \<leftarrow> look; Some (pa, map_sum id (Pair sub) r, s) } = Some (path', r, s')"
      and "\<And>r' t. look = Some (r', t) \<Longrightarrow> file_inv (gives r' g) t" for look pa sub
    using that(1) by (rule bind2E) (use that(2) in \<open>auto simp: gives_sub_map\<close>)
  note cur = get_curdir_inv [OF inv]
  show ?thesis
  proof (cases "path_mark path 0")
    case None
    then have "do { (r, s) \<leftarrow> vfs_get_curdir s; Some (path, map_sum id (Pair path) r, s) } = Some (path', r, s')"
      using f by (simp only: get_device_def option.case)
    then show ?thesis by (rule one [OF _ cur])
  next
    case (Some m)
    obtain c i where m: "path_mark path 0 = Some (c, i)" using Some by (cases m) simp
    note d = f [unfolded get_device_def m option.case prod.case]
    consider "c = colon_char" "i > 0" | "c = slash_char" "i > 0" | "c = slash_char" "\<not> i > 0"
      | "\<not> (c = colon_char \<and> i > 0)" "c \<noteq> slash_char" by blast
    then show ?thesis
    proof cases
      case 1
      show ?thesis by (rule one [OF d [simplified 1 if_True simp_thms] get_root_inv [OF inv]])
    next
      case 2
      then have n: "\<not> (c = colon_char \<and> i > 0)" "c = slash_char \<and> i > 0" by simp_all
      show ?thesis by (rule one [OF d [unfolded if_not_P [OF n(1)] if_P [OF n(2)]] cur])
    next
      case 3
      then have n: "\<not> (c = colon_char \<and> i > 0)" "\<not> (c = slash_char \<and> i > 0)" by simp_all
      show ?thesis
        by (rule one [OF d [unfolded if_not_P [OF n(1)] if_not_P [OF n(2)] if_P [OF 3(1)]] get_bootfs_inv [OF inv]])
    next
      case 4
      then have n: "\<not> (c = slash_char \<and> i > 0)" by simp
      show ?thesis using d [unfolded if_not_P [OF 4(1)] if_not_P [OF n] if_not_P [OF 4(2)]]
        by (rule bind2E) (rule cur_root_inv [OF inv])
    qed
  qed
qed

lemma lookup_sub_inv:
  assumes inv: "file_inv g s" and i: "file_inv (owed nd g) s1"
    and l: "vop_op V op_lookup nd s1 = Some (n, fn)" "fn n sub s1 = Some (ret, res, s2)" "inode_ref_dec V n s2 = Some (k, s')"
  shows "file_inv (gives (if ret = 0 then Inr res else Inl ret) g) s'"
proof -
  obtain p where n: "nd = Some n" "op_lookup (node_ops V p) = Some fn" using vop_opD [OF l(1)] by blast
  from i n(1) have i': "file_inv (owe n 1 0 g) s1" by simp
  from lookup_owes [OF n(2) i' l(2)]
  have "file_inv (owe n 1 0 (gives (if ret = 0 then Inr res else Inl ret) g)) s2" by (simp add: owed_swap split: if_splits)
  from ref_dec_inv [OF this l(3)] show ?thesis using owed_xref [OF inv] file_invD(4) [OF inv] by (simp split: if_splits)
qed

lemma vfs_lookup_inv:
  assumes inv: "file_inv g s" and f: "vfs_lookup V path s = Some (path', r, s')"
  shows "file_inv (gives r g) s'"
  using f unfolding vfs_lookup_def
proof (rule bind3E)
  fix pa r1 s1
  assume d: "get_device V path s = Some (pa, r1, s1)"
    and c: "(case r1 of
        Inl e \<Rightarrow> Some (pa, Inl e, s1)
      | Inr (sub, nd) \<Rightarrow>
          if at0 sub \<noteq> 0 then do {
            (n, f) \<leftarrow> vop_op V op_lookup nd s1;
            (ret, res, s) \<leftarrow> f n sub s1;
            (_, s) \<leftarrow> inode_ref_dec V n s;
            Some (pa, if ret = 0 then Inr res else Inl ret, s) }
          else Some (pa, Inr nd, s1)) = Some (path', r, s')"
  have i: "file_inv (gives_sub r1 g) s1" by (rule get_device_inv [OF inv d])
  show ?thesis
  proof (cases r1)
    case (Inl e)
    then show ?thesis using c i by auto
  next
    case (Inr q)
    obtain sub nd where q: "q = (sub, nd)" by (cases q)
    show ?thesis
    proof (cases "at0 sub = 0")
      case True
      then show ?thesis using c i Inr q by auto
    next
      case False
      then have "do {
            (n, f) \<leftarrow> vop_op V op_lookup nd s1;
            (ret, res, s) \<leftarrow> f n sub s1;
            (_, s) \<leftarrow> inode_ref_dec V n s;
            Some (pa, if ret = 0 then Inr res else Inl ret, s) } = Some (path', r, s')" using c Inr q by simp
      then obtain n fn ret res s2 k where "vop_op V op_lookup nd s1 = Some (n, fn)" "fn n sub s1 = Some (ret, res, s2)"
        "inode_ref_dec V n s2 = Some (k, s')" "r = (if ret = 0 then Inr res else Inl ret)"
        by (elim bind2E bind3E) simp
      then show ?thesis using lookup_sub_inv [OF inv] i Inr q by simp
    qed
  qed
qed

lemma open_fail_inv:
  assumes l: "file_inv (owe n 1 1 g) s" and g: "\<And>n. 0 \<le> xref g n" "\<And>n. 0 \<le> xopen g n"
    and d: "inode_open_dec V n s = Some (k, s1)" "inode_ref_dec V n s1 = Some (k', s')"
  shows "file_inv g s'"
  by (rule ref_dec_inv [OF open_dec_inv [OF l d(1)] d(2)]) (simp_all add: g)

lemma truncate_part_inv:
  assumes j: "file_inv (owe n 1 1 g) s" and g: "\<And>n. 0 \<le> xref g n" "\<And>n. 0 \<le> xopen g n"
    and f: "do {
         (n, f) \<leftarrow> vop_op V op_truncate (Some n) s;
         (ret, s) \<leftarrow> f n 0 s;
         if ret \<noteq> 0 then do {
           (_, s) \<leftarrow> inode_open_dec V n s;
           (_, s) \<leftarrow> inode_ref_dec V n s;
           Some (Inl ret, s) }
         else Some (Inr (Some n'), s) } = Some (r, s')"
  shows "case r of Inl _ \<Rightarrow> file_inv g s' | Inr nd' \<Rightarrow> nd' = Some n' \<and> file_inv (owe n 1 1 g) s'"
  using f
proof (elim bind2E)
  fix m fn ret s1
  assume v: "vop_op V op_truncate (Some n) s = Some (m, fn)" "fn m 0 s = Some (ret, s1)"
    and e: "(if ret \<noteq> 0 then do {
           (_, s) \<leftarrow> inode_open_dec V m s1;
           (_, s) \<leftarrow> inode_ref_dec V m s;
           Some (Inl ret, s) }
         else Some (Inr (Some n'), s1)) = Some (r, s')"
  obtain p where m: "m = n" "op_truncate (node_ops V p) = Some fn" using vop_opD [OF v(1)] by auto
  have l: "file_inv (owe n 1 1 g) s1" using truncate_keeps [OF m(2), of m 0] j v(2) by (auto simp: keeps_def)
  show ?thesis
  proof (cases "ret = 0")
    case True
    then show ?thesis using e l by auto
  next
    case False
    then have "do {
           (_, s) \<leftarrow> inode_open_dec V n s1;
           (_, s) \<leftarrow> inode_ref_dec V n s;
           Some (Inl ret, s) } = Some (r, s')" using e m by simp
    then show ?thesis by (elim bind2E) (use open_fail_inv [OF l g] in auto)
  qed
qed

lemma open_node_inv:
  assumes inv: "file_inv (owed nd g) s" and g: "\<And>n. 0 \<le> xref g n" "\<And>n. 0 \<le> xopen g n"
    and f: "open_node V flags nd s = Some (r, s')"
  shows "case r of Inl _ \<Rightarrow> file_inv g s' | Inr nd' \<Rightarrow> \<exists>n. nd' = Some n \<and> file_inv (owe n 1 1 g) s'"
  using f unfolding open_node_def
proof (rule bind_eq_SomeE, elim bind2E)
  fix n fn ret s1
  assume v: "vop_op V op_open nd s = Some (n, fn)" "fn n flags s = Some (ret, s1)"
    and c: "(if ret \<noteq> 0 then do { (_, s) \<leftarrow> inode_ref_dec V n s1; Some (Inl ret, s) }
     else do {
       (_, s) \<leftarrow> inode_open_inc n s1;
       if flags AND O_TRUNC \<noteq> 0 \<or> flags AND O_CREAT \<noteq> 0 then do {
         (n, f) \<leftarrow> vop_op V op_truncate nd s;
         (ret, s) \<leftarrow> f n 0 s;
         if ret \<noteq> 0 then do {
           (_, s) \<leftarrow> inode_open_dec V n s;
           (_, s) \<leftarrow> inode_ref_dec V n s;
           Some (Inl ret, s) }
         else Some (Inr nd, s) }
       else Some (Inr nd, s) }) = Some (r, s')"
  obtain p where n: "nd = Some n" "op_open (node_ops V p) = Some fn" using vop_opD [OF v(1)] by blast
  have i: "file_inv (owe n 1 0 g) s1" using open_keeps [OF n(2), of n flags] inv v(2) n(1) by (auto simp: keeps_def)
  show ?thesis
  proof (cases "ret = 0")
    case False
    then have "do { (_, s) \<leftarrow> inode_ref_dec V n s1; Some (Inl ret, s) } = Some (r, s')" using c by simp
    then show ?thesis by (rule bind2E) (use ref_dec_inv [OF i] g in auto)
  next
    case True
    then obtain k s2 where o: "inode_open_inc n s1 = Some (k, s2)"
      and t: "(if flags AND O_TRUNC \<noteq> 0 \<or> flags AND O_CREAT \<noteq> 0 then do {
         (n, f) \<leftarrow> vop_op V op_truncate nd s2;
         (ret, s) \<leftarrow> f n 0 s2;
         if ret \<noteq> 0 then do {
           (_, s) \<leftarrow> inode_open_dec V n s;
           (_, s) \<leftarrow> inode_ref_dec V n s;
           Some (Inl ret, s) }
         else Some (Inr nd, s) }
       else Some (Inr nd, s2)) = Some (r, s')"
      using c by (simp only: simp_thms if_False) (erule bind2E, blast)
    have j: "file_inv (owe n 1 1 g) s2" using open_inc_inv [OF i o] by simp
    show ?thesis
    proof (cases "flags AND O_TRUNC \<noteq> 0 \<or> flags AND O_CREAT \<noteq> 0")
      case False
      then show ?thesis using t j n by auto
    next
      case tr: True
      show ?thesis using truncate_part_inv [OF j g t [unfolded if_P [OF tr] n(1)]] by (auto split: sum.splits)
    qed
  qed
qed

end

text \<open>
  The reference that an open may lose, if any: the one of the inode that was found although it must not exist, or
  the one of the directory in which a file is created.
\<close>

definition loses :: "'w vtab \<Rightarrow> u32 \<Rightarrow> bool \<Rightarrow> inode_ptr option \<Rightarrow> bool" where
  "loses V flags exists nd \<longleftrightarrow> nd \<noteq> None \<longrightarrow> flags AND O_CREAT \<noteq> 0 \<and>
     (exists \<and> flags AND O_EXCL \<noteq> 0 \<or> (\<exists>p. op_create (node_ops V p) \<noteq> None))"

lemma loses_None [simp]: "loses V flags e None"
  by (simp add: loses_def)

definition opened :: "int + inode_ptr option \<Rightarrow> ledger \<Rightarrow> 'w vfs_state \<Rightarrow> bool" where
  "opened r g s \<longleftrightarrow> (case r of Inl _ \<Rightarrow> file_inv g s | Inr nd \<Rightarrow> \<exists>n. nd = Some n \<and> file_inv (owe n 1 1 g) s)"

context inode_contract
begin

lemma open_node_opened:
  assumes inv: "file_inv g s0" and i: "file_inv (owed nd (owed d g)) s" and f: "open_node V flags nd s = Some (r, s')"
  shows "opened r (owed d g) s'"
  using open_node_inv [OF i _ _ f] owed_xref [OF inv] unfolding opened_def by blast

lemma create_part_inv:
  assumes inv: "file_inv g s0" and i: "file_inv g s"
    and f: "do {
               (_, r, s) \<leftarrow> vfs_lookup_parent V path s;
               (case r of
                  Inl ret \<Rightarrow> Some (Inl ret, s)
                | Inr (name, dir) \<Rightarrow> do {
                    (d, f) \<leftarrow> vop_op V op_create dir s;
                    (_, nd, s) \<leftarrow> f d name excl s;
                    open_node V flags nd s }) } = Some (r, s')"
    and cr: "flags AND O_CREAT \<noteq> 0"
  shows "\<exists>d. opened r (owed d g) s' \<and> loses V flags (r = Inl (err E_EXISTS)) d"
  using f
proof (rule bind3E)
  fix pa r1 s1
  assume l: "vfs_lookup_parent V path s = Some (pa, r1, s1)"
    and c: "(case r1 of
                  Inl ret \<Rightarrow> Some (Inl ret, s1)
                | Inr (name, dir) \<Rightarrow> do {
                    (d, f) \<leftarrow> vop_op V op_create dir s1;
                    (_, nd, s) \<leftarrow> f d name excl s1;
                    open_node V flags nd s }) = Some (r, s')"
  have j: "file_inv (gives_sub r1 g) s1" using get_device_inv [OF i] l by (simp add: vfs_lookup_parent_def)
  show ?thesis
  proof (cases r1)
    case (Inl e)
    then show ?thesis using c j by (intro exI [of _ None]) (auto simp: opened_def)
  next
    case (Inr q)
    obtain name dir where q: "q = (name, dir)" by (cases q)
    obtain d fn ret nd s2 where v: "vop_op V op_create dir s1 = Some (d, fn)" "fn d name excl s1 = Some (ret, nd, s2)"
      and o: "open_node V flags nd s2 = Some (r, s')"
      using c unfolding Inr q sum.case prod.case by (elim bind2E bind3E) blast
    obtain p where p: "op_create (node_ops V p) = Some fn" using vop_opD [OF v(1)] by blast
    from j have "file_inv (owed dir g) s1" by (simp add: Inr q)
    from open_node_opened [OF inv create_owes [OF p this v(2)] o] p cr show ?thesis by (auto simp: loses_def)
  qed
qed

lemma vfs_open_inv:
  assumes inv: "file_inv g s" and f: "vfs_open V path flags s = Some (r, s')"
  shows "\<exists>d. opened r (owed d g) s' \<and> loses V flags (r = Inl (err E_EXISTS)) d"
proof -
  have same: "\<exists>d. opened r (owed d g) s' \<and> loses V flags (r = Inl (err E_EXISTS)) d" if "Some (Inl e, t) = Some (r, s')" "file_inv g t" for e t
    using that by (intro exI [of _ None]) (auto simp: opened_def)
  show ?thesis
  proof (cases "flags AND O_ACCMODE \<notin> {O_RDONLY, O_WRONLY, O_RDWR} \<or> flags AND O_TRUNC \<noteq> 0 \<and>
      \<not> (flags AND O_ACCMODE = O_WRONLY \<or> flags AND O_ACCMODE = O_RDWR)")
    case True
    then have "Some (Inl (err E_INVAL), s) = Some (r, s')" using f unfolding vfs_open_def Let_def by (auto split: if_splits)
    then show ?thesis using same inv by blast
  next
    case False
    define excl create where ec: "excl \<longleftrightarrow> flags AND O_EXCL \<noteq> 0" "create \<longleftrightarrow> flags AND O_CREAT \<noteq> 0"
    have n: "\<not> flags AND O_ACCMODE \<notin> {O_RDONLY, O_WRONLY, O_RDWR}"
      "\<not> (flags AND O_TRUNC \<noteq> 0 \<and> \<not> (flags AND O_ACCMODE = O_WRONLY \<or> flags AND O_ACCMODE = O_RDWR))" using False by auto
    obtain pa r1 s1 where l: "vfs_lookup V path s = Some (pa, r1, s1)"
      and c: "(case r1 of
           Inl ret \<Rightarrow>
             if ret = -16 \<and> create then do {
               (_, r, s) \<leftarrow> vfs_lookup_parent V pa s1;
               (case r of
                  Inl ret \<Rightarrow> Some (Inl ret, s)
                | Inr (name, dir) \<Rightarrow> do {
                    (d, f) \<leftarrow> vop_op V op_create dir s;
                    (_, nd, s) \<leftarrow> f d name excl s;
                    open_node V flags nd s }) }
             else Some (Inl ret, s1)
         | Inr nd \<Rightarrow>
             if excl \<and> create then Some (Inl (err E_EXISTS), s1)
             else open_node V flags nd s1) = Some (r, s')"
      using f unfolding vfs_open_def Let_def if_not_P [OF n(1)] if_not_P [OF n(2)] ec [symmetric]
      by (rule bind3E)
    have i: "file_inv (gives r1 g) s1" by (rule vfs_lookup_inv [OF inv l])
    show ?thesis
    proof (cases r1)
      case (Inl ret)
      then have i': "file_inv g s1" using i by simp
      show ?thesis
      proof (cases "ret = -16 \<and> create")
        case True
        show ?thesis by (rule create_part_inv [OF inv i' c [unfolded Inl sum.case if_P [OF True]]]) (use True ec in simp)
      next
        case False
        show ?thesis by (rule same [OF c [unfolded Inl sum.case if_not_P [OF False]] i'])
      qed
    next
      case (Inr nd)
      then have i': "file_inv (owed nd g) s1" using i by simp
      show ?thesis
      proof (cases "excl \<and> create")
        case True
        then show ?thesis using c Inr i' ec by (intro exI [of _ nd]) (auto simp: opened_def loses_def)
      next
        case False
        show ?thesis
          using open_node_opened [OF inv _ c [unfolded Inr sum.case if_not_P [OF False]], of None] i' by (intro exI [of _ None]) simp
      qed
    qed
  qed
qed

end

section \<open>The operations on open files\<close>

lemma fd2fileD: "fd2file d s = Some (Inr p) \<Longrightarrow> snd p < FILES_STRUCT_NENTRY \<and> (\<exists>x. file_at s p = Some x \<and> status x = FD_OPENED)"
  by (auto simp: fd2file_def testfd_def bind_eq_Some_conv split: if_splits)

lemma fd_array_dup_inv:
  assumes inv: "file_inv g s" and p: "snd to_p < FILES_STRUCT_NENTRY" and f: "fd_array_dup to_p from_p s = Some s'"
  shows "file_inv g s'"
proof -
  obtain x y n where x: "file_at s to_p = Some x" "status x = FD_INIT" and y: "file_at s from_p = Some y" "node y = Some n"
    using f by (auto simp: fd_array_dup_def kbind bind_eq_Some_conv Let_def)
  define s1 where "s1 = upd_file to_p (\<lambda>x. x\<lparr>pos := pos y, readable := readable y, writable := writable y\<rparr>) s"
  obtain k k' s2 s3 where d: "inode_ref_inc n s1 = Some (k, s2)" "inode_open_inc n s2 = Some (k', s3)"
    "fd_array_open to_p (upd_file to_p (\<lambda>x. x\<lparr>node := Some n\<rparr>) s3) = Some s'"
    using f x y by (auto simp: fd_array_dup_def kbind bind_eq_Some_conv Let_def s1_def)
  have "file_inv g s1" unfolding s1_def by (rule inv_field [OF inv p]) simp
  from open_inc_inv [OF ref_inc_inv [OF this d(1)] d(2)] have i: "file_inv (owe n 1 1 g) s3" by simp
  have "file_at s3 = file_at s1" using d(1,2) by (auto simp: inode_ref_inc_def inode_open_inc_def bind_eq_Some_conv)
  then obtain z where z: "file_at s3 to_p = Some z" "status z = FD_INIT" using x by (simp add: s1_def)
  have j: "file_inv (owe n 1 1 g) (upd_file to_p (\<lambda>x. x\<lparr>node := Some n\<rparr>) s3)"
    by (rule inv_field [OF i p]) (use z in auto)
  show ?thesis by (rule fd_array_open_inv [OF j p _ _ _ _ d(3)]) (use z file_invD(4,5) [OF inv] in auto)
qed

lemma file_dup_inv:
  assumes inv: "file_inv g s" and f: "file_dup fd1 fd2 s = Some (r, s')"
  shows "file_inv g s'"
  using f unfolding file_dup_def
proof (rule bind_eq_SomeE)
  fix q
  assume q: "fd2file fd1 s = Some q"
    and c: "(case q of
        Inl ret \<Rightarrow> Some (ret, s)
      | Inr p1 \<Rightarrow> do {
          (r, s) \<leftarrow> fd_array_alloc fd2 s;
          (case r of
             Inl ret \<Rightarrow> Some (ret, s)
           | Inr p2 \<Rightarrow> do {
               s \<leftarrow> fd_array_dup p2 p1 s;
               x \<leftarrow> file_at s p2;
               Some (fd x, s) }) }) = Some (r, s')"
  show ?thesis
  proof (cases q)
    case (Inl e)
    then show ?thesis using c inv by auto
  next
    case (Inr p1)
    obtain t s1 where a: "fd_array_alloc fd2 s = Some (t, s1)"
      and b: "(case t of
             Inl ret \<Rightarrow> Some (ret, s1)
           | Inr p2 \<Rightarrow> do {
               s \<leftarrow> fd_array_dup p2 p1 s1;
               x \<leftarrow> file_at s p2;
               Some (fd x, s) }) = Some (r, s')"
      using c unfolding Inr sum.case by (rule bind2E)
    note al = alloc_inv [OF inv a]
    show ?thesis
    proof (cases t)
      case (Inl e)
      then show ?thesis using b al by auto
    next
      case (Inr p2)
      then have "fd_array_dup p2 p1 s1 = Some s'" using b by (auto simp: bind_eq_Some_conv)
      moreover have "file_inv g s1" "snd p2 < FILES_STRUCT_NENTRY" using al Inr by auto
      ultimately show ?thesis using fd_array_dup_inv by blast
    qed
  qed
qed

context inode_contract
begin

lemma file_close_inv:
  assumes inv: "file_inv g s" and f: "file_close V d s = Some (r, s')"
  shows "file_inv g s'"
proof -
  obtain q where q: "fd2file d s = Some q" using f by (auto simp: file_close_def bind_eq_Some_conv)
  show ?thesis
  proof (cases q)
    case (Inl e)
    then show ?thesis using f q inv by (auto simp: file_close_def)
  next
    case (Inr p)
    then have "fd_array_close V p s = Some s'" using f q by (auto simp: file_close_def bind_eq_Some_conv)
    then show ?thesis using close_inv [OF inv] fd2fileD q Inr by blast
  qed
qed

text \<open>The frame of every operation on an open file: acquire the entry, call, release it.\<close>

lemma pinned:
  assumes inv: "file_inv g s" and p: "fd2file d s = Some (Inr p)" and a: "fd_array_acquire p s = Some s1"
    and keep: "file_inv (pin p g) s1 \<Longrightarrow> file_inv (pin p g) s2" and r: "fd_array_release V p s2 = Some s'"
  shows "file_inv g s'"
proof -
  have n: "snd p < FILES_STRUCT_NENTRY" using fd2fileD [OF p] by blast
  show ?thesis by (rule release_inv [OF keep [OF acquire_inv [OF inv n a]] n r])
qed

lemma file_io_inv:
  assumes inv: "file_inv g s" and p: "fd2file d s = Some (Inr p)"
    and op: "\<forall>q h n iob. op (node_ops V q) = Some h \<longrightarrow> keeps2 (h n iob)"
    and f: "file_io V op p base len s = Some (ret, copied, s')"
  shows "file_inv g s'"
proof -
  have n: "snd p < FILES_STRUCT_NENTRY" using fd2fileD [OF p] by blast
  obtain s1 x m h rt iob s2 y where a: "fd_array_acquire p s = Some s1" "file_at s1 p = Some x"
    "vop_op V op (node x) s1 = Some (m, h)" "h m (iobuf_init base len (pos x)) s1 = Some (rt, iob, s2)" "file_at s2 p = Some y"
    and r: "fd_array_release V p (if status y = FD_OPENED then upd_file p (\<lambda>x. x\<lparr>pos := pos x + iobuf_used iob\<rparr>) s2 else s2) = Some s'"
    using f unfolding file_io_def Let_def by (elim bind2E bind3E bind_eq_SomeE) auto
  obtain q where q: "op (node_ops V q) = Some h" using vop_opD [OF a(3)] by blast
  show ?thesis
  proof (rule pinned [OF inv p a(1) _ r])
    assume "file_inv (pin p g) s1"
    then have "file_inv (pin p g) s2" using op q a(4) unfolding keeps2_def by blast
    then show "file_inv (pin p g) (if status y = FD_OPENED then upd_file p (\<lambda>x. x\<lparr>pos := pos x + iobuf_used iob\<rparr>) s2 else s2)"
      using inv_field [OF _ n, of "pin p g" s2 "\<lambda>x. x\<lparr>pos := pos x + iobuf_used iob\<rparr>"] by simp
  qed
qed

lemma file_read_inv:
  assumes inv: "file_inv g s" and f: "file_read V d base len s = Some (ret, copied, s')"
  shows "file_inv g s'"
proof -
  obtain q where q: "fd2file d s = Some q" using f by (auto simp: file_read_def bind_eq_Some_conv)
  show ?thesis
  proof (cases q)
    case (Inl e)
    then show ?thesis using f q inv by (auto simp: file_read_def)
  next
    case (Inr p)
    have k: "\<forall>q h n iob. op_read (node_ops V q) = Some h \<longrightarrow> keeps2 (h n iob)" using read_keeps by blast
    show ?thesis using Inr f q inv file_io_inv [OF inv q [unfolded Inr] k]
      by (auto simp: file_read_def bind_eq_Some_conv split: if_splits)
  qed
qed

lemma file_write_inv:
  assumes inv: "file_inv g s" and f: "file_write V d base len s = Some (ret, copied, s')"
  shows "file_inv g s'"
proof -
  obtain q where q: "fd2file d s = Some q" using f by (auto simp: file_write_def bind_eq_Some_conv)
  show ?thesis
  proof (cases q)
    case (Inl e)
    then show ?thesis using f q inv by (auto simp: file_write_def)
  next
    case (Inr p)
    have k: "\<forall>q h n iob. op_write (node_ops V q) = Some h \<longrightarrow> keeps2 (h n iob)" using write_keeps by blast
    show ?thesis using Inr f q inv file_io_inv [OF inv q [unfolded Inr] k]
      by (auto simp: file_write_def bind_eq_Some_conv split: if_splits)
  qed
qed

lemma file_fstat_inv:
  assumes inv: "file_inv g s" and f: "file_fstat V d s = Some (ret, st, s')"
  shows "file_inv g s'"
proof -
  obtain q where q: "fd2file d s = Some q" using f by (auto simp: file_fstat_def bind_eq_Some_conv)
  show ?thesis
  proof (cases q)
    case (Inl e)
    then show ?thesis using f q inv by (auto simp: file_fstat_def)
  next
    case (Inr p)
    obtain s1 x m h rt u s2 where a: "fd_array_acquire p s = Some s1" "file_at s1 p = Some x"
      "vop_op V op_fstat (node x) s1 = Some (m, h)" "h m s1 = Some (rt, u, s2)" "fd_array_release V p s2 = Some s'"
      using f unfolding file_fstat_def q Inr bind.bind_lunit sum.case by (elim bind2E bind3E bind_eq_SomeE) auto
    obtain r where r: "op_fstat (node_ops V r) = Some h" using vop_opD [OF a(3)] by blast
    show ?thesis
      by (rule pinned [OF inv q [unfolded Inr] a(1) _ a(5)]) (use fstat_keeps [OF r] a(4) in \<open>auto simp: keeps2_def\<close>)
  qed
qed

lemma file_fsync_inv:
  assumes inv: "file_inv g s" and f: "file_fsync V d s = Some (ret, s')"
  shows "file_inv g s'"
proof -
  obtain q where q: "fd2file d s = Some q" using f by (auto simp: file_fsync_def bind_eq_Some_conv)
  show ?thesis
  proof (cases q)
    case (Inl e)
    then show ?thesis using f q inv by (auto simp: file_fsync_def)
  next
    case (Inr p)
    obtain s1 x m h rt s2 where a: "fd_array_acquire p s = Some s1" "file_at s1 p = Some x"
      "vop_op V op_fsync (node x) s1 = Some (m, h)" "h m s1 = Some (rt, s2)" "fd_array_release V p s2 = Some s'"
      using f unfolding file_fsync_def q Inr bind.bind_lunit sum.case by (elim bind2E bind3E bind_eq_SomeE) auto
    obtain r where r: "op_fsync (node_ops V r) = Some h" using vop_opD [OF a(3)] by blast
    show ?thesis
      by (rule pinned [OF inv q [unfolded Inr] a(1) _ a(5)]) (use fsync_keeps [OF r] a(4) in \<open>auto simp: keeps_def\<close>)
  qed
qed

lemma file_getdirentry_inv:
  assumes inv: "file_inv g s" and f: "file_getdirentry V d name off s = Some (ret, off', s')"
  shows "file_inv g s'"
proof -
  obtain q where q: "fd2file d s = Some q" using f by (auto simp: file_getdirentry_def bind_eq_Some_conv)
  show ?thesis
  proof (cases q)
    case (Inl e)
    then show ?thesis using f q inv by (auto simp: file_getdirentry_def)
  next
    case (Inr p)
    obtain s1 x m h rt iob s2 where a: "fd_array_acquire p s = Some s1" "file_at s1 p = Some x"
      "vop_op V op_getdirentry (node x) s1 = Some (m, h)" "h m (iobuf_init name 256 off) s1 = Some (rt, iob, s2)"
      "fd_array_release V p s2 = Some s'"
      using f unfolding file_getdirentry_def q Inr bind.bind_lunit sum.case by (elim bind2E bind3E bind_eq_SomeE) auto
    obtain r where r: "op_getdirentry (node_ops V r) = Some h" using vop_opD [OF a(3)] by blast
    show ?thesis
      by (rule pinned [OF inv q [unfolded Inr] a(1) _ a(5)]) (use getdirentry_keeps [OF r] a(4) in \<open>auto simp: keeps2_def\<close>)
  qed
qed

text \<open>The two calls of \<open>file_seek\<close>.\<close>

lemma seek_target_keeps:
  assumes i: "file_inv g s"
    and f: "(if whence = LSEEK_SET then Some (0, off, s)
             else if whence = LSEEK_CUR then Some (0, off + pos x, s)
             else if whence = LSEEK_END then do {
               (n, f) \<leftarrow> vop_op V op_fstat (node x) s;
               (ret, st, s) \<leftarrow> f n s;
               Some (ret, if ret = 0 then off + st_size st else off, s) }
             else Some (err E_INVAL, off, s)) = Some (ret, off', s')"
  shows "file_inv g s'"
proof (cases "whence = LSEEK_END \<and> whence \<noteq> LSEEK_SET \<and> whence \<noteq> LSEEK_CUR")
  case False
  then show ?thesis using f i by (auto split: if_splits)
next
  case True
  then have "do {
               (n, f) \<leftarrow> vop_op V op_fstat (node x) s;
               (ret, st, s) \<leftarrow> f n s;
               Some (ret, if ret = 0 then off + st_size st else off, s) } = Some (ret, off', s')" using f by simp
  then obtain m h rt st where v: "vop_op V op_fstat (node x) s = Some (m, h)" "h m s = Some (rt, st, s')"
    by (elim bind2E bind3E) auto
  obtain r where "op_fstat (node_ops V r) = Some h" using vop_opD [OF v(1)] by blast
  from fstat_keeps [OF this] show ?thesis using v(2) i unfolding keeps2_def by blast
qed

lemma seek_set_keeps:
  assumes i: "file_inv g s" and n: "snd p < FILES_STRUCT_NENTRY"
    and f: "(if ret = 0 then do {
               x \<leftarrow> file_at s p;
               (n, f) \<leftarrow> vop_op V op_tryseek (node x) s;
               (ret, s) \<leftarrow> f n off s;
               Some (ret, if ret = 0 then upd_file p (\<lambda>x. x\<lparr>pos := off\<rparr>) s else s) }
             else Some (ret, s)) = Some (ret', s')"
  shows "file_inv g s'"
proof (cases "ret = 0")
  case False
  then show ?thesis using f i by auto
next
  case True
  then have "do {
               x \<leftarrow> file_at s p;
               (n, f) \<leftarrow> vop_op V op_tryseek (node x) s;
               (ret, s) \<leftarrow> f n off s;
               Some (ret, if ret = 0 then upd_file p (\<lambda>x. x\<lparr>pos := off\<rparr>) s else s) } = Some (ret', s')" using f by simp
  then obtain nd m h rt s1 where v: "vop_op V op_tryseek nd s = Some (m, h)" "h m off s = Some (rt, s1)"
    "Some (rt, if rt = 0 then upd_file p (\<lambda>x. x\<lparr>pos := off\<rparr>) s1 else s1) = Some (ret', s')"
    by (elim bind2E bind_eq_SomeE) (rule that)
  obtain r where "op_tryseek (node_ops V r) = Some h" using vop_opD [OF v(1)] by blast
  from tryseek_keeps [OF this] have "file_inv g s1" using v(2) i unfolding keeps_def by blast
  then show ?thesis using inv_field [OF _ n, of g s1 "\<lambda>x. x\<lparr>pos := off\<rparr>"] v(3) by (auto split: if_splits)
qed

lemma file_seek_inv:
  assumes inv: "file_inv g s" and f: "file_seek V d off whence s = Some (ret, s')"
  shows "file_inv g s'"
proof -
  obtain q where q: "fd2file d s = Some q" using f by (auto simp: file_seek_def bind_eq_Some_conv)
  show ?thesis
  proof (cases q)
    case (Inl e)
    then show ?thesis using f q inv by (auto simp: file_seek_def)
  next
    case (Inr p)
    have n: "snd p < FILES_STRUCT_NENTRY" using fd2fileD q Inr by blast
    show ?thesis using f unfolding file_seek_def q Inr bind.bind_lunit sum.case
    proof (elim bind_eq_SomeE [of "fd_array_acquire p s"] bind_eq_SomeE [of "file_at _ p"] bind3E)
      fix s1 x rt off' s2
      assume a: "fd_array_acquire p s = Some s1" and t: "(if whence = LSEEK_SET then Some (0, off, s1)
             else if whence = LSEEK_CUR then Some (0, off + pos x, s1)
             else if whence = LSEEK_END then do {
               (n, f) \<leftarrow> vop_op V op_fstat (node x) s1;
               (ret, st, s) \<leftarrow> f n s1;
               Some (ret, if ret = 0 then off + st_size st else off, s) }
             else Some (err E_INVAL, off, s1)) = Some (rt, off', s2)"
        and c: "do {
          (ret, s) \<leftarrow>
            (if rt = 0 then do {
               x \<leftarrow> file_at s2 p;
               (n, f) \<leftarrow> vop_op V op_tryseek (node x) s2;
               (ret, s) \<leftarrow> f n off' s2;
               Some (ret, if ret = 0 then upd_file p (\<lambda>x. x\<lparr>pos := off'\<rparr>) s else s) }
             else Some (rt, s2));
          s \<leftarrow> fd_array_release V p s;
          Some (ret, s) } = Some (ret, s')"
      obtain rt' s3 where u: "(if rt = 0 then do {
               x \<leftarrow> file_at s2 p;
               (n, f) \<leftarrow> vop_op V op_tryseek (node x) s2;
               (ret, s) \<leftarrow> f n off' s2;
               Some (ret, if ret = 0 then upd_file p (\<lambda>x. x\<lparr>pos := off'\<rparr>) s else s) }
             else Some (rt, s2)) = Some (rt', s3)" and r: "fd_array_release V p s3 = Some s'"
        using c by (rule bind2E) (auto elim: bind_eq_SomeE)
      show ?thesis
        by (rule pinned [OF inv q [unfolded Inr] a _ r]) (rule seek_set_keeps [OF seek_target_keeps [OF _ t] n u])
    qed
  qed
qed

lemma free_init:
  assumes inv: "file_inv g s" and p: "snd p < FILES_STRUCT_NENTRY" "p \<notin> dying g" "pins g p = 0"
    and f: "fd_array_free V p s = Some s'"
  shows "file_inv g s'"
proof -
  obtain x where x: "file_at s p = Some x" "status x = FD_INIT \<or> status x = FD_CLOSED"
    using f by (auto simp: fd_array_free_def kbind bind_eq_Some_conv)
  have ok: "slot_ok g p x" by (rule file_invD(3) [OF inv p(1) x(1)])
  then have i: "status x = FD_INIT" using x p by (auto simp: slot_ok_def)
  then have e: "s' = upd_file p (\<lambda>x. x\<lparr>status := FD_NONE\<rparr>) s" using f x by (auto simp: fd_array_free_def kbind)
  show ?thesis unfolding e
    by (rule inv_slot [OF inv x(1) p(1)]) (use ok i p file_invD(4,5) [OF inv] in \<open>auto simp: slot_ok_def holds_def\<close>)
qed

lemma append_part_inv:
  assumes i: "file_inv (owe n 1 1 g) s" and g: "\<And>n. 0 \<le> xref g n" "\<And>n. 0 \<le> xopen g n"
    and p: "snd p < FILES_STRUCT_NENTRY" "p \<notin> dying g" "pins g p = 0"
    and f: "(if flags AND O_APPEND \<noteq> 0 then do {
          (m, f) \<leftarrow> vop_op V op_fstat (Some n) s;
          (ret, st, s) \<leftarrow> f m s;
          if ret \<noteq> 0 then do {
            (_, s) \<leftarrow> vfs_close V (Some n) s;
            s \<leftarrow> fd_array_free V p s;
            Some (ret, s) }
          else Some (0, upd_file p (\<lambda>x. x\<lparr>pos := st_size st\<rparr>) s) }
        else Some (0, s)) = Some (ret, s')"
  shows "if ret = 0 then file_inv (owe n 1 1 g) s' else file_inv g s'"
proof (cases "flags AND O_APPEND = 0")
  case True
  then show ?thesis using f i by auto
next
  case False
  then have "do {
          (m, f) \<leftarrow> vop_op V op_fstat (Some n) s;
          (ret, st, s) \<leftarrow> f m s;
          if ret \<noteq> 0 then do {
            (_, s) \<leftarrow> vfs_close V (Some n) s;
            s \<leftarrow> fd_array_free V p s;
            Some (ret, s) }
          else Some (0, upd_file p (\<lambda>x. x\<lparr>pos := st_size st\<rparr>) s) } = Some (ret, s')" using f by simp
  then show ?thesis
  proof (elim bind3E bind2E)
    fix m h rt st s1
    assume v: "vop_op V op_fstat (Some n) s = Some (m, h)" "h m s = Some (rt, st, s1)"
      and c: "(if rt \<noteq> 0 then do {
            (_, s) \<leftarrow> vfs_close V (Some n) s1;
            s \<leftarrow> fd_array_free V p s;
            Some (rt, s) }
          else Some (0, upd_file p (\<lambda>x. x\<lparr>pos := st_size st\<rparr>) s1)) = Some (ret, s')"
    obtain r where "op_fstat (node_ops V r) = Some h" using vop_opD [OF v(1)] by blast
    from fstat_keeps [OF this] have j: "file_inv (owe n 1 1 g) s1" using v(2) i unfolding keeps2_def by blast
    show ?thesis
    proof (cases "rt = 0")
      case True
      then show ?thesis using c inv_field [OF j p(1), of "\<lambda>x. x\<lparr>pos := st_size st\<rparr>"] by auto
    next
      case False
      then obtain k s2 where w: "vfs_close V (Some n) s1 = Some (k, s2)" "fd_array_free V p s2 = Some s'" "ret = rt"
        using c by (auto simp: bind_eq_Some_conv)
      have "file_inv g s2" by (rule vfs_close_inv [OF j w(1)]) (simp_all add: g)
      then show ?thesis using free_init [OF _ p w(2)] w(3) False by simp
    qed
  qed
qed

lemma file_open_at_inv:
  assumes i: "file_inv (owe n 1 1 g) s" and g: "\<And>n. 0 \<le> xref g n" "\<And>n. 0 \<le> xopen g n"
    and p: "snd p < FILES_STRUCT_NENTRY" "p \<notin> dying g" "pins g p = 0"
    and f: "file_open_at V flags rd wr p (Some n) s = Some (r, s')"
  shows "file_inv g s'"
proof -
  let ?s = "upd_file p (\<lambda>x. x\<lparr>pos := 0\<rparr>) s"
  have i0: "file_inv (owe n 1 1 g) ?s" by (rule inv_field [OF i p(1)]) simp
  obtain ret s1 where a: "(if flags AND O_APPEND \<noteq> 0 then do {
          (m, f) \<leftarrow> vop_op V op_fstat (Some n) ?s;
          (ret, st, s) \<leftarrow> f m ?s;
          if ret \<noteq> 0 then do {
            (_, s) \<leftarrow> vfs_close V (Some n) s;
            s \<leftarrow> fd_array_free V p s;
            Some (ret, s) }
          else Some (0, upd_file p (\<lambda>x. x\<lparr>pos := st_size st\<rparr>) s) }
        else Some (0, ?s)) = Some (ret, s1)"
    and c: "(if ret \<noteq> 0 then Some (ret, s1)
     else do {
       s \<leftarrow> fd_array_open p (upd_file p (\<lambda>x. x\<lparr>node := Some n, readable := rd, writable := wr\<rparr>) s1);
       x \<leftarrow> file_at s p;
       Some (fd x, s) }) = Some (r, s')"
    using f unfolding file_open_at_def Let_def by (rule bind2E)
  note j = append_part_inv [OF i0 g p a]
  show ?thesis
  proof (cases "ret = 0")
    case False
    then show ?thesis using c j by auto
  next
    case True
    let ?t = "upd_file p (\<lambda>x. x\<lparr>node := Some n, readable := rd, writable := wr\<rparr>) s1"
    have o: "fd_array_open p ?t = Some s'" using c True by (auto simp: bind_eq_Some_conv)
    have j': "file_inv (owe n 1 1 g) s1" using j True by simp
    obtain x where x: "file_at s1 p = Some x" "status x = FD_INIT"
      using o by (auto simp: fd_array_open_def kbind bind_eq_Some_conv)
    have "file_inv (owe n 1 1 g) ?t" by (rule inv_field [OF j' p(1)]) (use x in auto)
    then show ?thesis using fd_array_open_inv [OF _ p(1) _ _ g o] x by simp
  qed
qed

lemma file_open_inv:
  assumes inv: "file_inv g s" and f: "file_open V path flags s = Some (r, s')"
  shows "\<exists>d. file_inv (owed d g) s' \<and> loses V flags (r = err E_EXISTS) d"
proof (cases "flags AND O_ACCMODE \<notin> {O_RDONLY, O_WRONLY, O_RDWR}")
  case True
  then show ?thesis using f inv by (intro exI [of _ None]) (auto simp: file_open_def)
next
  case False
  obtain t s1 where a: "fd_array_alloc NO_FD s = Some (t, s1)"
    and c: "(case t of
           Inl ret \<Rightarrow> Some (ret, s1)
         | Inr p \<Rightarrow> do {
             (r, s) \<leftarrow> vfs_open V path flags s1;
             (case r of
                Inl ret \<Rightarrow> do { s \<leftarrow> fd_array_free V p s; Some (ret, s) }
              | Inr nd \<Rightarrow> file_open_at V flags (flags AND O_ACCMODE = O_RDONLY \<or> flags AND O_ACCMODE = O_RDWR)
                  (flags AND O_ACCMODE = O_WRONLY \<or> flags AND O_ACCMODE = O_RDWR) p nd s) }) = Some (r, s')"
    using f unfolding file_open_def Let_def if_not_P [OF False] by (rule bind2E)
  note al = alloc_inv [OF inv a]
  show ?thesis
  proof (cases t)
    case (Inl e)
    then show ?thesis using c al inv by (intro exI [of _ None]) auto
  next
    case (Inr p)
    then obtain x where x: "file_inv g s1" "snd p < FILES_STRUCT_NENTRY" "file_at s1 p = Some x" "status x = FD_INIT" using al by auto
    then have p: "p \<notin> dying g" "pins g p = 0" using file_invD(3) [OF x(1-3)] by (auto simp: slot_ok_def split: if_splits)
    obtain t' s2 where v: "vfs_open V path flags s1 = Some (t', s2)"
      and d: "(case t' of
                Inl ret \<Rightarrow> do { s \<leftarrow> fd_array_free V p s2; Some (ret, s) }
              | Inr nd \<Rightarrow> file_open_at V flags (flags AND O_ACCMODE = O_RDONLY \<or> flags AND O_ACCMODE = O_RDWR)
                  (flags AND O_ACCMODE = O_WRONLY \<or> flags AND O_ACCMODE = O_RDWR) p nd s2) = Some (r, s')"
      using c unfolding Inr sum.case by (rule bind2E)
    obtain d' where g': "opened t' (owed d' g) s2" "loses V flags (t' = Inl (err E_EXISTS)) d'" using vfs_open_inv [OF x(1) v] by blast
    have q: "p \<notin> dying (owed d' g)" "pins (owed d' g) p = 0" using p by (cases d'; simp)+
    show ?thesis
    proof (cases t')
      case (Inl e)
      then have "fd_array_free V p s2 = Some s'" "r = e" using d by (auto simp: bind_eq_Some_conv)
      then show ?thesis using free_init [OF _ x(2) q] g' Inl by (auto simp: opened_def)
    next
      case (Inr nd)
      then obtain n where n: "nd = Some n" "file_inv (owe n 1 1 (owed d' g)) s2" using g'(1) by (auto simp: opened_def)
      have "file_inv (owed d' g) s'"
        by (rule file_open_at_inv [OF n(2) _ _ x(2) q d [unfolded Inr sum.case n(1)]]) (use owed_xref [OF inv] in auto)
      then show ?thesis using g'(2) Inr by (auto simp: loses_def)
    qed
  qed
qed

lemma closeall_loop_inv:
  "file_inv g s \<Longrightarrow> closeall_loop V f is s = Some s' \<Longrightarrow> (\<forall>i \<in> set is. i < FILES_STRUCT_NENTRY) \<Longrightarrow> file_inv g s'"
proof (induction "is" arbitrary: s)
  case (Cons i "is")
  show ?case using Cons.prems(2) unfolding closeall_loop.simps
  proof (elim bind_eq_SomeE)
    fix x s1
    assume c: "(if status x = FD_OPENED then fd_array_close V (f, i) s else Some s) = Some s1" and r: "closeall_loop V f is s1 = Some s'"
    have "file_inv g s1" using c close_inv [OF Cons.prems(1), of "(f, i)" s1] Cons.prems by (auto split: if_splits)
    then show ?thesis using Cons.IH [OF _ r] Cons.prems(3) by simp
  qed
qed simp

lemma files_closeall_inv:
  assumes "file_inv g s" "files_closeall V f s = Some s'"
  shows "file_inv g s'"
  using assms closeall_loop_inv [OF assms(1)] by (auto simp: files_closeall_def kbind bind_eq_Some_conv)

end

end
