(* ===== verification/Dev.thy ===== *)
theory Dev
  imports File_inv
begin

text \<open>
  Devices as inodes: kern/fs/devs/dev.c and the console of dev_stdout.c.  The drivers are reached through the function pointers of \<open>struct device\<close>: \<open>D\<close> is the table of them, and a
  device names its entry.  The operations of device inodes keep the books, so that the accounting of open files holds
  for them; the properties of the file layer follow.
\<close>

section \<open>Device inodes\<close>

record device =
  d_blocks :: u32
  d_blocksize :: u32
  d_ops :: nat

record 'd dev_world =
  devices :: "inode_ptr \<Rightarrow> device"
  drivers :: 'd

record 'd dev_ops =
  d_open :: "u32 \<Rightarrow> 'd \<Rightarrow> (int \<times> 'd) option"
  d_close :: "'d \<Rightarrow> (int \<times> 'd) option"
  d_io :: "iobuf \<Rightarrow> bool \<Rightarrow> 'd \<Rightarrow> (int \<times> iobuf \<times> 'd) option"
  d_ioctl :: "int \<Rightarrow> u32 \<Rightarrow> 'd \<Rightarrow> (int \<times> 'd) option"

type_synonym 'd dev_state = "'d dev_world vfs_state"

text \<open>\<open>vop_info(node, device)\<close>.\<close>

definition dev_info :: "inode_ptr \<Rightarrow> 'd dev_state \<Rightarrow> device option" where
  "dev_info n s = do {
     x \<leftarrow> inodes s n;
     kassert (in_type x = inode_type_device_info);
     Some (devices (world s) n) }"

definition set_drivers :: "'d \<Rightarrow> 'd dev_state \<Rightarrow> 'd dev_state" where
  "set_drivers d s = s\<lparr>world := (world s)\<lparr>drivers := d\<rparr>\<rparr>"

definition dev_open :: "(nat \<Rightarrow> 'd dev_ops) \<Rightarrow> inode_ptr \<Rightarrow> u32 \<Rightarrow> 'd dev_state \<Rightarrow> (int \<times> 'd dev_state) option" where
  "dev_open D n open_flags s =
     (if open_flags AND (O_CREAT OR O_TRUNC OR O_EXCL OR O_APPEND) \<noteq> 0 then Some (err E_INVAL, s)
      else do {
        dev \<leftarrow> dev_info n s;
        (r, d) \<leftarrow> d_open (D (d_ops dev)) open_flags (drivers (world s));
        Some (r, set_drivers d s) })"

definition dev_close :: "(nat \<Rightarrow> 'd dev_ops) \<Rightarrow> inode_ptr \<Rightarrow> 'd dev_state \<Rightarrow> (int \<times> 'd dev_state) option" where
  "dev_close D n s = do {
     dev \<leftarrow> dev_info n s;
     (r, d) \<leftarrow> d_close (D (d_ops dev)) (drivers (world s));
     Some (r, set_drivers d s) }"

definition dev_read :: "(nat \<Rightarrow> 'd dev_ops) \<Rightarrow> inode_ptr \<Rightarrow> iobuf \<Rightarrow> 'd dev_state \<Rightarrow> (int \<times> iobuf \<times> 'd dev_state) option" where
  "dev_read D n iob s = do {
     dev \<leftarrow> dev_info n s;
     (r, iob, d) \<leftarrow> d_io (D (d_ops dev)) iob False (drivers (world s));
     Some (r, iob, set_drivers d s) }"

definition dev_write :: "(nat \<Rightarrow> 'd dev_ops) \<Rightarrow> inode_ptr \<Rightarrow> iobuf \<Rightarrow> 'd dev_state \<Rightarrow> (int \<times> iobuf \<times> 'd dev_state) option" where
  "dev_write D n iob s = do {
     dev \<leftarrow> dev_info n s;
     (r, iob, d) \<leftarrow> d_io (D (d_ops dev)) iob True (drivers (world s));
     Some (r, iob, set_drivers d s) }"

definition dev_ioctl :: "(nat \<Rightarrow> 'd dev_ops) \<Rightarrow> inode_ptr \<Rightarrow> int \<Rightarrow> u32 \<Rightarrow> 'd dev_state \<Rightarrow> (int \<times> 'd dev_state) option" where
  "dev_ioctl D n op data s = do {
     dev \<leftarrow> dev_info n s;
     (r, d) \<leftarrow> d_ioctl (D (d_ops dev)) op data (drivers (world s));
     Some (r, set_drivers d s) }"

definition S_IFCHR :: u32 where "S_IFCHR = 0x4000"
definition S_IFBLK :: u32 where "S_IFBLK = 0x5000"

definition dev_gettype :: "inode_ptr \<Rightarrow> 'd dev_state \<Rightarrow> (int \<times> u32 \<times> 'd dev_state) option" where
  "dev_gettype n s = do {
     dev \<leftarrow> dev_info n s;
     Some (0, if d_blocks dev > 0 then S_IFBLK else S_IFCHR, s) }"

text \<open>\<open>vop_gettype\<close> of a device inode is \<open>dev_gettype\<close>, after the check of the counts in \<open>inode_check\<close>.\<close>

definition dev_fstat :: "inode_ptr \<Rightarrow> 'd dev_state \<Rightarrow> (int \<times> kstat \<times> 'd dev_state) option" where
  "dev_fstat n s = do {
     x \<leftarrow> inodes s n;
     kassert (ref_count x \<ge> open_count x \<and> open_count x \<ge> 0);
     kassert (ref_count x < MAX_INODE_COUNT \<and> open_count x < MAX_INODE_COUNT);
     (ret, mode, s) \<leftarrow> dev_gettype n s;
     if ret \<noteq> 0 then Some (ret, no_stat\<lparr>st_mode := mode\<rparr>, s)
     else do {
       dev \<leftarrow> dev_info n s;
       Some (0, \<lparr>st_mode = mode, st_nlinks = 1, st_blocks = d_blocks dev, st_size = d_blocks dev * d_blocksize dev\<rparr>, s) } }"

text \<open>The remainder and the second comparison are unsigned, the first comparison is signed; a remainder by 0 traps.\<close>

definition dev_tryseek :: "inode_ptr \<Rightarrow> u32 \<Rightarrow> 'd dev_state \<Rightarrow> (int \<times> 'd dev_state) option" where
  "dev_tryseek n off s = do {
     dev \<leftarrow> dev_info n s;
     if d_blocks dev > 0 then do {
       kassert (d_blocksize dev \<noteq> 0);
       Some (if off mod d_blocksize dev = 0 \<and> \<not> bit off 31 \<and> off < d_blocks dev * d_blocksize dev then 0 else err E_INVAL, s) }
     else Some (err E_INVAL, s) }"

definition dev_lookup :: "inode_ptr \<Rightarrow> cstring \<Rightarrow> 'd dev_state \<Rightarrow> (int \<times> inode_ptr option \<times> 'd dev_state) option" where
  "dev_lookup n path s =
     (if at0 path \<noteq> 0 then Some (err E_NOENT, None, s)
      else do { (_, s) \<leftarrow> inode_ref_inc n s; Some (0, Some n, s) })"

definition dev_node_ops :: "(nat \<Rightarrow> 'd dev_ops) \<Rightarrow> 'd dev_world inode_ops" where
  "dev_node_ops D =
     \<lparr>vop_magic = VOP_MAGIC, op_open = Some (dev_open D), op_close = Some (dev_close D), op_read = Some (dev_read D),
      op_write = Some (dev_write D), op_fstat = Some dev_fstat, op_fsync = None, op_namefile = None, op_getdirentry = None,
      op_reclaim = None, op_gettype = Some dev_gettype, op_tryseek = Some dev_tryseek, op_truncate = None,
      op_create = None, op_lookup = Some dev_lookup\<rparr>"

definition dev_create_inode :: "inode_ptr option \<Rightarrow> ops_ptr \<Rightarrow> 'd dev_state \<Rightarrow> 'd dev_state option" where
  "dev_create_inode p ops s =
     (let s = alloc_inode p inode_type_device_info s in
      case p of Some n \<Rightarrow> inode_init n ops None s | None \<Rightarrow> Some s)"

section \<open>The console\<close>

record console =
  con_mem :: memory
  con_out :: "u8 list"

definition stdout_open :: "u32 \<Rightarrow> console \<Rightarrow> (int \<times> console) option" where
  "stdout_open open_flags c = Some (if open_flags \<noteq> O_WRONLY then err E_INVAL else 0, c)"

definition stdout_close :: "console \<Rightarrow> (int \<times> console) option" where
  "stdout_close c = Some (0, c)"

fun cputs :: "nat \<Rightarrow> nat \<Rightarrow> console \<Rightarrow> console" where
  "cputs data 0 c = c"
| "cputs data (Suc k) c = cputs (Suc data) k (c\<lparr>con_out := con_out c @ [con_mem c data]\<rparr>)"

definition stdout_io :: "iobuf \<Rightarrow> bool \<Rightarrow> console \<Rightarrow> (int \<times> iobuf \<times> console) option" where
  "stdout_io iob wr c =
     (if wr then Some (0, iob\<lparr>io_resid := 0\<rparr>, cputs (unat (io_base iob)) (unat (io_resid iob)) c)
      else Some (err E_INVAL, iob, c))"

definition stdout_ioctl :: "int \<Rightarrow> u32 \<Rightarrow> console \<Rightarrow> (int \<times> console) option" where
  "stdout_ioctl op data c = Some (err E_INVAL, c)"

definition stdout_ops :: "console dev_ops" where
  "stdout_ops = \<lparr>d_open = stdout_open, d_close = stdout_close, d_io = stdout_io, d_ioctl = stdout_ioctl\<rparr>"

definition stdout_device_init :: "inode_ptr \<Rightarrow> nat \<Rightarrow> console dev_state \<Rightarrow> console dev_state" where
  "stdout_device_init n ops s =
     s\<lparr>world := (world s)\<lparr>devices := (devices (world s))(n := \<lparr>d_blocks = 0, d_blocksize = 1, d_ops = ops\<rparr>)\<rparr>\<rparr>"

definition stdout_name :: cstring where "stdout_name = [115, 116, 100, 111, 117, 116]"

definition dev_init_stdout ::
  "inode_ptr option \<Rightarrow> ops_ptr \<Rightarrow> nat \<Rightarrow> bool \<Rightarrow> bool \<Rightarrow> console dev_state \<Rightarrow> console dev_state option" where
  "dev_init_stdout p vops ops name_ok vdev_ok s = do {
     s \<leftarrow> dev_create_inode p vops s;
     n \<leftarrow> p;
     _ \<leftarrow> dev_info n s;
     let s = stdout_device_init n ops s;
     (ret, s) \<leftarrow> vfs_add_dev name_ok vdev_ok stdout_name (Some n) False s;
     if ret \<noteq> 0 then kpanic else Some s }"

section \<open>Device inodes keep the books\<close>

text \<open>Where no file system is mounted there is no table of file system operations: a call through it stops the kernel.\<close>

definition no_fs :: "'w fs_ops" where
  "no_fs = \<lparr>fs_sync = (\<lambda>s. None), fs_get_root = (\<lambda>s. None), fs_unmount = (\<lambda>s. None), fs_cleanup = (\<lambda>s. None)\<rparr>"

text \<open>The tables of a kernel whose only inodes are devices, with any drivers.\<close>

definition dev_vtab :: "(nat \<Rightarrow> 'd dev_ops) \<Rightarrow> 'd dev_world vtab" where
  "dev_vtab D = \<lparr>node_ops = (\<lambda>_. dev_node_ops D), fs_ops_of = (\<lambda>_. no_fs)\<rparr>"

lemma set_drivers_inv [simp]: "file_inv g (set_drivers d s) = file_inv g s"
  by (rule inv_cong) (simp_all add: set_drivers_def)

lemma dev_gettype_state: "dev_gettype n s = Some (r, t, s') \<Longrightarrow> s' = s"
  by (auto simp: dev_gettype_def bind_eq_Some_conv)

lemma dev_tryseek_state: "dev_tryseek n off s = Some (r, s') \<Longrightarrow> s' = s"
  unfolding dev_tryseek_def by (elim bind_eq_SomeE) (auto simp: kassert_def simp del: mod_eq_0_iff_dvd split: if_splits)

lemma dev_keeps:
  "keeps (dev_open D n flags)" "keeps (dev_close D n)" "keeps2 (dev_read D n iob)" "keeps2 (dev_write D n iob)"
  "keeps2 (dev_fstat n :: 'd dev_state \<Rightarrow> _)" "keeps (dev_tryseek n off :: 'd dev_state \<Rightarrow> _)"
  by (auto simp: keeps_def keeps2_def dev_open_def dev_close_def dev_read_def dev_write_def dev_fstat_def
      kbind bind_eq_Some_conv split: if_splits dest!: dev_gettype_state dev_tryseek_state)

lemma dev_lookup_owes:
  assumes "file_inv g s" "dev_lookup n path s = Some (r, nd, s')"
  shows "file_inv (if r = 0 then owed nd g else g) s'"
  using assms ref_inc_inv [of g s n] by (auto simp: dev_lookup_def bind_eq_Some_conv split: if_splits)

interpretation devs: inode_contract "dev_vtab D"
  by unfold_locales (auto simp: dev_vtab_def dev_node_ops_def no_fs_def dev_keeps dev_lookup_owes intro: dev_lookup_owes)

section \<open>The table of open files stays consistent\<close>

definition ex_slot :: "nat \<Rightarrow> kfile" where
  "ex_slot i = (if i = 1 then \<lparr>status = FD_OPENED, readable = False, writable = True, fd = 1, pos = 0, node = Some 0, fopen_count = 1\<rparr>
     else \<lparr>status = FD_NONE, readable = False, writable = False, fd = int i, pos = 0, node = None, fopen_count = 0\<rparr>)"

definition ex_con :: "console dev_state" where
  "ex_con = \<lparr>inodes = [0 \<mapsto> \<lparr>in_type = inode_type_device_info, ref_count = 2, open_count = 1, in_fs = None, in_ops = Some 0\<rparr>],
     bootfs_node = None, bootfs_sem = 1,
     vdev_list = [\<lparr>devname = stdout_name, devnode = Some 0, dev_fs = None, mountable = False\<rparr>], vdev_list_sem = 1,
     files = [0 \<mapsto> \<lparr>pwd = None, fd_array = ex_slot, files_count = 1, files_sem = 1\<rparr>], cur_files = Some 0,
     world = \<lparr>devices = (\<lambda>_. \<lparr>d_blocks = 0, d_blocksize = 1, d_ops = 0\<rparr>), drivers = \<lparr>con_mem = (\<lambda>a. word_of_nat a), con_out = []\<rparr>\<rparr>\<rparr>"

text \<open>One reference of the console belongs to the list of devices.\<close>

definition ex_ledger :: ledger where
  "ex_ledger = \<lparr>pins = (\<lambda>_. 0), dying = {}, xref = (\<lambda>_. 0)(0 := 1), xopen = (\<lambda>_. 0)\<rparr>"

lemma nentry: "FILES_STRUCT_NENTRY = 145"
  by (simp add: FILES_STRUCT_NENTRY_def FILES_STRUCT_BUFSIZE_def)

lemma ex_holders: "holders ex_ledger ex_con n = (if n = 0 then {(0, 1)} else {})"
  by (auto simp: holders_def holds_def file_at_def ex_con_def ex_slot_def ex_ledger_def nentry split: if_splits)

lemma ex_inv: "file_inv ex_ledger ex_con"
proof -
  have "slot_ok ex_ledger p x" if "file_at ex_con p = Some x" for p x
    using that by (auto simp: file_at_def ex_con_def ex_slot_def slot_ok_def ex_ledger_def split: if_splits)
  then show ?thesis unfolding file_inv_def ex_holders by (auto simp: ex_con_def ex_ledger_def split: if_splits)
qed

text \<open>An open entry has its inode.\<close>

lemma open_has_inode:
  assumes inv: "file_inv g s" and p: "snd p < FILES_STRUCT_NENTRY" "file_at s p = Some x" "status x = FD_OPENED"
  obtains n y where "node x = Some n" "inodes s n = Some y" "ref_count y \<ge> 1" "open_count y \<ge> 1"
proof -
  have ok: "slot_ok g p x" by (rule file_invD(3) [OF inv p(1,2)])
  then obtain n where n: "node x = Some n" "holds g p x n" using p(3) by (auto simp: slot_ok_def holds_def split: if_splits)
  then have h: "p \<in> holders g s n" using p by (auto simp: holders_def)
  then obtain y where y: "inodes s n = Some y" using file_invD(8) [OF inv, of n] by fastforce
  have "card (holders g s n) \<ge> 1" using h file_invD(1) [OF inv, of n] by (metis card_0_eq empty_iff less_one not_less)
  then show ?thesis using that [OF n(1) y] file_invD(6,7) [OF inv y] file_invD(4,5) [OF inv, of n] by linarith
qed

text \<open>What \<open>fd_array_alloc\<close> and \<open>fd_array_dup\<close> do when the invariant holds.\<close>

lemma alloc_total:
  assumes inv: "file_inv g s" and f: "get_fd_array s = Some f"
  shows "(\<exists>e. fd_array_alloc d s = Some (Inl e, s) \<and> e < 0) \<or> (\<exists>i x. i < FILES_STRUCT_NENTRY \<and> file_at s (f, i) = Some x \<and> status x = FD_NONE \<and>
    fd_array_alloc d s = Some (Inr (f, i), upd_file (f, i) (\<lambda>x. x\<lparr>status := FD_INIT, node := None\<rparr>) s))"
proof -
  obtain fs where fs: "files s f = Some fs" using f by (auto simp: get_fd_array_def bind_eq_Some_conv)
  have at: "file_at s (f, i) = Some (fd_array fs i)" for i using fs by (simp add: file_at_def)
  have found: "fd_array_found (f, i) s = Some (Inr (f, i), upd_file (f, i) (\<lambda>x. x\<lparr>status := FD_INIT, node := None\<rparr>) s)"
    if "i < FILES_STRUCT_NENTRY" "status (fd_array fs i) = FD_NONE" for i
    using file_invD(3) [OF inv _ at, of i] that by (auto simp: fd_array_found_def at slot_ok_def split: if_splits)
  show ?thesis
  proof (cases "d = NO_FD")
    case True
    then show ?thesis using found f fs at by (auto simp: fd_array_alloc_def find_Some_iff split: option.splits)
  next
    case False
    show ?thesis
    proof (cases "testfd d \<and> status (fd_array fs (nat d)) = FD_NONE")
      case True
      then have "nat d < FILES_STRUCT_NENTRY" by (auto simp: testfd_def)
      then show ?thesis using found [of "nat d"] f fs at [of "nat d"] False True
        by (intro disjI2 exI [of _ "nat d"] exI [of _ "fd_array fs (nat d)"]) (simp add: fd_array_alloc_def)
    next
      case ok: False
      then show ?thesis using f fs False by (intro disjI1) (simp add: fd_array_alloc_def)
    qed
  qed
qed

lemma dup_eq:
  assumes inv: "file_inv g s" and f: "get_fd_array s = Some f" and p: "fd2file d s = Some (Inr p)"
    and a: "fd_array_alloc d' s = Some (Inr (f, i), t)" and t: "i < FILES_STRUCT_NENTRY" "file_at s (f, i) = Some z" "status z = FD_NONE"
      "t = upd_file (f, i) (\<lambda>x. x\<lparr>status := FD_INIT, node := None\<rparr>) s"
  obtains n x s' where "file_at s p = Some x" "node x = Some n" "file_dup d d' s = Some (int i, s')"
    "file_at s' = (file_at s)((f, i) \<mapsto> x\<lparr>fd := int i, status := FD_OPENED, fopen_count := 1\<rparr>)"
    "inodes s' = (inodes s)(n := map_option (\<lambda>y. y\<lparr>ref_count := ref_count y + 1, open_count := open_count y + 1\<rparr>) (inodes s n))"
    "get_fd_array s' = Some f"
proof -
  obtain x where x: "snd p < FILES_STRUCT_NENTRY" "file_at s p = Some x" "status x = FD_OPENED" using fd2fileD [OF p] by blast
  obtain n y where n: "node x = Some n" "inodes s n = Some y" using open_has_inode [OF inv x] by blast
  have z: "fd z = int i" "fopen_count z = 0" using file_invD(3) [OF inv _ t(2)] t(1,3) by (auto simp: slot_ok_def split: if_splits)
  have pi: "p \<noteq> (f, i)" using x t by auto
  define t1 where "t1 = upd_file (f, i) (\<lambda>z. z\<lparr>pos := pos x, readable := readable x, writable := writable x\<rparr>) t"
  define t2 where "t2 = upd_inode n (\<lambda>x. x\<lparr>open_count := open_count x + 1\<rparr>) (upd_inode n (\<lambda>x. x\<lparr>ref_count := ref_count x + 1\<rparr>) t1)"
  define s' where "s' = fopen_count_inc (f, i) (upd_file (f, i) (\<lambda>x. x\<lparr>status := FD_OPENED\<rparr>) (upd_file (f, i) (\<lambda>x. x\<lparr>node := Some n\<rparr>) t2))"
  have "fd_array_dup (f, i) p t = Some s'"
    using x n t z pi by (simp add: fd_array_dup_def fd_array_open_def inode_ref_inc_def inode_open_inc_def s'_def t2_def t1_def kbind)
  then have "file_dup d d' s = Some (int i, s')"
    using p a t z by (simp add: file_dup_def s'_def t2_def t1_def fopen_count_inc_def)
  moreover have "file_at s' = (file_at s)((f, i) \<mapsto> x\<lparr>fd := int i, status := FD_OPENED, fopen_count := 1\<rparr>)"
    using t z x n by (intro ext) (auto simp: s'_def t2_def t1_def fopen_count_inc_def intro!: kfile.equality)
  moreover have "inodes s' = (inodes s)(n := map_option (\<lambda>y. y\<lparr>ref_count := ref_count y + 1, open_count := open_count y + 1\<rparr>) (inodes s n))"
    using t n by (simp add: s'_def t2_def t1_def fopen_count_inc_def)
  moreover have "get_fd_array s' = Some f"
    using f by (auto simp: get_fd_array_def s'_def t2_def t1_def t(4) fopen_count_inc_def upd_file_def kbind bind_eq_Some_conv)
  ultimately show ?thesis using that x(2) n(1) by blast
qed

lemma dev_file_open:
  assumes "file_inv g s" "file_open (dev_vtab D) path flags s = Some (r, s')"
  shows "\<exists>d. file_inv (owed d g) s' \<and> (d \<noteq> None \<longrightarrow> r = err E_EXISTS \<and> flags AND O_CREAT \<noteq> 0 \<and> flags AND O_EXCL \<noteq> 0)"
  using devs.file_open_inv [OF assms] by (auto simp: loses_def dev_vtab_def dev_node_ops_def)

text \<open>
  C36: The table of open files and the counts of the inodes agree.  Every open entry holds exactly one reference and
  one open count of its inode, and its own count is one more than the number of operations in progress on it (the pins
  of the ledger).  With inodes that are devices, of any drivers, every operation on open files that returns keeps it so
  without changing what anybody else holds; only \<open>file_open\<close> with \<open>O_CREAT | O_EXCL\<close> that fails with \<open>-E_EXISTS\<close> may
  leave one reference of one inode behind.  \<open>file_dup\<close>, which calls no inode operation, never fails an assertion.
\<close>

theorem file_ops_account:
  assumes "file_inv g s"
  shows "(file_open (dev_vtab D) path flags s = Some (r, s') \<longrightarrow>
      (\<exists>n. file_inv (owed n g) s' \<and> (n \<noteq> None \<longrightarrow> r = err E_EXISTS \<and> flags AND O_CREAT \<noteq> 0 \<and> flags AND O_EXCL \<noteq> 0))) \<and>
    (file_close (dev_vtab D) d s = Some (r, s') \<longrightarrow> file_inv g s') \<and>
    (file_read (dev_vtab D) d base len s = Some (r, copied, s') \<longrightarrow> file_inv g s') \<and>
    (file_write (dev_vtab D) d base len s = Some (r, copied, s') \<longrightarrow> file_inv g s') \<and>
    (file_seek (dev_vtab D) d off whence s = Some (r, s') \<longrightarrow> file_inv g s') \<and>
    (file_fstat (dev_vtab D) d s = Some (r, st, s') \<longrightarrow> file_inv g s') \<and>
    (file_fsync (dev_vtab D) d s = Some (r, s') \<longrightarrow> file_inv g s') \<and>
    (file_getdirentry (dev_vtab D) d name off s = Some (r, off', s') \<longrightarrow> file_inv g s') \<and>
    (file_dup d d' s = Some (r, s') \<longrightarrow> file_inv g s') \<and>
    (files_closeall (dev_vtab D) f s = Some s' \<longrightarrow> file_inv g s') \<and>
    (get_fd_array s \<noteq> None \<longrightarrow> file_dup d d' s \<noteq> None)"
proof (intro conjI impI)
  assume "get_fd_array s \<noteq> None"
  then obtain c where c: "get_fd_array s = Some c" by blast
  then obtain fs where fs: "files s c = Some fs" by (auto simp: get_fd_array_def bind_eq_Some_conv)
  then have "fd2file d s \<noteq> None" using c by (simp add: fd2file_def file_at_def)
  then obtain q where q: "fd2file d s = Some q" by blast
  show "file_dup d d' s \<noteq> None"
  proof (cases q)
    case (Inl e)
    then show ?thesis using q by (simp add: file_dup_def)
  next
    case (Inr p)
    consider e where "fd_array_alloc d' s = Some (Inl e, s)"
      | i x where "i < FILES_STRUCT_NENTRY" "file_at s (c, i) = Some x" "status x = FD_NONE"
          "fd_array_alloc d' s = Some (Inr (c, i), upd_file (c, i) (\<lambda>x. x\<lparr>status := FD_INIT, node := None\<rparr>) s)"
      using alloc_total [OF assms(1) c, of d'] by blast
    then show ?thesis
    proof cases
      case 1
      then show ?thesis using q Inr by (simp add: file_dup_def)
    next
      case 2
      from dup_eq [OF assms(1) c q [unfolded Inr] 2(4) 2(1-3) refl] show ?thesis by (metis option.discI)
    qed
  qed
qed (erule dev_file_open [OF assms] devs.file_close_inv [OF assms] devs.file_read_inv [OF assms]
    devs.file_write_inv [OF assms] devs.file_seek_inv [OF assms] devs.file_fstat_inv [OF assms]
    devs.file_fsync_inv [OF assms] devs.file_getdirentry_inv [OF assms] file_dup_inv [OF assms]
    devs.files_closeall_inv [OF assms])+

lemma ex_dup: "\<exists>s'. file_dup 1 5 ex_con = Some (5, s')"
  by (auto simp: file_dup_def fd2file_def testfd_def nentry get_fd_array_def file_at_def ex_con_def ex_slot_def
      fd_array_alloc_def NO_FD_def fd_array_found_def fd_array_dup_def inode_ref_inc_def inode_open_inc_def upd_file_def
      upd_inode_def fd_array_open_def fopen_count_inc_def)

lemma ex_write: "\<exists>s'. file_write (dev_vtab (\<lambda>_. stdout_ops)) 1 0 3 ex_con = Some (0, 3, s')"
  by (simp add: file_write_def fd2file_def testfd_def nentry get_fd_array_def file_at_def ex_con_def ex_slot_def
      file_io_def fd_array_acquire_def fd_array_release_def upd_file_def vop_op_def inode_check_def dev_vtab_def dev_node_ops_def
      dev_write_def dev_info_def stdout_ops_def stdout_io_def set_drivers_def fopen_count_inc_def fopen_count_dec_def Let_def
      VOP_MAGIC_def MAX_INODE_COUNT_def iobuf_init_def iobuf_used_def)

theorem file_ops_account_witness:
  "(\<exists>s'. file_dup 1 5 ex_con = Some (5, s') \<and> file_inv ex_ledger s') \<and>
   (\<exists>s'. file_write (dev_vtab (\<lambda>_. stdout_ops)) 1 0 3 ex_con = Some (0, 3, s') \<and> file_inv ex_ledger s')"
proof -
  obtain s1 s2 where s: "file_dup 1 5 ex_con = Some (5, s1)" "file_write (dev_vtab (\<lambda>_. stdout_ops)) 1 0 3 ex_con = Some (0, 3, s2)"
    using ex_dup ex_write by blast
  then have "file_inv ex_ledger s1" "file_inv ex_ledger s2" using file_ops_account [OF ex_inv] by blast+
  then show ?thesis using s by blast
qed

section \<open>Duplicating and closing\<close>

text \<open>
  C37: Closing a descriptor that \<open>file_dup\<close> has made undoes it: the close succeeds without calling any inode operation,
  the counts of every inode are as before, so is every other entry of every table, and the entry is free again.
\<close>

theorem dup_close:
  assumes inv: "file_inv g s" and d: "file_dup d d' s = Some (r, s1)" and r: "0 \<le> r"
  shows "\<exists>s2 f z. file_close V r s1 = Some (0, s2) \<and> inodes s2 = inodes s \<and> cur_files s = Some f \<and>
    file_at s2 = (file_at s)((f, nat r) \<mapsto> z) \<and> status z = FD_NONE \<and> map_option status (file_at s (f, nat r)) = Some FD_NONE"
proof -
  obtain q where q: "fd2file d s = Some q" using d by (auto simp: file_dup_def bind_eq_Some_conv)
  have neg: "\<not> r < 0" using r by simp
  obtain p where p: "q = Inr p" using d q neg by (cases q) (auto simp: file_dup_def fd2file_def bind_eq_Some_conv split: if_splits)
  obtain f where f: "get_fd_array s = Some f"
    using q p by (auto simp: fd2file_def bind_eq_Some_conv split: if_splits)
  have cf: "cur_files s = Some f" using f by (auto simp: get_fd_array_def kbind bind_eq_Some_conv)
  have "fd_array_alloc d' s \<noteq> Some (Inl e, s)" if "e < 0" for e using d q p that neg by (auto simp: file_dup_def)
  then obtain i z where a: "i < FILES_STRUCT_NENTRY" "file_at s (f, i) = Some z" "status z = FD_NONE"
    "fd_array_alloc d' s = Some (Inr (f, i), upd_file (f, i) (\<lambda>x. x\<lparr>status := FD_INIT, node := None\<rparr>) s)"
    using alloc_total [OF inv f, of d'] by blast
  obtain n x s' where x: "file_at s p = Some x" "node x = Some n" and d': "file_dup d d' s = Some (int i, s')"
    and e': "file_at s' = (file_at s)((f, i) \<mapsto> x\<lparr>fd := int i, status := FD_OPENED, fopen_count := 1\<rparr>)"
      "inodes s' = (inodes s)(n := map_option (\<lambda>y. y\<lparr>ref_count := ref_count y + 1, open_count := open_count y + 1\<rparr>) (inodes s n))"
      "get_fd_array s' = Some f"
    using dup_eq [OF inv f q [unfolded p] a(4) a(1-3) refl] .
  have s': "r = int i" "s' = s1" using d d' by simp_all
  note e = s'(1) e' [unfolded s'(2)]
  have px: "snd p < FILES_STRUCT_NENTRY" "status x = FD_OPENED" using fd2fileD [OF q [unfolded p]] x(1) by auto
  obtain y where y: "inodes s n = Some y" "ref_count y \<ge> 1" "open_count y \<ge> 1"
    using open_has_inode [OF inv px(1) x(1) px(2)] x(2) by auto
  define t where "t = fopen_count_dec (f, i) (upd_file (f, i) (\<lambda>x. x\<lparr>status := FD_CLOSED\<rparr>) s1)"
  define u where "u = upd_inode n (\<lambda>x. x\<lparr>ref_count := ref_count x - 1\<rparr>) (upd_inode n (\<lambda>x. x\<lparr>open_count := open_count x - 1\<rparr>) t)"
  have it: "inodes t n = Some (y\<lparr>ref_count := ref_count y + 1, open_count := open_count y + 1\<rparr>)"
    using e y by (simp add: t_def fopen_count_dec_def)
  have "vfs_close V (Some n) t = Some (0, u)"
    using it y by (simp add: vfs_close_def inode_open_dec_def inode_ref_dec_def u_def kbind Let_def)
  then have "fd_array_free V (f, i) t = Some (upd_file (f, i) (\<lambda>x. x\<lparr>status := FD_NONE\<rparr>) u)"
    using e x by (simp add: fd_array_free_def t_def fopen_count_dec_def kbind)
  then have "fd_array_close V (f, i) s1 = Some (upd_file (f, i) (\<lambda>x. x\<lparr>status := FD_NONE\<rparr>) u)"
    using e by (simp add: fd_array_close_def t_def kbind)
  moreover have "fd2file r s1 = Some (Inr (f, i))" using e a(1) by (simp add: fd2file_def testfd_def)
  ultimately have "file_close V r s1 = Some (0, upd_file (f, i) (\<lambda>x. x\<lparr>status := FD_NONE\<rparr>) u)" by (simp add: file_close_def)
  moreover have "inodes (upd_file (f, i) (\<lambda>x. x\<lparr>status := FD_NONE\<rparr>) u) = inodes s"
    using e y by (auto simp: u_def t_def fopen_count_dec_def intro!: ext)
  moreover have "file_at (upd_file (f, i) (\<lambda>x. x\<lparr>status := FD_NONE\<rparr>) u) =
      (file_at s)((f, i) \<mapsto> x\<lparr>fd := int i, status := FD_NONE, fopen_count := 0\<rparr>)"
    using e by (intro ext) (auto simp: u_def t_def fopen_count_dec_def intro!: kfile.equality)
  moreover have "nat r = i" using e(1) by simp
  ultimately show ?thesis using cf a(2,3) kfile.select_convs(1) by (intro exI conjI) (assumption | simp)+
qed

theorem dup_close_witness:
  "\<exists>s1 s2. file_dup 1 5 ex_con = Some (5, s1) \<and> file_close (dev_vtab (\<lambda>_. stdout_ops)) 5 s1 = Some (0, s2) \<and> inodes s2 = inodes ex_con"
proof -
  obtain s1 where s1: "file_dup 1 5 ex_con = Some (5, s1)" using ex_dup by blast
  show ?thesis using dup_close [OF ex_inv s1, of "dev_vtab (\<lambda>_. stdout_ops)"] s1 by auto
qed

section \<open>References lost by \<open>vfs_open\<close>\<close>

text \<open>A device without a file system, an entry that is open on it, and a free entry.\<close>

definition leak_ready :: "cstring \<Rightarrow> inode_ptr \<Rightarrow> nat \<Rightarrow> int \<Rightarrow> 'w vfs_state \<Rightarrow> bool" where
  "leak_ready name n i c s \<longleftrightarrow>
     (\<exists>d f fs x. find_dev (\<lambda>d. strcmp name (devname d) = 0) (vdev_list s) = Some d \<and> dev_fs d = None \<and> \<not> mountable d \<and>
        devnode d = Some n \<and> vdev_list_sem s > 0 \<and> inodes s n = Some x \<and> ref_count x = c \<and>
        cur_files s = Some f \<and> files s f = Some fs \<and> files_count fs > 0 \<and>
        i < FILES_STRUCT_NENTRY \<and> status (fd_array fs i) = FD_OPENED \<and> fd (fd_array fs i) = int i \<and>
        writable (fd_array fs i) \<and> node (fd_array fs i) = Some n \<and>
        (\<exists>j < FILES_STRUCT_NENTRY. status (fd_array fs j) = FD_NONE) \<and>
        (\<forall>j < FILES_STRUCT_NENTRY. status (fd_array fs j) = FD_NONE \<longrightarrow> fopen_count (fd_array fs j) = 0))"

definition excl_flags :: u32 where
  "excl_flags = O_CREAT OR O_EXCL OR O_WRONLY"

lemma excl_flags_bits [simp]:
  "excl_flags AND O_ACCMODE = O_WRONLY" "excl_flags AND O_TRUNC = 0" "excl_flags AND O_EXCL \<noteq> 0" "excl_flags AND O_CREAT \<noteq> 0"
  by (simp_all add: excl_flags_def O_CREAT_def O_EXCL_def O_WRONLY_def O_ACCMODE_def O_TRUNC_def)

lemma path_mark_device: "colon_char \<notin> set name \<Longrightarrow> slash_char \<notin> set name \<Longrightarrow> 0 \<notin> set name \<Longrightarrow>
  path_mark (name @ [colon_char]) k = Some (colon_char, k + length name)"
  by (induction name arbitrary: k) auto

lemma find_dev_ne: "find_dev P ds = Some d \<Longrightarrow> ds \<noteq> []"
  by auto

lemma device_lookup:
  assumes name: "name \<noteq> []" "colon_char \<notin> set name" "slash_char \<notin> set name" "0 \<notin> set name"
    and d: "find_dev (\<lambda>d. strcmp name (devname d) = 0) (vdev_list s) = Some d" "dev_fs d = None" "\<not> mountable d" "devnode d = Some n"
    and s: "vdev_list_sem s > 0" "inodes s n = Some x"
  shows "vfs_lookup V (name @ [colon_char]) s = Some (name, Inr (Some n), upd_inode n (\<lambda>x. x\<lparr>ref_count := ref_count x + 1\<rparr>) s)"
proof -
  have "vfs_get_root V name s = Some (Inr (Some n), upd_inode n (\<lambda>x. x\<lparr>ref_count := ref_count x + 1\<rparr>) s)"
    using find_dev_ne [OF d(1)] d s
    by (simp add: vfs_get_root_def lock_vdev_list_def down_value_def dev_root_def inode_ref_inc_def unlock_vdev_list_def upd_inode_def)
  then show ?thesis using name path_mark_device [OF name(2-4), of 0] by (simp add: vfs_lookup_def get_device_def)
qed

lemma leak_once:
  assumes name: "name \<noteq> []" "colon_char \<notin> set name" "slash_char \<notin> set name" "0 \<notin> set name" and r: "leak_ready name n i c s"
  shows "\<exists>s'. file_open V (name @ [colon_char]) excl_flags s = Some (err E_EXISTS, s') \<and> leak_ready name n i (c + 1) s'"
proof -
  obtain d f fs x where d: "find_dev (\<lambda>d. strcmp name (devname d) = 0) (vdev_list s) = Some d" "dev_fs d = None" "\<not> mountable d"
      "devnode d = Some n" "vdev_list_sem s > 0" "inodes s n = Some x" "ref_count x = c"
    and f: "cur_files s = Some f" "files s f = Some fs" "files_count fs > 0"
    and i: "i < FILES_STRUCT_NENTRY" "status (fd_array fs i) = FD_OPENED" "fd (fd_array fs i) = int i" "writable (fd_array fs i)"
      "node (fd_array fs i) = Some n"
    and j0: "\<exists>j < FILES_STRUCT_NENTRY. status (fd_array fs j) = FD_NONE"
    and z: "\<forall>j < FILES_STRUCT_NENTRY. status (fd_array fs j) = FD_NONE \<longrightarrow> fopen_count (fd_array fs j) = 0"
    using r unfolding leak_ready_def by blast
  obtain j where j: "find (\<lambda>i. status (fd_array fs i) = FD_NONE) [0..<FILES_STRUCT_NENTRY] = Some j"
    using j0 by (cases "find (\<lambda>i. status (fd_array fs i) = FD_NONE) [0..<FILES_STRUCT_NENTRY]") (auto simp: find_None_iff)
  then have jn: "j < FILES_STRUCT_NENTRY" "status (fd_array fs j) = FD_NONE" by (auto simp: find_Some_iff)
  let ?s1 = "upd_file (f, j) (\<lambda>x. x\<lparr>status := FD_INIT, node := None\<rparr>) s"
  let ?s2 = "upd_inode n (\<lambda>x. x\<lparr>ref_count := ref_count x + 1\<rparr>) ?s1"
  let ?s3 = "upd_file (f, j) (\<lambda>x. x\<lparr>status := FD_NONE\<rparr>) ?s2"
  have gf: "get_fd_array s = Some f" using f by (simp add: get_fd_array_def)
  have al: "fd_array_alloc NO_FD s = Some (Inr (f, j), ?s1)"
    using gf f j jn z by (simp add: fd_array_alloc_def fd_array_found_def file_at_def)
  have "vfs_lookup V (name @ [colon_char]) ?s1 = Some (name, Inr (Some n), ?s2)"
    by (rule device_lookup [OF name, where d = d and x = x]) (use d in \<open>simp_all add: upd_file_def\<close>)
  then have vo: "vfs_open V (name @ [colon_char]) excl_flags ?s1 = Some (Inl (err E_EXISTS), ?s2)"
    by (simp add: vfs_open_def)
  have fr: "fd_array_free V (f, j) ?s2 = Some ?s3"
  proof -
    have "file_at s (f, j) = Some (fd_array fs j)" using f by (simp add: file_at_def)
    then show ?thesis using jn z by (simp add: fd_array_free_def)
  qed
  have op: "file_open V (name @ [colon_char]) excl_flags s = Some (err E_EXISTS, ?s3)"
    using al vo fr by (simp add: file_open_def)
  have ij: "i \<noteq> j" using i jn by auto
  have "leak_ready name n i (c + 1) ?s3" unfolding leak_ready_def
    using d f i ij j0 jn z by (intro exI [of _ d] exI [of _ f]) (auto simp: upd_file_def upd_inode_def)
  then show ?thesis using op by blast
qed

primrec open_many :: "'w vtab \<Rightarrow> cstring \<Rightarrow> u32 \<Rightarrow> nat \<Rightarrow> 'w vfs_state \<Rightarrow> 'w vfs_state option" where
  "open_many V path flags 0 s = Some s"
| "open_many V path flags (Suc k) s = do { (_, s) \<leftarrow> file_open V path flags s; open_many V path flags k s }"

lemma leak_many:
  assumes name: "name \<noteq> []" "colon_char \<notin> set name" "slash_char \<notin> set name" "0 \<notin> set name"
  shows "leak_ready name n i c s \<Longrightarrow> \<exists>s'. open_many V (name @ [colon_char]) excl_flags k s = Some s' \<and> leak_ready name n i (c + int k) s'"
proof (induction k arbitrary: c s)
  case (Suc k)
  obtain s1 where s1: "file_open V (name @ [colon_char]) excl_flags s = Some (err E_EXISTS, s1)" "leak_ready name n i (c + 1) s1"
    using leak_once [OF name Suc.prems] by blast
  show ?case using Suc.IH [OF s1(2)] s1(1) by (simp add: algebra_simps)
qed simp

lemma write_stops:
  assumes "leak_ready name n i c s" "c \<ge> MAX_INODE_COUNT"
  shows "file_write V (int i) base len s = None"
proof -
  obtain f fs x where f: "cur_files s = Some f" "files s f = Some fs" "files_count fs > 0" "inodes s n = Some x" "ref_count x = c"
    and i: "i < FILES_STRUCT_NENTRY" "status (fd_array fs i) = FD_OPENED" "fd (fd_array fs i) = int i" "writable (fd_array fs i)"
      "node (fd_array fs i) = Some n"
    using assms(1) by (auto simp: leak_ready_def)
  have p: "fd2file (int i) s = Some (Inr (f, i))" using f i by (simp add: fd2file_def testfd_def get_fd_array_def file_at_def)
  have "vop_op V op_write (Some n) (fopen_count_inc (f, i) s) = None"
    using f assms(2) by (auto simp: vop_op_def inode_check_def fopen_count_inc_def kassert_def Option.bind_eq_None_conv)
  then show ?thesis using p f i by (simp add: file_write_def file_io_def fd_array_acquire_def file_at_def fopen_count_inc_def upd_file_def)
qed

text \<open>
  C38: Opening a device with \<open>O_CREAT | O_EXCL\<close> fails with \<open>-E_EXISTS\<close>, as it must, but \<open>vfs_open\<close> does not give back
  the reference that the lookup took: the count of the inode grows by one with every attempt.  A program that tries
  often enough brings it to \<open>MAX_INODE_COUNT\<close>, and then the next write to the device, by anybody, stops the kernel.
\<close>

theorem open_excl_leaks:
  assumes name: "name \<noteq> []" "colon_char \<notin> set name" "slash_char \<notin> set name" "0 \<notin> set name"
    and r: "leak_ready name n i c s" and k: "c + int k \<ge> MAX_INODE_COUNT"
  shows "(\<exists>s'. file_open V (name @ [colon_char]) excl_flags s = Some (err E_EXISTS, s') \<and> leak_ready name n i (c + 1) s') \<and>
    (\<exists>s'. open_many V (name @ [colon_char]) excl_flags k s = Some s' \<and> leak_ready name n i (c + int k) s' \<and>
      file_write V (int i) base len s' = None)"
  using leak_once [OF name r] leak_many [OF name r, of V k] write_stops k by blast

lemma ex_leak_ready: "leak_ready stdout_name 0 1 2 ex_con"
proof -
  have "strcmp stdout_name stdout_name = 0" by (simp add: stdout_name_def)
  then show ?thesis
    by (auto simp: leak_ready_def ex_con_def ex_slot_def nentry intro!: exI [of _ 0])
qed

theorem open_excl_leaks_witness:
  "\<exists>s'. open_many (dev_vtab (\<lambda>_. stdout_ops)) (stdout_name @ [colon_char]) excl_flags 65534 ex_con = Some s' \<and>
     file_write (dev_vtab (\<lambda>_. stdout_ops)) 1 0 1 s' = None"
  using open_excl_leaks [OF _ _ _ _ ex_leak_ready, of 65534 "dev_vtab (\<lambda>_. stdout_ops)" 0 1]
  by (auto simp: stdout_name_def MAX_INODE_COUNT_def)

end
