(* ===== verification/Pid.thy ===== *)
theory Pid
  imports Kproc
begin

text \<open>
  The choice of process numbers: \<open>get_pid\<close> of kern/process/proc.c.  The processes are given by their numbers in the
  order of \<open>proc_list\<close>; the static variables \<open>next_safe\<close> and \<open>last_pid\<close> are the state.  The numbers between them are
  free, so that most calls only count up.
\<close>

section \<open>The search\<close>

text \<open>
  One pass over the processes from the label \<open>repeat\<close>: it ends with the two variables, or asks for another pass from a
  new \<open>last_pid\<close>.
\<close>

fun pid_scan :: "int list \<Rightarrow> int \<Rightarrow> int \<Rightarrow> int + int \<times> int" where
  "pid_scan [] last_pid next_safe = Inr (last_pid, next_safe)"
| "pid_scan (p # ps) last_pid next_safe =
     (if p = last_pid then
        if last_pid + 1 \<ge> next_safe then Inl (if last_pid + 1 \<ge> MAX_PID then 1 else last_pid + 1)
        else pid_scan ps (last_pid + 1) next_safe
      else if p > last_pid \<and> next_safe > p then pid_scan ps last_pid p
      else pid_scan ps last_pid next_safe)"

partial_function (option) pid_repeat :: "int list \<Rightarrow> int \<Rightarrow> (int \<times> int) option" where
  "pid_repeat pids last_pid =
     (case pid_scan pids last_pid MAX_PID of
        Inl l \<Rightarrow> pid_repeat pids l
      | Inr r \<Rightarrow> Some r)"

text \<open>The result is \<open>last_pid\<close>, which \<open>get_pid\<close> returns, with \<open>next_safe\<close>.\<close>

definition get_pid :: "int list \<Rightarrow> int \<Rightarrow> int \<Rightarrow> (int \<times> int) option" where
  "get_pid pids last_pid next_safe =
     (if last_pid + 1 \<ge> MAX_PID then pid_repeat pids 1
      else if last_pid + 1 \<ge> next_safe then pid_repeat pids (last_pid + 1)
      else Some (last_pid + 1, next_safe))"

section \<open>Correctness\<close>

text \<open>After a part \<open>qs\<close> of the list no number of it lies in the window from \<open>last_pid\<close> up to \<open>next_safe\<close>.\<close>

definition scan_ok :: "int set \<Rightarrow> int list \<Rightarrow> int \<Rightarrow> int + int \<times> int \<Rightarrow> bool" where
  "scan_ok Q ps k r \<longleftrightarrow> (case r of
      Inr (l, n) \<Rightarrow> k \<le> l \<and> l < n \<and> n \<le> MAX_PID \<and> {k..<l} \<subseteq> set ps \<and> (\<forall>q \<in> Q \<union> set ps. \<not> (l \<le> q \<and> q < n))
    | Inl m \<Rightarrow> \<exists>l. k < l \<and> l \<le> MAX_PID \<and> {k..<l} \<subseteq> set ps \<and> m = (if l \<ge> MAX_PID then 1 else l))"

lemma scan_ok_skip:
  assumes "scan_ok (insert p Q) ps k r"
  shows "scan_ok Q (p # ps) k r"
proof (cases r)
  case (Inl m)
  then obtain l where "k < l" "l \<le> MAX_PID" "{k..<l} \<subseteq> set ps" "m = (if l \<ge> MAX_PID then 1 else l)"
    using assms by (auto simp: scan_ok_def)
  moreover have "{k..<l} \<subseteq> set (p # ps)" using calculation(3) by auto
  ultimately show ?thesis using Inl unfolding scan_ok_def by (auto intro!: exI [of _ l])
next
  case (Inr q)
  then show ?thesis using assms by (cases q) (auto simp: scan_ok_def)
qed

lemma used_up: "{k + 1..<l} \<subseteq> A \<Longrightarrow> {k..<l} \<subseteq> insert (k::int) A"
proof
  fix x
  assume "{k + 1..<l} \<subseteq> A" "x \<in> {k..<l}"
  then show "x \<in> insert k A" by (cases "x = k") auto
qed

lemma scan_ok_used:
  assumes "scan_ok (insert k Q) ps (k + 1) r"
  shows "scan_ok Q (k # ps) k r"
proof (cases r)
  case (Inl m)
  then obtain l where "k + 1 < l" "l \<le> MAX_PID" "{k + 1..<l} \<subseteq> set ps" "m = (if l \<ge> MAX_PID then 1 else l)"
    using assms by (auto simp: scan_ok_def)
  then have "k < l \<and> l \<le> MAX_PID \<and> {k..<l} \<subseteq> set (k # ps) \<and> m = (if l \<ge> MAX_PID then 1 else l)" using used_up [of k l "set ps"] by simp
  then show ?thesis using Inl unfolding scan_ok_def by auto
next
  case (Inr q)
  obtain l n where q: "q = (l, n)" by (cases q)
  have "k + 1 \<le> l" "{k + 1..<l} \<subseteq> set ps" "l < n" "n \<le> MAX_PID" "\<forall>x \<in> insert k Q \<union> set ps. \<not> (l \<le> x \<and> x < n)"
    using assms Inr q by (auto simp: scan_ok_def)
  then show ?thesis using used_up [of k l "set ps"] Inr q by (simp add: scan_ok_def)
qed

lemma pid_scan_spec:
  assumes "k < nxt" "nxt \<le> MAX_PID" "\<forall>q \<in> Q. \<not> (k \<le> q \<and> q < nxt)"
  shows "scan_ok Q ps k (pid_scan ps k nxt)"
  using assms
proof (induction ps arbitrary: k nxt Q)
  case Nil
  then show ?case by (simp add: scan_ok_def)
next
  case (Cons p ps)
  consider "p = k" "k + 1 \<ge> nxt" | "p = k" "k + 1 < nxt" | "p > k" "nxt > p"
    | "p \<noteq> k" "\<not> (p > k \<and> nxt > p)" by linarith
  then show ?case
  proof cases
    case 1
    have "k < k + 1 \<and> k + 1 \<le> MAX_PID \<and> {k..<k + 1} \<subseteq> set (p # ps)" using 1 Cons.prems by auto
    then show ?thesis using 1 unfolding scan_ok_def by auto
  next
    case 2
    have "scan_ok (insert k Q) ps (k + 1) (pid_scan ps (k + 1) nxt)"
      by (rule Cons.IH) (use 2 Cons.prems in auto)
    then show ?thesis using 2 scan_ok_used by simp
  next
    case 3
    have "scan_ok (insert p Q) ps k (pid_scan ps k p)"
      by (rule Cons.IH) (use 3 Cons.prems in auto)
    then show ?thesis using 3 scan_ok_skip by simp
  next
    case 4
    have "scan_ok (insert p Q) ps k (pid_scan ps k nxt)"
      by (rule Cons.IH) (use 4 Cons.prems in auto)
    then show ?thesis using 4 scan_ok_skip by auto
  qed
qed

definition pid_found :: "int list \<Rightarrow> int \<Rightarrow> int \<Rightarrow> bool" where
  "pid_found pids l n \<longleftrightarrow> 1 \<le> l \<and> l < n \<and> n \<le> MAX_PID \<and> (\<forall>p \<in> set pids. \<not> (l \<le> p \<and> p < n))"

lemma scan_cases:
  assumes "1 \<le> k" "k < MAX_PID"
  obtains (found) l n where "pid_scan pids k MAX_PID = Inr (l, n)" "pid_found pids l n"
  | (again) l where "k < l" "l < MAX_PID" "{k..<l} \<subseteq> set pids" "pid_scan pids k MAX_PID = Inl l"
  | (wrap) "{k..<MAX_PID} \<subseteq> set pids" "pid_scan pids k MAX_PID = Inl 1"
proof -
  have "scan_ok {} pids k (pid_scan pids k MAX_PID)" by (rule pid_scan_spec) (use assms in auto)
  then show ?thesis using found again wrap assms(1)
    by (cases "pid_scan pids k MAX_PID") (auto simp: scan_ok_def pid_found_def split: if_splits)
qed

lemma repeat_up:
  assumes "f \<notin> set pids" "f < MAX_PID"
  shows "1 \<le> k \<Longrightarrow> k \<le> f \<Longrightarrow> \<exists>l n. pid_repeat pids k = Some (l, n) \<and> pid_found pids l n"
proof (induction "nat (f - k)" arbitrary: k rule: less_induct)
  case less
  have "k < MAX_PID" using less.prems assms(2) by simp
  with less.prems(1) show ?case
  proof (cases rule: scan_cases [where pids = pids])
    case (found l n)
    then show ?thesis by (simp add: pid_repeat.simps)
  next
    case (again l)
    have "l \<le> f" using again(3) assms(1) less.prems(2) by (meson atLeastLessThan_iff not_le_imp_less subsetD)
    then have "\<exists>l' n. pid_repeat pids l = Some (l', n) \<and> pid_found pids l' n"
      using less.hyps [of l] less.prems again(1) by simp
    then show ?thesis using again(4) by (subst pid_repeat.simps) simp
  next
    case wrap
    then show ?thesis using assms less.prems by (meson atLeastLessThan_iff subsetD)
  qed
qed

lemma repeat_any:
  assumes "f \<notin> set pids" "1 \<le> f" "f < MAX_PID"
  shows "1 \<le> k \<Longrightarrow> k < MAX_PID \<Longrightarrow> \<exists>l n. pid_repeat pids k = Some (l, n) \<and> pid_found pids l n"
proof (induction "nat (MAX_PID - k)" arbitrary: k rule: less_induct)
  case less
  show ?case using less.prems
  proof (cases rule: scan_cases [where pids = pids])
    case (found l n)
    then show ?thesis by (simp add: pid_repeat.simps)
  next
    case (again l)
    have "\<exists>l' n. pid_repeat pids l = Some (l', n) \<and> pid_found pids l' n"
      using less.hyps [of l] less.prems again(1,2) by simp
    then show ?thesis using again(4) by (subst pid_repeat.simps) simp
  next
    case wrap
    have "\<exists>l' n. pid_repeat pids 1 = Some (l', n) \<and> pid_found pids l' n"
      by (rule repeat_up [OF assms(1,3)]) (use assms(2) in simp_all)
    then show ?thesis using wrap(2) by (subst pid_repeat.simps) simp
  qed
qed

lemma free_pid:
  assumes "int (length pids) \<le> MAX_PROCESS"
  obtains f where "f \<notin> set pids" "1 \<le> f" "f < MAX_PID"
proof -
  have "\<not> {1..<MAX_PID} \<subseteq> set pids"
  proof
    assume "{1..<MAX_PID} \<subseteq> set pids"
    then have "card {1..<MAX_PID} \<le> card (set pids)" by (rule card_mono [OF finite_set])
    then show False using card_length [of pids] assms by (simp add: MAX_PID_def MAX_PROCESS_def)
  qed
  then obtain f where "f \<in> {1..<MAX_PID}" "f \<notin> set pids" by blast
  then show ?thesis using that [of f] by simp
qed

text \<open>
  C39: With no more than \<open>MAX_PROCESS\<close> processes \<open>get_pid\<close> always returns, and what it returns is a number between 1 and
  \<open>MAX_PID\<close> that no process has.  The numbers strictly between \<open>last_pid\<close> and \<open>next_safe\<close> stay free, which is what
  the next call relies on; this holds from the start, when both are \<open>MAX_PID\<close>, and is not disturbed when the new process
  joins the list or any process leaves it.
\<close>

theorem get_pid_fresh:
  assumes "int (length pids) \<le> MAX_PROCESS" and "1 \<le> last_pid" and "next_safe \<le> MAX_PID"
    and "\<forall>p \<in> set pids. \<not> (last_pid < p \<and> p < next_safe)"
  shows "\<exists>l n. get_pid pids last_pid next_safe = Some (l, n) \<and> 1 \<le> l \<and> l < MAX_PID \<and> l \<notin> set pids \<and> n \<le> MAX_PID \<and>
    (\<forall>pids'. set pids' \<subseteq> insert l (set pids) \<longrightarrow> (\<forall>p \<in> set pids'. \<not> (l < p \<and> p < n)))"
proof -
  obtain f where f: "f \<notin> set pids" "1 \<le> f" "f < MAX_PID" using free_pid [OF assms(1)] by blast
  have "\<exists>l n. get_pid pids last_pid next_safe = Some (l, n) \<and> pid_found pids l n"
  proof (cases "last_pid + 1 < MAX_PID \<and> last_pid + 1 < next_safe")
    case True
    then show ?thesis using assms by (auto simp: get_pid_def pid_found_def)
  next
    case False
    then show ?thesis using repeat_any [OF f, of 1] repeat_any [OF f, of "last_pid + 1"] assms(2)
      by (auto simp: get_pid_def MAX_PID_def MAX_PROCESS_def)
  qed
  then obtain l n where l: "get_pid pids last_pid next_safe = Some (l, n)" "pid_found pids l n" by blast
  have "\<not> (l < p \<and> p < n)" if "set pids' \<subseteq> insert l (set pids)" "p \<in> set pids'" for p and pids' :: "int list"
    using that l(2) by (auto simp: pid_found_def)
  moreover have "1 \<le> l" "l < MAX_PID" "l \<notin> set pids" "n \<le> MAX_PID" using l(2) by (auto simp: pid_found_def)
  ultimately show ?thesis using l(1) by blast
qed

theorem get_pid_fresh_witness:
  "\<exists>l n. get_pid [2, 1, 5] MAX_PID MAX_PID = Some (l, n) \<and> l \<notin> set [2, 1, 5] \<and> l < MAX_PID"
  using get_pid_fresh [of "[2, 1, 5]" MAX_PID MAX_PID] by (auto simp: MAX_PID_def MAX_PROCESS_def)

end
