(* ===== verification/Spec2Isabelle.thy ===== *)
theory Spec2Isabelle
  imports Printfmt Swap Philosophers Dev Pid
begin

text \<open>
  A verification library of the teaching kernel in src/lab9: its data structures, its scheduler and
  synchronisation, its memory management, its string and output library and its virtual file system.

  \<^bold>\<open>Conventions.\<close>  A kernel function is a HOL function on an explicit state.  Pointers are numbers (or the
  constructors of a datatype where several structs embed the same node) and the structs they point to live in
  stores, so aliasing is visible.  \<open>None\<close> of type \<open>option\<close> is a kernel that stops: a failed \<open>assert\<close>, a \<open>panic\<close>, a
  null pointer that is dereferenced, or, for the functions defined with \<open>partial_function\<close>, a loop that does not
  end.  Error codes are negative integers (\<open>err E_INVAL\<close>); a function that returns a code and an out parameter
  gives a sum.  Machine words are \<open>u8\<close>, \<open>u32\<close> and \<open>u64\<close> and wrap.  No fuel is used: loops are structural or
  well-founded recursion where the measure is evident and partial functions otherwise, and the theorems on a partial
  function prove that it returns.

  \<^bold>\<open>Theories, from the bottom up.\<close>
  \<^item> \<open>Kprelude\<close>: integers, error codes (libs/error.h), rounding macros (libs/defs.h), assertions.
  \<^item> \<open>Klist\<close>: libs/list.h on a store of entries; \<open>ring\<close> relates a store to a sequence and every function to one on
    sequences; locale \<open>linked_queue\<close>.
  \<^item> \<open>SkewHeap\<close>: libs/skew_heap.h on a store; merging returns and computes the functional merge; locale
    \<open>keyed_compare\<close> for the client's comparison.
  \<^item> \<open>Kproc\<close>, \<open>Pid\<close>: the process control block (kern/process/proc.h), \<open>proc_run\<close> and \<open>get_pid\<close> (proc.c).
  \<^item> \<open>Sched_class\<close>, \<open>Sched_stride\<close>, \<open>Sched_RR\<close>, \<open>Sched\<close>: the table of scheduling functions and its contract (locale
    \<open>sched_class_spec\<close>), met by the stride class (default_sched.c) and by round robin (sched_RR.c, sched_mpRR.c); the
    core scheduler and the timers of sched.c over any class.
  \<^item> \<open>Page\<close>, \<open>Default_pmm\<close>: atomic bit operations (libs/atomic.h), \<open>struct Page\<close>, the contract of a page allocator
    (locale \<open>pmm_spec\<close>) and the first-fit allocator of default_pmm.c, which meets it.
  \<^item> \<open>Mmu\<close>, \<open>Mm\<close>, \<open>Pmm\<close>, \<open>Pgtable\<close>, \<open>Pgrange\<close>: address arithmetic (mmu.h, memlayout.h), the state of the memory
    subsystem \<open>mem_state\<close>, the operations of pmm.c with the FIFO swapping they fall back to (swap.c, swap_fifo.c,
    swapfs.c), the invariant \<open>mem_ok s F D\<close> of all address spaces, and the operations on ranges of pages.
  \<^item> \<open>Kmalloc\<close>: the heap of kmalloc.c on its list of free blocks.
  \<^item> \<open>Vmm\<close>, \<open>Swap\<close>: areas, page faults and the check of user memory (vmm.c); swapping out and in again.
  \<^item> \<open>Kstring\<close>, \<open>Kdiv\<close>, \<open>Printfmt\<close>: libs/string.c, the division macro of x86.h, hash.c, rand.c and printfmt.c.
  \<^item> \<open>Sync\<close>, \<open>Philosophers\<close>: wait queues and semaphores (kern/sync/wait.c, sem.c) on the linked lists and the run
    queue; the dining philosophers of check_sync.c with semaphores, as a transition system of five threads.
  \<^item> \<open>Vfs\<close>, \<open>File\<close>, \<open>File_inv\<close>, \<open>Dev\<close>: inodes, devices, path names and opening (kern/fs/vfs), open files (file.c,
    fs.c, iobuf.c), their accounting relative to a ledger with the contract of the inode operations (locale
    \<open>inode_contract\<close>), and device inodes (devs/dev.c, dev_stdout.c), which meet it.

  \<^bold>\<open>What is shown.\<close>
  \<^item> Scheduling: stride scheduling orders correctly across wrap-around; the run queue is exactly the set of runnable
    processes that do not run; wake-up queues; a tick wakes exactly the processes of expired timers; \<open>get_pid\<close> returns
    a number nobody has.
  \<^item> Page allocation: first fit, complete (it fails exactly when there is no run of free pages), and exact release with
    full merging.
  \<^item> Address spaces: inserting, unmapping, copying and releasing act on exactly the stated entries, counts and free
    pages, and leave no stale translation; areas stay sorted and disjoint; page faults and the check of user memory
    decide exactly as the flags of the areas say; a page survives swapping.
  \<^item> Heap: a block is fresh, freeing gives it back; the sizes for which \<open>kmalloc\<close> stops or gets too few pages.
  \<^item> Library: overlap-safe moves, comparison, division, and formatted output, with its bounds and the round trip of
    printing and reading a number.
  \<^item> Synchronisation: semaphores refine a counter with a first-in first-out queue; waiters are served; philosophers
    never eat beside each other and all of them finish.
  \<^item> Files: tables of open files and inode counts agree after every operation on device inodes; closing undoes
    duplicating; a lost reference in \<open>vfs_open\<close> that ends in a stop of the kernel.

  \<^bold>\<open>Bounds.\<close>  \<open>mem_ok\<close> bounds the number of mappings of a page by its count from above only, since the kernel also
  counts uses that are not mappings; the theorems on \<open>page_insert\<close> and \<open>unmap_range\<close> give the change of every count
  exactly.  User addresses lie below \<open>USERTOP\<close>; the number of page frames is at most \<open>2 ^ 20\<close>.  Addresses of the string
  and output routines are unbounded numbers: the wrap-around of a buffer that ends at the top of the address space (for
  which \<open>vsnprintf\<close> tests \<open>b.buf > b.ebuf\<close>) does not occur in the model.

  \<^bold>\<open>Not modelled.\<close>
  \<^item> Hardware: the boot loader, traps, drivers and start-up work on ports, registers and assembly.  Of the IDE driver
    (kern/driver/ide.c), which polls ports, the swap model has the transfer of a page as a parameter \<open>ide_xfer\<close>, with
    any result; only the round trip of swapping assumes that it succeeds and is faithful.
  \<^item> The simple file system (kern/fs/sfs).  The file layer reaches it through \<open>inode_contract\<close>; the contract is proved
    for device inodes, with any drivers, and not for SFS, so the accounting theorem is about device inodes.  There no
    file system is mounted, and a call through its table stops the kernel.
  \<^item> Operations of the file layer run to their end one at a time; those of other processes that have been started are
    the pins of the ledger.  The keyboard device, which waits for interrupts, is left out.
  \<^item> Forking, loading and ending of processes, system calls and copying between user and kernel memory; monitors; the
    multi-level feedback queue, which is never selected; the start of further processors (kern/mp).
  \<^item> The self tests (\<open>check_swap\<close>, \<open>check_pgdir\<close> and the like), user programs and build tools, and the separate kernel
    in src/ucore_plus.
\<close>

end
